(* ===== verification/Prelude.thy ===== *)
theory Prelude
  imports Complex_Main
begin

text \<open>
  Shared ground of the development: the JavaScript values that the order system
  inspects dynamically, the helpers of the standard library that its sources use
  (\<open>typeof\<close>, \<open>Array.isArray\<close>, \<open>Number.isInteger\<close>, \<open>Number.isFinite\<close>, property
  access, truthiness, \<open>trim\<close>, \<open>toLowerCase\<close>, decimal printing, \<open>join\<close>), and the
  generic list facts and hint collections that the component theories share.

  Numbers are the exact rationals with the three non-finite values of the
  language; the rounding of binary64 arithmetic is not modelled.  Strings are
  lists of characters below 256, that is the Latin-1 code units.
\<close>

section \<open>Hint collections\<close>

named_theorems js_eval \<open>equations that evaluate the dynamic-value helpers\<close>
named_theorems step_elims \<open>inversion rules of the component step functions\<close>
named_theorems inv_intros \<open>preservation lemmas of the component invariants\<close>

section \<open>Values of the language\<close>

datatype jsnum = Fin rat | PosInfinity | NegInfinity | NaN

datatype jsval =
    JUndefined
  | JNull
  | JBool bool
  | JNum jsnum
  | JStr string
  | JArr "jsval list"
  | JObj "(string \<times> jsval) list"
  | JFun

abbreviation JInt :: "int \<Rightarrow> jsval" where
  "JInt i \<equiv> JNum (Fin (of_int i))"

definition num_is_finite :: "jsnum \<Rightarrow> bool" where
  "num_is_finite n = (case n of Fin _ \<Rightarrow> True | _ \<Rightarrow> False)"

definition num_is_integer :: "jsnum \<Rightarrow> bool" where
  "num_is_integer n = (case n of Fin r \<Rightarrow> of_int \<lfloor>r\<rfloor> = r | _ \<Rightarrow> False)"

definition num_positive :: "jsnum \<Rightarrow> bool" where
  "num_positive n = (case n of Fin r \<Rightarrow> 0 < r | PosInfinity \<Rightarrow> True | _ \<Rightarrow> False)"

lemma num_is_finite_simps [simp, js_eval]:
  "num_is_finite (Fin r)" "\<not> num_is_finite PosInfinity"
  "\<not> num_is_finite NegInfinity" "\<not> num_is_finite NaN"
  by (simp_all add: num_is_finite_def)

lemma num_is_integer_simps [simp, js_eval]:
  "num_is_integer (Fin r) \<longleftrightarrow> of_int \<lfloor>r\<rfloor> = r" "\<not> num_is_integer PosInfinity"
  "\<not> num_is_integer NegInfinity" "\<not> num_is_integer NaN"
  by (simp_all add: num_is_integer_def)

lemma num_positive_simps [simp, js_eval]:
  "num_positive (Fin r) \<longleftrightarrow> 0 < r" "num_positive PosInfinity"
  "\<not> num_positive NegInfinity" "\<not> num_positive NaN"
  by (simp_all add: num_positive_def)

text \<open>\<open>Number.isInteger(v)\<close> and \<open>Number.isFinite(v)\<close> are false on every non-number.\<close>

definition is_integer :: "jsval \<Rightarrow> bool" where
  "is_integer v = (case v of JNum n \<Rightarrow> num_is_integer n | _ \<Rightarrow> False)"

definition is_finite :: "jsval \<Rightarrow> bool" where
  "is_finite v = (case v of JNum n \<Rightarrow> num_is_finite n | _ \<Rightarrow> False)"

definition is_positive_integer :: "jsval \<Rightarrow> bool" where
  "is_positive_integer v = (case v of JNum n \<Rightarrow> num_is_integer n \<and> num_positive n | _ \<Rightarrow> False)"

definition is_nonneg_integer :: "jsval \<Rightarrow> bool" where
  "is_nonneg_integer v = (case v of JNum (Fin r) \<Rightarrow> of_int \<lfloor>r\<rfloor> = r \<and> 0 \<le> r | _ \<Rightarrow> False)"

definition int_of_js :: "jsval \<Rightarrow> int" where
  "int_of_js v = (case v of JNum (Fin r) \<Rightarrow> \<lfloor>r\<rfloor> | _ \<Rightarrow> 0)"

lemma is_positive_integer_simps [simp, js_eval]:
  "is_positive_integer (JNum (Fin r)) \<longleftrightarrow> of_int \<lfloor>r\<rfloor> = r \<and> 0 < r"
  "\<not> is_positive_integer (JNum PosInfinity)" "\<not> is_positive_integer (JNum NegInfinity)"
  "\<not> is_positive_integer (JNum NaN)" "\<not> is_positive_integer JUndefined"
  "\<not> is_positive_integer JNull" "\<not> is_positive_integer (JStr s)"
  "\<not> is_positive_integer (JBool b)" "\<not> is_positive_integer (JArr vs)"
  "\<not> is_positive_integer (JObj fs)" "\<not> is_positive_integer JFun"
  by (simp_all add: is_positive_integer_def)

lemma int_of_js_JInt [simp, js_eval]: "int_of_js (JInt i) = i"
  by (simp add: int_of_js_def)

lemma int_of_js_numerals [simp, js_eval]:
  "int_of_js (JNum (Fin (numeral w))) = numeral w" "int_of_js (JNum (Fin 0)) = 0"
  "int_of_js (JNum (Fin 1)) = 1"
  by (simp_all add: int_of_js_def)

text \<open>An accepted positive integer is the embedding of a positive \<open>int\<close>.\<close>

lemma is_positive_integerE:
  assumes "is_positive_integer v"
  obtains i where "v = JInt i" and "0 < i" and "int_of_js v = i"
proof -
  obtain r where v: "v = JNum (Fin r)" and r: "of_int \<lfloor>r\<rfloor> = r" "0 < r"
    using assms
    by (auto simp: is_positive_integer_def num_is_integer_def num_positive_def
          split: jsval.splits jsnum.splits)
  have "0 < \<lfloor>r\<rfloor>" using r by (metis of_int_0_less_iff)
  moreover have "v = JInt \<lfloor>r\<rfloor>" by (simp only: v r(1))
  ultimately show thesis using that v by (simp add: int_of_js_def)
qed

definition truthy :: "jsval \<Rightarrow> bool" where
  "truthy v = (case v of
      JUndefined \<Rightarrow> False | JNull \<Rightarrow> False | JBool b \<Rightarrow> b
    | JNum n \<Rightarrow> n \<noteq> Fin 0 \<and> n \<noteq> NaN
    | JStr s \<Rightarrow> s \<noteq> []
    | JArr _ \<Rightarrow> True | JObj _ \<Rightarrow> True | JFun \<Rightarrow> True)"

definition is_array :: "jsval \<Rightarrow> bool" where
  "is_array v = (case v of JArr _ \<Rightarrow> True | _ \<Rightarrow> False)"

definition typeof_string :: "jsval \<Rightarrow> bool" where
  "typeof_string v = (case v of JStr _ \<Rightarrow> True | _ \<Rightarrow> False)"

text \<open>\<open>typeof null\<close> and \<open>typeof []\<close> are both \<open>object\<close>.\<close>

definition typeof_object :: "jsval \<Rightarrow> bool" where
  "typeof_object v = (case v of JNull \<Rightarrow> True | JArr _ \<Rightarrow> True | JObj _ \<Rightarrow> True | _ \<Rightarrow> False)"

text \<open>\<open>!v || typeof v !== 'object' || Array.isArray(v)\<close>, negated: a plain object.\<close>

definition is_plain_object :: "jsval \<Rightarrow> bool" where
  "is_plain_object v = (truthy v \<and> typeof_object v \<and> \<not> is_array v)"

lemma is_plain_object_simps [simp, js_eval]:
  "is_plain_object (JObj fs)" "\<not> is_plain_object JUndefined" "\<not> is_plain_object JNull"
  "\<not> is_plain_object (JBool b)" "\<not> is_plain_object (JNum n)" "\<not> is_plain_object (JStr s)"
  "\<not> is_plain_object (JArr vs)" "\<not> is_plain_object JFun"
  by (simp_all add: is_plain_object_def truthy_def typeof_object_def is_array_def)

lemma is_plain_object_iff: "is_plain_object v \<longleftrightarrow> (\<exists>fs. v = JObj fs)"
  by (cases v) auto

text \<open>Own data properties of a value; no source file reads an inherited one.\<close>

definition get_prop :: "jsval \<Rightarrow> string \<Rightarrow> jsval" where
  "get_prop v k = (case v of
      JObj fs \<Rightarrow> (case map_of fs k of Some x \<Rightarrow> x | None \<Rightarrow> JUndefined)
    | _ \<Rightarrow> JUndefined)"

lemma get_prop_simps [simp, js_eval]:
  "get_prop (JObj fs) k = (case map_of fs k of Some x \<Rightarrow> x | None \<Rightarrow> JUndefined)"
  "get_prop JUndefined k = JUndefined" "get_prop JNull k = JUndefined"
  "get_prop (JBool b) k = JUndefined" "get_prop (JNum n) k = JUndefined"
  "get_prop (JStr s) k = JUndefined" "get_prop (JArr vs) k = JUndefined"
  "get_prop JFun k = JUndefined"
  by (simp_all add: get_prop_def)

text \<open>\<open>{ ...object, [k]: v }\<close>: the property is replaced in place or appended.\<close>

fun put_prop :: "string \<Rightarrow> jsval \<Rightarrow> (string \<times> jsval) list \<Rightarrow> (string \<times> jsval) list" where
  "put_prop k v [] = [(k, v)]"
| "put_prop k v ((k', v') # fs) = (if k' = k then (k, v) # fs else (k', v') # put_prop k v fs)"

lemma map_of_put_prop [simp, js_eval]: "map_of (put_prop k v fs) = (map_of fs)(k \<mapsto> v)"
  by (induction fs) auto

text \<open>\<open>v ?? d\<close>\<close>

definition nullish_or :: "jsval \<Rightarrow> jsval \<Rightarrow> jsval" where
  "nullish_or v d = (if v = JUndefined \<or> v = JNull then d else v)"

fun js_str :: "jsval \<Rightarrow> string" where
  "js_str (JStr s) = s"
| "js_str _ = []"

lemma typeof_string_iff: "typeof_string v \<longleftrightarrow> v = JStr (js_str v)"
  by (cases v) (auto simp: typeof_string_def)

section \<open>Strings\<close>

text \<open>White space and line terminators among the Latin-1 code units.\<close>

definition js_space :: "char \<Rightarrow> bool" where
  "js_space c = (of_char c \<in> {9, 10, 11, 12, 13, 32, 160 :: nat})"

definition trim :: "string \<Rightarrow> string" where
  "trim s = rev (dropWhile js_space (rev (dropWhile js_space s)))"

text \<open>The shared helper \<open>typeof value === 'string' && value.trim().length > 0\<close>.\<close>

definition is_nonempty_string :: "jsval \<Rightarrow> bool" where
  "is_nonempty_string v = (case v of JStr s \<Rightarrow> trim s \<noteq> [] | _ \<Rightarrow> False)"

lemma trim_eq_Nil_iff: "trim s = [] \<longleftrightarrow> (\<forall>c\<in>set s. js_space c)"
proof -
  have "trim s = [] \<longleftrightarrow> (\<forall>c\<in>set (dropWhile js_space s). js_space c)"
    by (simp add: trim_def dropWhile_eq_Nil_conv)
  also have "\<dots> \<longleftrightarrow> (\<forall>c\<in>set s. js_space c)"
    by (induction s) auto
  finally show ?thesis .
qed

lemma is_nonempty_stringE:
  assumes "is_nonempty_string v"
  obtains s where "v = JStr s" and "trim s \<noteq> []"
  using assms by (auto simp: is_nonempty_string_def split: jsval.splits)

definition lower_char :: "char \<Rightarrow> char" where
  "lower_char c =
     (let n = (of_char c :: nat) in
      if 65 \<le> n \<and> n \<le> 90 \<or> 192 \<le> n \<and> n \<le> 222 \<and> n \<noteq> 215 then char_of (n + 32) else c)"

definition to_lower :: "string \<Rightarrow> string" where
  "to_lower s = map lower_char s"

lemma lower_char_idem [simp]: "lower_char (lower_char c) = lower_char c"
  by (auto simp: lower_char_def Let_def)

lemma to_lower_idem [simp]: "to_lower (to_lower s) = to_lower s"
  by (simp add: to_lower_def comp_def)

subsection \<open>Decimal printing\<close>

definition digit_char :: "nat \<Rightarrow> char" where
  "digit_char d = char_of (48 + d)"

fun show_nat :: "nat \<Rightarrow> string" where
  "show_nat n = (if n < 10 then [digit_char n] else show_nat (n div 10) @ [digit_char (n mod 10)])"

declare show_nat.simps [simp del]

definition show_int :: "int \<Rightarrow> string" where
  "show_int i = (if i < 0 then ''-'' @ show_nat (nat (- i)) else show_nat (nat i))"

fun join :: "string \<Rightarrow> string list \<Rightarrow> string" where
  "join sep [] = []"
| "join sep [s] = s"
| "join sep (s # t # ss) = s @ sep @ join sep (t # ss)"

text \<open>Reading the digits back: the inverse that makes printing injective.\<close>

definition digit_value :: "char \<Rightarrow> nat" where
  "digit_value c = of_char c - 48"

definition read_nat :: "string \<Rightarrow> nat" where
  "read_nat s = foldl (\<lambda>a c. 10 * a + digit_value c) 0 s"

lemma digit_value_digit_char [simp]: "d < 10 \<Longrightarrow> digit_value (digit_char d) = d"
  by (simp add: digit_value_def digit_char_def)

lemma read_nat_show_nat [simp]: "read_nat (show_nat n) = n"
proof (induction n rule: show_nat.induct)
  case (1 n)
  show ?case
  proof (cases "n < 10")
    case True
    then show ?thesis by (simp add: show_nat.simps [of n] read_nat_def)
  next
    case False
    with "1.IH" show ?thesis
      by (simp add: show_nat.simps [of n]) (simp add: read_nat_def)
  qed
qed

lemma show_nat_inject [simp]: "show_nat m = show_nat n \<longleftrightarrow> m = n"
  by (metis read_nat_show_nat)

section \<open>Generic map and list facts\<close>

lemma map_le_None: "m \<subseteq>\<^sub>m m' \<Longrightarrow> m' k = None \<Longrightarrow> m k = None"
  by (metis domIff map_le_def)

lemma map_le_Some: "m \<subseteq>\<^sub>m m' \<Longrightarrow> m k = Some x \<Longrightarrow> m' k = Some x"
  by (metis domI map_le_def)

lemma in_set_tlD: "x \<in> set (tl xs) \<Longrightarrow> x \<in> set xs"
  by (cases xs) auto

lemma append_sep_inject:
  assumes "x \<notin> set as" and "x \<notin> set bs" and "x \<notin> set cs" and "x \<notin> set ds"
  shows "as @ x # bs = cs @ x # ds \<longleftrightarrow> as = cs \<and> bs = ds"
  using assms by (auto simp: append_eq_append_conv2 Cons_eq_append_conv append_eq_Cons_conv)

text \<open>Only one side has to be free of the separator when it occurs exactly once there.\<close>

lemma append_sep_inject_left:
  assumes "as @ x # bs = cs @ x # ds" and "x \<notin> set cs" and "x \<notin> set ds"
  shows "as = cs \<and> bs = ds"
  using assms by (auto simp: append_eq_append_conv2 Cons_eq_append_conv append_eq_Cons_conv)

end
