(* ===== verification/Errors.thy ===== *)
theory Errors
  imports Prelude
begin

text \<open>
  The errors of the order system.  Every class that a source file declares is a
  constructor of one datatype, with the fields its constructor stores; a value
  thrown by a third-party client or an injected function is an ordinary
  \<open>Error\<close> object (\<open>ErrorObj\<close>, with the properties the sources read) or a value
  that is no \<open>Error\<close> at all (\<open>Thrown\<close>).  A computation that may throw returns
  \<open>exn + 'a\<close>, with the thrown value on the left.
\<close>

section \<open>The order record\<close>

text \<open>The object \<open>mapOrder\<close> of \<open>packages/database/src/mappers.js\<close> builds; the two
  \<open>Date\<close> fields are their time values in milliseconds.\<close>

record order =
  ord_id :: string
  ord_customerId :: string
  ord_productId :: string
  ord_quantity :: int
  ord_amount :: int
  ord_status :: string
  ord_version :: int
  ord_idempotencyKey :: string
  ord_createdAt :: int
  ord_updatedAt :: int

section \<open>Error classes\<close>

datatype classification = TRANSIENT | PERMANENT

datatype retry_stage = RETRY_DELAY | DEAD_LETTER_PUBLICATION

datatype lock_operation = ACQUIRE | RELEASE

datatype exn =
    Thrown jsval
  | ErrorObj string string "string option"
  | QueueShutdownError
  | InvalidQueueMessageError
  | InvalidQueueCapacityError
  | InvalidOverflowStrategyError
  | QueueCapacityExceededError
  | TransientError string
  | PermanentError string
  | InvalidRetryOptionsError string
  | MessageDeadLetteredError nat classification exn
  | RetryInfrastructureError retry_stage nat classification exn exn
  | InsufficientInventoryError string
  | InvalidInventoryQuantityError jsval
  | InventoryProductNotFoundError string
  | OptimisticRetriesExhaustedError string nat
  | DatabaseUnavailableError "exn option"
  | InvalidLockTtlError
  | RedisLockUnavailableError lock_operation exn
  | InvalidLocalAccessPolicyError
  | InvalidWorkerConcurrencyError
  | WorkerPoolShutdownError
  | InvalidOrderCreatedEventError
  | OrderValidationError
  | ProductNotFoundError
  | OrderInsufficientInventoryError
  | IdempotencyKeyReusedError
  | IdempotentReplay order
  | UnknownExperimentError string "string list"

type_synonym 'a result = "exn + 'a"

definition type_error :: "string \<Rightarrow> exn" where
  "type_error m = ErrorObj ''TypeError'' m None"

definition range_error :: "string \<Rightarrow> exn" where
  "range_error m = ErrorObj ''RangeError'' m None"

definition plain_error :: "string \<Rightarrow> exn" where
  "plain_error m = ErrorObj ''Error'' m None"

definition is_error_object :: "exn \<Rightarrow> bool" where
  "is_error_object e = (case e of Thrown _ \<Rightarrow> False | _ \<Rightarrow> True)"

fun show_stage :: "retry_stage \<Rightarrow> string" where
  "show_stage RETRY_DELAY = ''RETRY_DELAY''"
| "show_stage DEAD_LETTER_PUBLICATION = ''DEAD_LETTER_PUBLICATION''"

fun show_lock_operation :: "lock_operation \<Rightarrow> string" where
  "show_lock_operation ACQUIRE = ''ACQUIRE''"
| "show_lock_operation RELEASE = ''RELEASE''"

subsection \<open>The \<open>name\<close>, \<open>message\<close> and \<open>code\<close> properties\<close>

fun exn_name :: "exn \<Rightarrow> string" where
  "exn_name (Thrown v) = []"
| "exn_name (ErrorObj n m c) = n"
| "exn_name QueueShutdownError = ''QueueShutdownError''"
| "exn_name InvalidQueueMessageError = ''InvalidQueueMessageError''"
| "exn_name InvalidQueueCapacityError = ''InvalidQueueCapacityError''"
| "exn_name InvalidOverflowStrategyError = ''InvalidOverflowStrategyError''"
| "exn_name QueueCapacityExceededError = ''QueueCapacityExceededError''"
| "exn_name (TransientError m) = ''TransientError''"
| "exn_name (PermanentError m) = ''PermanentError''"
| "exn_name (InvalidRetryOptionsError m) = ''InvalidRetryOptionsError''"
| "exn_name (MessageDeadLetteredError n c e) = ''MessageDeadLetteredError''"
| "exn_name (RetryInfrastructureError s n c p i) = ''RetryInfrastructureError''"
| "exn_name (InsufficientInventoryError p) = ''InsufficientInventoryError''"
| "exn_name (InvalidInventoryQuantityError q) = ''InvalidInventoryQuantityError''"
| "exn_name (InventoryProductNotFoundError p) = ''InventoryProductNotFoundError''"
| "exn_name (OptimisticRetriesExhaustedError p n) = ''OptimisticRetriesExhaustedError''"
| "exn_name (DatabaseUnavailableError c) = ''DatabaseUnavailableError''"
| "exn_name InvalidLockTtlError = ''InvalidLockTtlError''"
| "exn_name (RedisLockUnavailableError l c) = ''RedisLockUnavailableError''"
| "exn_name InvalidLocalAccessPolicyError = ''InvalidLocalAccessPolicyError''"
| "exn_name InvalidWorkerConcurrencyError = ''InvalidWorkerConcurrencyError''"
| "exn_name WorkerPoolShutdownError = ''WorkerPoolShutdownError''"
| "exn_name InvalidOrderCreatedEventError = ''InvalidOrderCreatedEventError''"
| "exn_name OrderValidationError = ''OrderValidationError''"
| "exn_name ProductNotFoundError = ''ProductNotFoundError''"
| "exn_name OrderInsufficientInventoryError = ''InsufficientInventoryError''"
| "exn_name IdempotencyKeyReusedError = ''IdempotencyKeyReusedError''"
| "exn_name (IdempotentReplay r) = ''Error''"
| "exn_name (UnknownExperimentError x a) = ''UnknownExperimentError''"

fun exn_message :: "exn \<Rightarrow> string" where
  "exn_message (Thrown v) = []"
| "exn_message (ErrorObj n m c) = m"
| "exn_message QueueShutdownError = ''Queue has shut down''"
| "exn_message InvalidQueueMessageError = ''Queue message must be an object''"
| "exn_message InvalidQueueCapacityError = ''Queue capacity must be a positive integer''"
| "exn_message InvalidOverflowStrategyError = ''Queue overflow strategy must be reject or wait''"
| "exn_message QueueCapacityExceededError = ''Queue capacity has been reached''"
| "exn_message (TransientError m) = m"
| "exn_message (PermanentError m) = m"
| "exn_message (InvalidRetryOptionsError m) = m"
| "exn_message (MessageDeadLetteredError n c e) =
     ''Message processing failed after '' @ show_nat n @ '' attempt'' @ (if n = 1 then [] else ''s'')"
| "exn_message (RetryInfrastructureError s n c p i) =
     ''Retry infrastructure failed during '' @ to_lower (show_stage s)"
| "exn_message (InsufficientInventoryError p) = ''Insufficient inventory''"
| "exn_message (InvalidInventoryQuantityError q) = ''Inventory quantity must be a positive integer''"
| "exn_message (InventoryProductNotFoundError p) = ''Inventory product not found''"
| "exn_message (OptimisticRetriesExhaustedError p n) = ''Optimistic inventory retries exhausted''"
| "exn_message (DatabaseUnavailableError c) = ''Database unavailable''"
| "exn_message InvalidLockTtlError = ''Lock TTL must be a positive integer''"
| "exn_message (RedisLockUnavailableError l c) =
     ''Redis lock '' @ to_lower (show_lock_operation l) @ '' failed''"
| "exn_message InvalidLocalAccessPolicyError = ''Invalid local access policy''"
| "exn_message InvalidWorkerConcurrencyError = ''Worker concurrency must be a positive integer''"
| "exn_message WorkerPoolShutdownError = ''Worker pool has shut down''"
| "exn_message InvalidOrderCreatedEventError = ''Invalid ORDER_CREATED event''"
| "exn_message OrderValidationError = ''Invalid order request''"
| "exn_message ProductNotFoundError = ''Product not found''"
| "exn_message OrderInsufficientInventoryError = ''Insufficient inventory''"
| "exn_message IdempotencyKeyReusedError = ''Idempotency key already used for a different request''"
| "exn_message (IdempotentReplay r) = ''Replay committed order after rolling back duplicate work''"
| "exn_message (UnknownExperimentError x a) = ''Unknown experiment: '' @ x"

fun exn_code :: "exn \<Rightarrow> string option" where
  "exn_code (Thrown v) = (case get_prop v ''code'' of JStr s \<Rightarrow> Some s | _ \<Rightarrow> None)"
| "exn_code (ErrorObj n m c) = c"
| "exn_code QueueShutdownError = Some ''QUEUE_SHUTDOWN''"
| "exn_code InvalidQueueMessageError = Some ''INVALID_QUEUE_MESSAGE''"
| "exn_code InvalidQueueCapacityError = Some ''INVALID_QUEUE_CAPACITY''"
| "exn_code InvalidOverflowStrategyError = Some ''INVALID_OVERFLOW_STRATEGY''"
| "exn_code QueueCapacityExceededError = Some ''QUEUE_CAPACITY_EXCEEDED''"
| "exn_code (TransientError m) = Some ''TRANSIENT_ERROR''"
| "exn_code (PermanentError m) = Some ''PERMANENT_ERROR''"
| "exn_code (InvalidRetryOptionsError m) = Some ''INVALID_RETRY_OPTIONS''"
| "exn_code (MessageDeadLetteredError n c e) = Some ''MESSAGE_DEAD_LETTERED''"
| "exn_code (RetryInfrastructureError s n c p i) = Some ''RETRY_INFRASTRUCTURE_ERROR''"
| "exn_code (InsufficientInventoryError p) = Some ''INSUFFICIENT_INVENTORY''"
| "exn_code (InvalidInventoryQuantityError q) = Some ''INVALID_INVENTORY_QUANTITY''"
| "exn_code (InventoryProductNotFoundError p) = Some ''INVENTORY_PRODUCT_NOT_FOUND''"
| "exn_code (OptimisticRetriesExhaustedError p n) = Some ''OPTIMISTIC_RETRIES_EXHAUSTED''"
| "exn_code (DatabaseUnavailableError c) = Some ''DATABASE_UNAVAILABLE''"
| "exn_code InvalidLockTtlError = Some ''INVALID_LOCK_TTL''"
| "exn_code (RedisLockUnavailableError l c) = Some ''REDIS_LOCK_UNAVAILABLE''"
| "exn_code InvalidLocalAccessPolicyError = Some ''INVALID_LOCAL_ACCESS_POLICY''"
| "exn_code InvalidWorkerConcurrencyError = Some ''INVALID_WORKER_CONCURRENCY''"
| "exn_code WorkerPoolShutdownError = Some ''WORKER_POOL_SHUTDOWN''"
| "exn_code InvalidOrderCreatedEventError = Some ''INVALID_ORDER_CREATED_EVENT''"
| "exn_code OrderValidationError = Some ''VALIDATION_ERROR''"
| "exn_code ProductNotFoundError = Some ''PRODUCT_NOT_FOUND''"
| "exn_code OrderInsufficientInventoryError = Some ''INSUFFICIENT_INVENTORY''"
| "exn_code IdempotencyKeyReusedError = Some ''IDEMPOTENCY_KEY_REUSED''"
| "exn_code (IdempotentReplay r) = None"
| "exn_code (UnknownExperimentError x a) = Some ''UNKNOWN_EXPERIMENT''"

text \<open>
  \<open>serializeError\<close>, which \<open>packages/retries\<close> and \<open>packages/observability\<close> both
  declare.  An empty \<open>code\<close> is falsy and left out.  \<open>String(value)\<close> of a value
  that is no \<open>Error\<close> is the parameter \<open>str\<close>.
\<close>

record serialized_error =
  se_name :: string
  se_message :: string
  se_code :: "string option"

definition serializeError :: "(jsval \<Rightarrow> string) \<Rightarrow> exn \<Rightarrow> serialized_error" where
  "serializeError str e = (case e of
      Thrown v \<Rightarrow> \<lparr>se_name = ''NonErrorThrown'', se_message = str v, se_code = None\<rparr>
    | _ \<Rightarrow> \<lparr>se_name = exn_name e, se_message = exn_message e,
            se_code = (if exn_code e = Some [] then None else exn_code e)\<rparr>)"

section \<open>Copies\<close>

text \<open>\<open>structuredClone\<close> copies a value and throws on a function anywhere inside it.\<close>

fun has_function :: "jsval \<Rightarrow> bool" where
  "has_function JFun = True"
| "has_function (JArr vs) = (\<exists>v\<in>set vs. has_function v)"
| "has_function (JObj fs) = (\<exists>p\<in>set fs. has_function (snd p))"
| "has_function _ = False"

definition structuredClone :: "jsval \<Rightarrow> jsval result" where
  "structuredClone v = (if has_function v then Inl (ErrorObj ''DataCloneError'' [] None) else Inr v)"

section \<open>Availability of the database (\<open>packages/database/src/errors.js\<close>)\<close>

definition NODE_CONNECTION_CODES :: "string list" where
  "NODE_CONNECTION_CODES =
     [''EAI_AGAIN'', ''ECONNREFUSED'', ''ECONNRESET'', ''EHOSTUNREACH'',
      ''ENETUNREACH'', ''ENOTFOUND'', ''EPIPE'', ''ETIMEDOUT'']"

definition isDatabaseUnavailable :: "exn \<Rightarrow> bool" where
  "isDatabaseUnavailable e = (case exn_code e of
      None \<Rightarrow> False
    | Some c \<Rightarrow> c \<in> set NODE_CONNECTION_CODES \<or> take 2 c = ''08''
        \<or> c \<in> set [''57P01'', ''57P02'', ''57P03''])"

text \<open>The wrapper itself is never classified again, so it is wrapped at most once.\<close>

lemma isDatabaseUnavailable_wrapper [simp]: "\<not> isDatabaseUnavailable (DatabaseUnavailableError c)"
  by (simp add: isDatabaseUnavailable_def NODE_CONNECTION_CODES_def)

end
