(* ===== verification/Interfaces.thy ===== *)
theory Interfaces
  imports Errors
begin

text \<open>
  Contracts between components, as locales over the operations a client calls.
  Each locale is interpreted on the code's own definitions in the theory of the
  component that provides them.

  \<open>message_sink\<close> is what the event publisher and the retry policy rely on when they
  call \<open>queue.publish\<close>.
\<close>

section \<open>Publishing a message\<close>

text \<open>The outcome of a \<open>publish\<close> call when it returns control: a resolved promise, a
  rejected one, or a promise that is still pending.\<close>

datatype publish_outcome = PubResolved | PubRejected exn | PubWaiting

definition accepted :: "publish_outcome \<Rightarrow> bool" where
  "accepted r = (case r of PubRejected _ \<Rightarrow> False | _ \<Rightarrow> True)"

lemma accepted_simps [simp]:
  "accepted PubResolved" "accepted PubWaiting" "\<not> accepted (PubRejected e)"
  by (simp_all add: accepted_def)

locale message_sink =
  fixes send :: "nat \<Rightarrow> jsval \<Rightarrow> 'q \<Rightarrow> 'q \<times> publish_outcome"
    and contents :: "'q \<Rightarrow> jsval list"
    and sink_inv :: "'q \<Rightarrow> bool"
  assumes send_accepted: "sink_inv q \<Longrightarrow> accepted (snd (send pid m q)) \<Longrightarrow>
      contents (fst (send pid m q)) = contents q @ [m]"
    and send_rejected: "sink_inv q \<Longrightarrow> \<not> accepted (snd (send pid m q)) \<Longrightarrow> fst (send pid m q) = q"
    and send_inv: "sink_inv q \<Longrightarrow> sink_inv (fst (send pid m q))"
begin

text \<open>Calling \<open>send\<close> for a list of messages in order, as a caller in a loop does.\<close>

fun send_all :: "(nat \<times> jsval) list \<Rightarrow> 'q \<Rightarrow> 'q \<times> publish_outcome list" where
  "send_all [] q = (q, [])"
| "send_all ((pid, m) # ms) q =
     (let (q1, r) = send pid m q; (q2, rs) = send_all ms q1 in (q2, r # rs))"

lemma send_all_inv: "sink_inv q \<Longrightarrow> sink_inv (fst (send_all ms q))"
proof (induction ms q rule: send_all.induct)
  case (2 pid m ms q)
  then show ?case using send_inv [OF "2.prems", of pid m] by (auto split: prod.splits)
qed simp

lemma send_all_length: "length (snd (send_all ms q)) = length ms"
  by (induction ms q rule: send_all.induct) (auto split: prod.splits)

text \<open>A sink stores exactly the accepted messages, in the order of the calls.\<close>

lemma send_all_contents:
  "sink_inv q \<Longrightarrow> contents (fst (send_all ms q))
     = contents q @ map snd (map fst (filter (\<lambda>(p, r). accepted r) (zip ms (snd (send_all ms q)))))"
proof (induction ms q rule: send_all.induct)
  case (2 pid m ms q)
  obtain q1 r where r: "send pid m q = (q1, r)" by force
  obtain q2 rs where rs: "send_all ms q1 = (q2, rs)" by force
  have "contents q1 = contents q @ (if accepted r then [m] else [])"
    using send_accepted [OF "2.prems", of pid m] send_rejected [OF "2.prems", of pid m] r by auto
  then show ?case
    using "2.IH" [OF r [symmetric] refl] send_inv [OF "2.prems", of pid m] r rs by auto
qed simp

lemma send_contents_cases:
  "sink_inv q \<Longrightarrow> contents (fst (send pid m q))
     = contents q @ (if accepted (snd (send pid m q)) then [m] else [])"
  using send_accepted send_rejected by auto

end

end
