(* ===== verification/Message_Queue.thy ===== *)
theory Message_Queue
  imports Interfaces
begin

text \<open>
  The local queue of \<open>packages/queue/src/index.js\<close>.  The record holds the
  variables that \<open>createInMemoryQueue\<close> closes over; the single consumer coroutine
  (\<open>runConsumer\<close> with its inner \<open>nextMessage\<close>) is a program counter that names
  the \<open>await\<close> it is suspended at.  One step is the code that runs between two
  suspension points, so a list of events is one interleaving of publishers, the
  consumer, its handler and \<open>shutdown\<close> on the event loop.
\<close>

section \<open>State\<close>

datatype overflow_strategy = Reject | Wait

text \<open>
  \<open>AwaitWake\<close>: suspended on the promise whose \<open>resolve\<close> is \<open>wakeConsumer\<close>.
  \<open>Woken\<close>: that promise is resolved, the loop of \<open>nextMessage\<close> runs next.
  \<open>Fetched r\<close>: \<open>nextMessage\<close> returned \<open>r\<close>, \<open>runConsumer\<close> runs next.
  \<open>Handling m\<close>: suspended on \<open>handler(m)\<close>.
  \<open>Settling e\<close>: \<open>runConsumer\<close> returned or threw \<open>e\<close>, its \<open>finally\<close> runs next.
\<close>

datatype consumer_pc =
    NoConsumer
  | AwaitWake
  | Woken
  | Fetched "jsval option"
  | Handling jsval
  | Settling "exn option"

record queue =
  mq_capacity :: "nat option"
  mq_overflow :: overflow_strategy
  mq_messages :: "jsval list"
  mq_waiting :: "(nat \<times> jsval) list"
  mq_accepting :: bool
  mq_active :: "nat option"
  mq_wake :: bool
  mq_consumer :: consumer_pc
  mq_shutdowns :: "nat list"

text \<open>An absent option is \<open>undefined\<close> and takes its default; capacity \<open>None\<close> is \<open>Infinity\<close>.\<close>

definition createInMemoryQueue :: "jsval \<Rightarrow> jsval \<Rightarrow> queue result" where
  "createInMemoryQueue capacityOption overflowOption =
     (let capacity = (if capacityOption = JUndefined then JNum PosInfinity else capacityOption);
          overflowStrategy = (if overflowOption = JUndefined then JStr ''reject'' else overflowOption)
      in if capacity \<noteq> JNum PosInfinity \<and> \<not> is_positive_integer capacity
         then Inl InvalidQueueCapacityError
         else if overflowStrategy \<noteq> JStr ''reject'' \<and> overflowStrategy \<noteq> JStr ''wait''
         then Inl InvalidOverflowStrategyError
         else Inr \<lparr>mq_capacity = (if capacity = JNum PosInfinity then None
                                  else Some (nat (int_of_js capacity))),
                   mq_overflow = (if overflowStrategy = JStr ''wait'' then Wait else Reject),
                   mq_messages = [], mq_waiting = [], mq_accepting = True, mq_active = None,
                   mq_wake = False, mq_consumer = NoConsumer, mq_shutdowns = []\<rparr>)"

section \<open>Operations\<close>

definition full :: "queue \<Rightarrow> bool" where
  "full q = (case mq_capacity q of None \<Rightarrow> False | Some c \<Rightarrow> c \<le> length (mq_messages q))"

definition wake :: "queue \<Rightarrow> queue" where
  "wake q = (if mq_wake q then q\<lparr>mq_wake := False, mq_consumer := Woken\<rparr> else q)"

text \<open>The loop of \<open>admitWaitingPublishers\<close>, with the publishers it resolves in order.\<close>

function admitWaitingPublishers :: "queue \<Rightarrow> queue \<times> nat list" where
  "admitWaitingPublishers q =
     (if mq_accepting q \<and> \<not> full q \<and> mq_waiting q \<noteq> [] then
        (let publisher = hd (mq_waiting q);
             rest = admitWaitingPublishers
               (wake (q\<lparr>mq_waiting := tl (mq_waiting q),
                        mq_messages := mq_messages q @ [snd publisher]\<rparr>))
         in (fst rest, fst publisher # snd rest))
      else (q, []))"
  by pat_completeness auto
termination
  by (relation "measure (\<lambda>q. length (mq_waiting q))") (auto simp: wake_def neq_Nil_conv)

declare admitWaitingPublishers.simps [simp del]

text \<open>One pass over the guard of the loop in \<open>nextMessage\<close>.\<close>

definition nextMessage :: "queue \<Rightarrow> queue" where
  "nextMessage q =
     (if mq_accepting q \<and> mq_messages q = []
      then q\<lparr>mq_wake := True, mq_consumer := AwaitWake\<rparr>
      else q\<lparr>mq_consumer := Fetched (if mq_accepting q then Some (hd (mq_messages q)) else None)\<rparr>)"

text \<open>The guard of the loop in \<open>runConsumer\<close>, up to the \<open>await\<close> inside \<open>nextMessage\<close>.\<close>

definition runConsumer :: "queue \<Rightarrow> queue" where
  "runConsumer q = (if mq_accepting q then nextMessage q else q\<lparr>mq_consumer := Settling None\<rparr>)"

definition publish :: "nat \<Rightarrow> jsval \<Rightarrow> queue \<Rightarrow> queue \<times> publish_outcome" where
  "publish pid m q =
     (if \<not> mq_accepting q then (q, PubRejected QueueShutdownError)
      else if \<not> is_plain_object m then (q, PubRejected InvalidQueueMessageError)
      else if full q then
        (case mq_overflow q of
           Reject \<Rightarrow> (q, PubRejected QueueCapacityExceededError)
         | Wait \<Rightarrow> (q\<lparr>mq_waiting := mq_waiting q @ [(pid, m)]\<rparr>, PubWaiting))
      else (wake (q\<lparr>mq_messages := mq_messages q @ [m]\<rparr>), PubResolved))"

definition consume :: "nat \<Rightarrow> queue \<Rightarrow> queue \<times> exn option" where
  "consume cid q =
     (if \<not> mq_accepting q then (q, Some QueueShutdownError)
      else if mq_active q \<noteq> None then (q, Some (plain_error ''Queue already has an active consumer''))
      else ((runConsumer q)\<lparr>mq_active := Some cid\<rparr>, None))"

record queue_metrics =
  qm_capacity :: "nat option"
  qm_queueDepth :: nat
  qm_waitingPublishers :: nat

definition getMetrics :: "queue \<Rightarrow> queue_metrics" where
  "getMetrics q = \<lparr>qm_capacity = mq_capacity q, qm_queueDepth = length (mq_messages q),
                   qm_waitingPublishers = length (mq_waiting q)\<rparr>"

text \<open>
  \<open>shutdown\<close> up to its \<open>await\<close>: the publishers it rejects, and whether it returns
  at once because there is no consumer to wait for.
\<close>

definition shutdown :: "nat \<Rightarrow> queue \<Rightarrow> queue \<times> nat list \<times> bool" where
  "shutdown sid q =
     (let q1 = wake (q\<lparr>mq_accepting := False\<rparr>);
          q2 = q1\<lparr>mq_waiting := []\<rparr>
      in if mq_active q2 = None then (q2, map fst (mq_waiting q), True)
         else (q2\<lparr>mq_shutdowns := mq_shutdowns q2 @ [sid]\<rparr>, map fst (mq_waiting q), False))"

section \<open>Steps\<close>

datatype queue_event =
    Publish nat jsval
  | Consume nat
  | ConsumerResume
  | ConsumerReceive
  | HandlerResolves
  | HandlerRejects exn
  | ConsumerSettle
  | Shutdown nat

datatype queue_out =
    PublishResolved nat
  | PublishRejected nat exn
  | HandlerCalled jsval
  | ConsumeResolved nat
  | ConsumeRejected nat exn
  | ShutdownResolved nat

definition publish_outs :: "nat \<Rightarrow> publish_outcome \<Rightarrow> queue_out list" where
  "publish_outs pid r = (case r of
      PubResolved \<Rightarrow> [PublishResolved pid] | PubRejected e \<Rightarrow> [PublishRejected pid e]
    | PubWaiting \<Rightarrow> [])"

text \<open>After \<open>await nextMessage()\<close>: shutdown is checked again before the handler is called.\<close>

definition receive :: "jsval option \<Rightarrow> queue \<Rightarrow> queue \<times> queue_out list" where
  "receive r q = (case r of
      None \<Rightarrow> (q\<lparr>mq_consumer := Settling None\<rparr>, [])
    | Some m \<Rightarrow> if \<not> mq_accepting q then (q\<lparr>mq_consumer := Settling None\<rparr>, [])
                else (q\<lparr>mq_consumer := Handling m\<rparr>, [HandlerCalled m]))"

text \<open>After \<open>await handler(message)\<close> resolved: acknowledge, admit, loop.\<close>

definition acknowledge :: "queue \<Rightarrow> queue \<times> queue_out list" where
  "acknowledge q =
     (let (q', pids) = admitWaitingPublishers (q\<lparr>mq_messages := tl (mq_messages q)\<rparr>)
      in (runConsumer q', map PublishResolved pids))"

definition settle :: "exn option \<Rightarrow> queue \<Rightarrow> queue \<times> queue_out list" where
  "settle r q =
     (q\<lparr>mq_active := None, mq_consumer := NoConsumer, mq_shutdowns := []\<rparr>,
      (case mq_active q of
         None \<Rightarrow> []
       | Some cid \<Rightarrow> [case r of None \<Rightarrow> ConsumeResolved cid | Some e \<Rightarrow> ConsumeRejected cid e])
      @ map ShutdownResolved (mq_shutdowns q))"

text \<open>An event that the state does not enable (a coroutine that is not there) is \<open>None\<close>.\<close>

fun queue_step :: "queue \<Rightarrow> queue_event \<Rightarrow> (queue \<times> queue_out list) option" where
  "queue_step q (Publish pid m) =
     (let (q', r) = publish pid m q in Some (q', publish_outs pid r))"
| "queue_step q (Consume cid) =
     (let (q', r) = consume cid q
      in Some (q', case r of None \<Rightarrow> [] | Some e \<Rightarrow> [ConsumeRejected cid e]))"
| "queue_step q ConsumerResume =
     (if mq_consumer q = Woken then Some (nextMessage q, []) else None)"
| "queue_step q ConsumerReceive =
     (case mq_consumer q of Fetched r \<Rightarrow> Some (receive r q) | _ \<Rightarrow> None)"
| "queue_step q HandlerResolves =
     (case mq_consumer q of Handling m \<Rightarrow> Some (acknowledge q) | _ \<Rightarrow> None)"
| "queue_step q (HandlerRejects e) =
     (case mq_consumer q of
        Handling m \<Rightarrow> Some (q\<lparr>mq_consumer := Settling (Some e)\<rparr>, []) | _ \<Rightarrow> None)"
| "queue_step q ConsumerSettle =
     (case mq_consumer q of Settling r \<Rightarrow> Some (settle r q) | _ \<Rightarrow> None)"
| "queue_step q (Shutdown sid) =
     (let (q', pids, done) = shutdown sid q
      in Some (q', map (\<lambda>p. PublishRejected p QueueShutdownError) pids
                   @ (if done then [ShutdownResolved sid] else [])))"

text \<open>A run of a list of events, with all its outputs; it ends at an event that is not enabled.\<close>

fun queue_exec :: "queue \<Rightarrow> queue_event list \<Rightarrow> (queue \<times> queue_out list) option" where
  "queue_exec q [] = Some (q, [])"
| "queue_exec q (e # es) = (case queue_step q e of None \<Rightarrow> None
     | Some (q', os) \<Rightarrow> (case queue_exec q' es of None \<Rightarrow> None
         | Some (q'', os') \<Rightarrow> Some (q'', os @ os')))"

text \<open>The states that some interleaving reaches from a freshly constructed queue.\<close>

inductive queue_reachable :: "queue \<Rightarrow> bool" where
  created: "createInMemoryQueue capacity strategy = Inr q \<Longrightarrow> queue_reachable q"
| stepped: "queue_reachable q \<Longrightarrow> queue_step q e = Some (q', os) \<Longrightarrow> queue_reachable q'"

section \<open>The queue invariant\<close>

definition queue_inv :: "queue \<Rightarrow> bool" where
  "queue_inv q \<longleftrightarrow>
     (\<forall>c. mq_capacity q = Some c \<longrightarrow> 0 < c \<and> length (mq_messages q) \<le> c)
   \<and> (mq_waiting q \<noteq> [] \<longrightarrow> mq_accepting q \<and> full q \<and> mq_overflow q = Wait)
   \<and> (mq_wake q \<longleftrightarrow> mq_consumer q = AwaitWake)
   \<and> (mq_active q = None \<longleftrightarrow> mq_consumer q = NoConsumer)
   \<and> (mq_shutdowns q \<noteq> [] \<longrightarrow> \<not> mq_accepting q \<and> mq_active q \<noteq> None)
   \<and> (mq_consumer q = AwaitWake \<longrightarrow> mq_accepting q \<and> mq_messages q = [])
   \<and> (mq_consumer q = Fetched None \<longrightarrow> \<not> mq_accepting q)
   \<and> (\<forall>m. mq_consumer q = Fetched (Some m) \<or> mq_consumer q = Handling m
        \<longrightarrow> (\<exists>ms. mq_messages q = m # ms))
   \<and> (\<forall>m\<in>set (mq_messages q). is_plain_object m)
   \<and> (\<forall>p\<in>set (mq_waiting q). is_plain_object (snd p))"

subsection \<open>The admission loop\<close>

lemma full_iff: "full q \<longleftrightarrow> (\<exists>c. mq_capacity q = Some c \<and> c \<le> length (mq_messages q))"
  by (auto simp: full_def split: option.splits)

lemma wake_idle [simp]: "\<not> mq_wake q \<Longrightarrow> wake q = q"
  by (simp add: wake_def)

lemma wake_fields [simp]:
  "mq_capacity (wake q) = mq_capacity q" "mq_overflow (wake q) = mq_overflow q"
  "mq_messages (wake q) = mq_messages q" "mq_waiting (wake q) = mq_waiting q"
  "mq_accepting (wake q) = mq_accepting q" "mq_active (wake q) = mq_active q"
  "mq_shutdowns (wake q) = mq_shutdowns q" "\<not> mq_wake (wake q)"
  by (simp_all add: wake_def)

lemma mq_consumer_wake: "mq_consumer (wake q) = (if mq_wake q then Woken else mq_consumer q)"
  by (simp add: wake_def)

text \<open>
  With the consumer not asleep, the loop moves a prefix of the waiting publishers to
  the tail of the messages and stops at a full queue or an empty waiting list.
\<close>

lemma admitWaitingPublishers_prefix:
  assumes "\<not> mq_wake q"
  shows "\<exists>k. admitWaitingPublishers q =
      (q\<lparr>mq_messages := mq_messages q @ map snd (take k (mq_waiting q)),
         mq_waiting := drop k (mq_waiting q)\<rparr>, map fst (take k (mq_waiting q)))"
  using assms
proof (induction q rule: admitWaitingPublishers.induct)
  case (1 q)
  show ?case
  proof (cases "mq_accepting q \<and> \<not> full q \<and> mq_waiting q \<noteq> []")
    case True
    obtain pid m ws where ws: "mq_waiting q = (pid, m) # ws"
      using True by (metis list.exhaust surj_pair)
    let ?q1 = "q\<lparr>mq_waiting := ws, mq_messages := mq_messages q @ [m]\<rparr>"
    have idle: "wake ?q1 = ?q1" using "1.prems" by simp
    have "\<exists>k. admitWaitingPublishers ?q1 =
        (?q1\<lparr>mq_messages := mq_messages ?q1 @ map snd (take k (mq_waiting ?q1)),
            mq_waiting := drop k (mq_waiting ?q1)\<rparr>, map fst (take k (mq_waiting ?q1)))"
      using "1.IH"[OF True refl] "1.prems" ws idle by simp
    then obtain k where
      "admitWaitingPublishers ?q1 =
        (?q1\<lparr>mq_messages := mq_messages ?q1 @ map snd (take k (mq_waiting ?q1)),
            mq_waiting := drop k (mq_waiting ?q1)\<rparr>, map fst (take k (mq_waiting ?q1)))"
      ..
    then have "admitWaitingPublishers q =
      (q\<lparr>mq_messages := mq_messages q @ map snd (take (Suc k) (mq_waiting q)),
         mq_waiting := drop (Suc k) (mq_waiting q)\<rparr>, map fst (take (Suc k) (mq_waiting q)))"
      using True ws idle by (simp add: admitWaitingPublishers.simps [of q])
    then show ?thesis by blast
  next
    case False
    then have "admitWaitingPublishers q = (q, [])"
      by (auto simp: admitWaitingPublishers.simps [of q])
    then show ?thesis by (intro exI [of _ 0]) simp
  qed
qed

lemma admitWaitingPublishers_stops:
  "\<not> mq_accepting (fst (admitWaitingPublishers q)) \<or> full (fst (admitWaitingPublishers q))
   \<or> mq_waiting (fst (admitWaitingPublishers q)) = []"
proof (induction q rule: admitWaitingPublishers.induct)
  case (1 q)
  show ?case
  proof (cases "mq_accepting q \<and> \<not> full q \<and> mq_waiting q \<noteq> []")
    case True
    then show ?thesis
      using "1.IH"[OF True refl] by (simp add: admitWaitingPublishers.simps [of q] Let_def)
  next
    case False
    then show ?thesis by (auto simp: admitWaitingPublishers.simps [of q])
  qed
qed

lemma admitWaitingPublishers_capacity:
  "mq_capacity q = Some c \<Longrightarrow> length (mq_messages q) \<le> c \<Longrightarrow>
   length (mq_messages (fst (admitWaitingPublishers q))) \<le> c"
proof (induction q rule: admitWaitingPublishers.induct)
  case (1 q)
  show ?case
  proof (cases "mq_accepting q \<and> \<not> full q \<and> mq_waiting q \<noteq> []")
    case True
    then show ?thesis
      using "1.IH"[OF True refl] "1.prems"
      by (simp add: admitWaitingPublishers.simps [of q] full_iff Let_def)
  next
    case False
    then show ?thesis using "1.prems" by (auto simp: admitWaitingPublishers.simps [of q])
  qed
qed

text \<open>The three facts as one elimination rule, the way the proofs below use them.\<close>

lemma admitWaitingPublishersE:
  assumes "\<not> mq_wake q"
  obtains k where
    "admitWaitingPublishers q =
      (q\<lparr>mq_messages := mq_messages q @ map snd (take k (mq_waiting q)),
         mq_waiting := drop k (mq_waiting q)\<rparr>, map fst (take k (mq_waiting q)))"
    and "mq_accepting q \<Longrightarrow> drop k (mq_waiting q) \<noteq> [] \<Longrightarrow>
         \<exists>c. mq_capacity q = Some c \<and> c \<le> length (mq_messages q @ map snd (take k (mq_waiting q)))"
    and "\<And>c. mq_capacity q = Some c \<Longrightarrow> length (mq_messages q) \<le> c \<Longrightarrow>
         length (mq_messages q @ map snd (take k (mq_waiting q))) \<le> c"
proof -
  obtain k where k: "admitWaitingPublishers q =
      (q\<lparr>mq_messages := mq_messages q @ map snd (take k (mq_waiting q)),
         mq_waiting := drop k (mq_waiting q)\<rparr>, map fst (take k (mq_waiting q)))"
    using admitWaitingPublishers_prefix [OF assms] by blast
  show thesis
  proof (rule that [OF k])
    show "\<exists>c. mq_capacity q = Some c \<and>
        c \<le> length (mq_messages q @ map snd (take k (mq_waiting q)))"
      if "mq_accepting q" "drop k (mq_waiting q) \<noteq> []"
      using admitWaitingPublishers_stops [of q] that k by (auto simp: full_iff)
    show "length (mq_messages q @ map snd (take k (mq_waiting q))) \<le> c"
      if "mq_capacity q = Some c" "length (mq_messages q) \<le> c" for c
      using admitWaitingPublishers_capacity [OF that] k by simp
  qed
qed

subsection \<open>Every step keeps the invariant\<close>

lemma queue_inv_created [inv_intros]:
  "createInMemoryQueue capacity strategy = Inr q \<Longrightarrow> queue_inv q"
  by (auto simp: createInMemoryQueue_def Let_def queue_inv_def
      elim!: is_positive_integerE split: if_splits)

lemma queue_inv_runConsumer:
  assumes "queue_inv (q\<lparr>mq_active := Some cid, mq_consumer := Woken\<rparr>)" and "\<not> mq_wake q"
  shows "queue_inv ((runConsumer q)\<lparr>mq_active := Some cid\<rparr>)"
  using assms
  by (auto simp: queue_inv_def runConsumer_def nextMessage_def full_iff neq_Nil_conv
      split: option.splits)

lemma queue_inv_publish [inv_intros]:
  assumes "queue_inv q"
  shows "queue_inv (fst (publish pid m q))"
  using assms
  by (auto simp: publish_def queue_inv_def full_iff mq_consumer_wake
      split: option.splits overflow_strategy.splits consumer_pc.splits)

lemma queue_inv_consume [inv_intros]:
  assumes "queue_inv q"
  shows "queue_inv (fst (consume cid q))"
proof (cases "mq_accepting q \<and> mq_active q = None")
  case True
  then have "queue_inv (q\<lparr>mq_active := Some cid, mq_consumer := Woken\<rparr>)" and "\<not> mq_wake q"
    using assms by (auto simp: queue_inv_def full_iff)
  then show ?thesis using True by (simp add: consume_def queue_inv_runConsumer)
next
  case False
  then show ?thesis using assms by (auto simp: consume_def)
qed

lemma queue_inv_acknowledge [inv_intros]:
  assumes inv: "queue_inv q" and pc: "mq_consumer q = Handling m"
  shows "queue_inv (fst (acknowledge q))"
proof -
  obtain cid where cid: "mq_active q = Some cid"
    using inv pc by (auto simp: queue_inv_def)
  have sleep: "\<not> mq_wake (q\<lparr>mq_messages := tl (mq_messages q)\<rparr>)"
    using inv pc by (auto simp: queue_inv_def)
  obtain k where
    adm: "admitWaitingPublishers (q\<lparr>mq_messages := tl (mq_messages q)\<rparr>) =
      (q\<lparr>mq_messages := tl (mq_messages q) @ map snd (take k (mq_waiting q)),
         mq_waiting := drop k (mq_waiting q)\<rparr>, map fst (take k (mq_waiting q)))"
    and stop: "mq_accepting q \<Longrightarrow> drop k (mq_waiting q) \<noteq> [] \<Longrightarrow> \<exists>c. mq_capacity q = Some c
         \<and> c \<le> length (tl (mq_messages q) @ map snd (take k (mq_waiting q)))"
    and cap: "\<And>c. mq_capacity q = Some c \<Longrightarrow> length (tl (mq_messages q)) \<le> c \<Longrightarrow>
         length (tl (mq_messages q) @ map snd (take k (mq_waiting q))) \<le> c"
    using admitWaitingPublishersE [OF sleep] by auto
  let ?q' = "q\<lparr>mq_messages := tl (mq_messages q) @ map snd (take k (mq_waiting q)),
         mq_waiting := drop k (mq_waiting q)\<rparr>"
  have bound: "0 < c \<and> length (mq_messages ?q') \<le> c" if "mq_capacity q = Some c" for c
    using cap [OF that] inv that by (fastforce simp: queue_inv_def)
  have waiting: "mq_accepting q \<and> full ?q' \<and> mq_overflow q = Wait" if "drop k (mq_waiting q) \<noteq> []"
    using inv stop [OF _ that] that by (auto simp: queue_inv_def full_iff)
  have objs: "\<forall>m\<in>set (mq_messages ?q'). is_plain_object m"
    using inv by (auto simp: queue_inv_def dest!: in_set_takeD in_set_tlD)
  have objs': "\<forall>p\<in>set (drop k (mq_waiting q)). is_plain_object (snd p)"
    using inv by (auto simp: queue_inv_def dest!: in_set_dropD)
  have "queue_inv (?q'\<lparr>mq_active := Some cid, mq_consumer := Woken\<rparr>)"
    using inv pc bound waiting objs objs' by (simp add: queue_inv_def full_iff)
  moreover have "(runConsumer ?q')\<lparr>mq_active := Some cid\<rparr> = runConsumer ?q'"
    using cid by (simp add: runConsumer_def nextMessage_def)
  ultimately show ?thesis
    using queue_inv_runConsumer [where q = ?q' and cid = cid] sleep adm by (simp add: acknowledge_def)
qed

lemma queue_inv_shutdown [inv_intros]:
  assumes "queue_inv q"
  shows "queue_inv (fst (shutdown sid q))"
  using assms
  by (auto simp: shutdown_def Let_def queue_inv_def full_iff mq_consumer_wake
      split: option.splits consumer_pc.splits)

lemma queue_step_inv [inv_intros]:
  assumes "queue_step q e = Some (q', os)" and "queue_inv q"
  shows "queue_inv q'"
proof (cases e)
  case (Publish pid m)
  then show ?thesis
    using assms queue_inv_publish [of q pid m] by (auto split: prod.splits)
next
  case (Consume cid)
  then show ?thesis
    using assms queue_inv_consume [of q cid] by (auto split: prod.splits)
next
  case ConsumerResume
  then show ?thesis
    using assms by (auto simp: queue_inv_def nextMessage_def full_iff neq_Nil_conv
        split: if_splits option.splits)
next
  case ConsumerReceive
  then show ?thesis
    using assms by (auto simp: queue_inv_def receive_def full_iff
        split: consumer_pc.splits option.splits if_splits)
next
  case HandlerResolves
  then show ?thesis
    using assms queue_inv_acknowledge [of q] by (auto split: consumer_pc.splits)
next
  case (HandlerRejects x)
  then show ?thesis
    using assms by (auto simp: queue_inv_def full_iff split: consumer_pc.splits option.splits)
next
  case ConsumerSettle
  then show ?thesis
    using assms by (auto simp: queue_inv_def settle_def full_iff
        split: consumer_pc.splits option.splits)
next
  case (Shutdown sid)
  then show ?thesis
    using assms queue_inv_shutdown [of q sid] by (auto split: prod.splits)
qed

lemma queue_reachable_inv: "queue_reachable q \<Longrightarrow> queue_inv q"
  by (induction rule: queue_reachable.induct) (auto intro: queue_inv_created queue_step_inv)

lemma queue_exec_inv: "queue_exec q es = Some (q', os) \<Longrightarrow> queue_inv q \<Longrightarrow> queue_inv q'"
  by (induction es arbitrary: q os) (auto split: option.splits, blast intro: queue_step_inv)

lemma queue_exec_reachable:
  "queue_exec q es = Some (q', os) \<Longrightarrow> queue_reachable q \<Longrightarrow> queue_reachable q'"
  by (induction es arbitrary: q os) (auto split: option.splits, blast intro: queue_reachable.stepped)

section \<open>Order of messages\<close>

text \<open>
  The publications of a run that were not rejected at once, in the order of the
  calls, and the messages that the consumer removed, in the order of removal.
\<close>

definition submission :: "queue \<Rightarrow> queue_event \<Rightarrow> jsval list" where
  "submission q e = (case e of
      Publish pid m \<Rightarrow> (case snd (publish pid m q) of PubRejected _ \<Rightarrow> [] | _ \<Rightarrow> [m])
    | _ \<Rightarrow> [])"

definition removal :: "queue \<Rightarrow> queue_event \<Rightarrow> jsval list" where
  "removal q e = (case e of HandlerResolves \<Rightarrow> take 1 (mq_messages q) | _ \<Rightarrow> [])"

fun submitted :: "queue \<Rightarrow> queue_event list \<Rightarrow> jsval list" where
  "submitted q [] = []"
| "submitted q (e # es) = submission q e
     @ (case queue_step q e of None \<Rightarrow> [] | Some (q', os) \<Rightarrow> submitted q' es)"

fun acknowledged :: "queue \<Rightarrow> queue_event list \<Rightarrow> jsval list" where
  "acknowledged q [] = []"
| "acknowledged q (e # es) = removal q e
     @ (case queue_step q e of None \<Rightarrow> [] | Some (q', os) \<Rightarrow> acknowledged q' es)"

text \<open>What the queue still has to deliver: the buffer, then the paused publishers.\<close>

definition backlog :: "queue \<Rightarrow> jsval list" where
  "backlog q = mq_messages q @ map snd (mq_waiting q)"

lemma runConsumer_contents [simp]:
  "mq_messages (runConsumer q) = mq_messages q" "mq_waiting (runConsumer q) = mq_waiting q"
  "mq_accepting (runConsumer q) = mq_accepting q" "mq_capacity (runConsumer q) = mq_capacity q"
  "mq_shutdowns (runConsumer q) = mq_shutdowns q" "mq_active (runConsumer q) = mq_active q"
  by (simp_all add: runConsumer_def nextMessage_def)

lemma backlog_acknowledge:
  assumes "queue_inv q" and "mq_consumer q = Handling m"
  shows "m # backlog (fst (acknowledge q)) = backlog q"
    and "mq_accepting (fst (acknowledge q)) = mq_accepting q"
proof -
  obtain ms where ms: "mq_messages q = m # ms"
    using assms by (auto simp: queue_inv_def)
  have "\<not> mq_wake (q\<lparr>mq_messages := tl (mq_messages q)\<rparr>)"
    using assms by (auto simp: queue_inv_def)
  from admitWaitingPublishers_prefix [OF this] obtain k where
    "admitWaitingPublishers (q\<lparr>mq_messages := tl (mq_messages q)\<rparr>) =
      (q\<lparr>mq_messages := tl (mq_messages q) @ map snd (take k (mq_waiting q)),
         mq_waiting := drop k (mq_waiting q)\<rparr>, map fst (take k (mq_waiting q)))"
    by auto
  then show "m # backlog (fst (acknowledge q)) = backlog q"
    and "mq_accepting (fst (acknowledge q)) = mq_accepting q"
    using ms by (simp_all add: acknowledge_def backlog_def flip: map_append)
qed

text \<open>One step: the backlog grows at its tail by the submission and shrinks at its head
  by the removal; shutdown cuts the paused publishers off.\<close>

lemma queue_step_backlog:
  assumes inv: "queue_inv q" and step: "queue_step q e = Some (q', os)"
  shows "mq_accepting q' \<Longrightarrow> backlog q @ submission q e = removal q e @ backlog q'"
    and "\<not> mq_accepting q' \<Longrightarrow> mq_waiting q' = []
      \<and> (\<exists>cut. backlog q @ submission q e = removal q e @ backlog q' @ cut)"
    and "mq_accepting q' \<Longrightarrow> mq_accepting q"
proof -
  have inv': "queue_inv q'" using queue_step_inv [OF step inv] .
  have "(mq_accepting q' \<longrightarrow> backlog q @ submission q e = removal q e @ backlog q')
      \<and> (\<not> mq_accepting q' \<longrightarrow>
           (\<exists>cut. backlog q @ submission q e = removal q e @ backlog q' @ cut))
      \<and> (mq_accepting q' \<longrightarrow> mq_accepting q)"
  proof (cases e)
    case (Publish pid m)
    with step inv show ?thesis
      by (auto simp: publish_def submission_def removal_def backlog_def queue_inv_def
          split: overflow_strategy.splits if_splits prod.splits)
  next
    case HandlerResolves
    with step obtain m where m: "mq_consumer q = Handling m" and q': "q' = fst (acknowledge q)"
      by (auto split: consumer_pc.splits)
    moreover obtain ms where "mq_messages q = m # ms"
      using inv m by (auto simp: queue_inv_def)
    ultimately show ?thesis
      using backlog_acknowledge [OF inv m] HandlerResolves
      by (auto simp: submission_def removal_def intro!: exI [of _ "[]"])
  next
    case (Shutdown sid)
    with step show ?thesis
      by (auto simp: shutdown_def Let_def submission_def removal_def backlog_def split: if_splits)
  qed (use step in \<open>auto simp: submission_def removal_def backlog_def consume_def nextMessage_def
        receive_def settle_def split: consumer_pc.splits option.splits if_splits\<close>)
  then show "mq_accepting q' \<Longrightarrow> backlog q @ submission q e = removal q e @ backlog q'"
    and "\<not> mq_accepting q' \<Longrightarrow> mq_waiting q' = []
      \<and> (\<exists>cut. backlog q @ submission q e = removal q e @ backlog q' @ cut)"
    and "mq_accepting q' \<Longrightarrow> mq_accepting q"
    using inv' by (auto simp: queue_inv_def)
qed


section \<open>The queue as a message sink\<close>

lemma backlog_publish:
  "backlog (fst (publish pid m q)) = backlog q @ (if accepted (snd (publish pid m q)) then [m] else [])"
  if "queue_inv q"
  using that
  by (auto simp: publish_def backlog_def queue_inv_def accepted_def
      split: overflow_strategy.splits)

lemma publish_rejected: "\<not> accepted (snd (publish pid m q)) \<Longrightarrow> fst (publish pid m q) = q"
  by (auto simp: publish_def split: overflow_strategy.splits)

interpretation sink: message_sink publish backlog queue_inv
  by unfold_locales (simp_all add: backlog_publish publish_rejected queue_inv_publish)

section \<open>Runs after shutdown\<close>

text \<open>The continuations a consumer has left, with \<open>e\<close> the settlement of its handler.\<close>

definition drain_events :: "queue_event \<Rightarrow> queue \<Rightarrow> queue_event list" where
  "drain_events e q = (case mq_consumer q of
      Woken \<Rightarrow> [ConsumerResume, ConsumerReceive, ConsumerSettle]
    | Fetched _ \<Rightarrow> [ConsumerReceive, ConsumerSettle]
    | Handling _ \<Rightarrow> [e, ConsumerSettle]
    | Settling _ \<Rightarrow> [ConsumerSettle]
    | _ \<Rightarrow> [])"

definition handler_calls :: "queue_out list \<Rightarrow> jsval list" where
  "handler_calls os = concat (map (\<lambda>out. case out of HandlerCalled m \<Rightarrow> [m] | _ \<Rightarrow> []) os)"

lemma handler_calls_append [simp]: "handler_calls (os @ os') = handler_calls os @ handler_calls os'"
  by (simp add: handler_calls_def)

lemma handler_calls_simps [simp]:
  "handler_calls [] = []" "handler_calls (HandlerCalled m # os) = m # handler_calls os"
  "handler_calls (PublishResolved p # os) = handler_calls os"
  "handler_calls (PublishRejected p x # os) = handler_calls os"
  "handler_calls (ConsumeResolved p # os) = handler_calls os"
  "handler_calls (ConsumeRejected p x # os) = handler_calls os"
  "handler_calls (ShutdownResolved p # os) = handler_calls os"
  by (simp_all add: handler_calls_def)

lemma handler_calls_map [simp]:
  "handler_calls (map ShutdownResolved ps) = []" "handler_calls (map PublishResolved ps) = []"
  "handler_calls (map (\<lambda>p. PublishRejected p x) ps) = []"
  "handler_calls (map ((\<lambda>p. PublishRejected p x) \<circ> f) ws) = []"
  by (induction ps) (auto simp: handler_calls_def comp_def)

lemma handler_calls_publish [simp]: "handler_calls (publish_outs pid r) = []"
  by (cases r) (auto simp: publish_outs_def)

text \<open>The only step that calls the handler passes it the head of the buffer.\<close>

lemma queue_step_handler_calls:
  assumes "queue_step q e = Some (q', os)" and "queue_inv q" and "handler_calls os \<noteq> []"
  shows "e = ConsumerReceive \<and> mq_accepting q \<and> mq_messages q' = mq_messages q
    \<and> (\<exists>m ms. mq_messages q = m # ms \<and> os = [HandlerCalled m] \<and> mq_consumer q' = Handling m)"
  using assms
  by (cases e)
    (auto simp: receive_def settle_def acknowledge_def queue_inv_def
      split: prod.splits option.splits consumer_pc.splits if_splits)

lemma queue_step_closed:
  assumes "queue_step q e = Some (q', os)" and "queue_inv q" and "\<not> mq_accepting q"
  shows "\<not> mq_accepting q' \<and> handler_calls os = []"
  using queue_step_backlog(3) [OF assms(2,1)] queue_step_handler_calls [OF assms(1,2)] assms(3)
  by blast

lemma submission_closed: "\<not> mq_accepting q \<Longrightarrow> submission q e = []"
  by (simp add: submission_def publish_def split: queue_event.splits)

lemma queue_exec_closed:
  "queue_exec q es = Some (q', os) \<Longrightarrow> queue_inv q \<Longrightarrow> \<not> mq_accepting q \<Longrightarrow>
   \<not> mq_accepting q' \<and> handler_calls os = [] \<and> submitted q es = []"
proof (induction es arbitrary: q os)
  case (Cons e es)
  then obtain q1 os1 os2 where step: "queue_step q e = Some (q1, os1)"
    and rest: "queue_exec q1 es = Some (q', os2)" and os: "os = os1 @ os2"
    by (auto split: option.splits)
  show ?case
    using Cons.IH [OF rest queue_step_inv [OF step Cons.prems(2)]]
      queue_step_closed [OF step Cons.prems(2,3)] submission_closed [OF Cons.prems(3)] step os
    by simp
qed auto

section \<open>Properties\<close>

text \<open>
  A run used by the witnesses: capacity one, the waiting strategy, the first
  message in its handler and the second publisher paused.
\<close>

definition sample_message :: "string \<Rightarrow> jsval" where
  "sample_message i = JObj [(''messageId'', JStr i)]"

definition sample_queue :: queue where
  "sample_queue = \<lparr>mq_capacity = Some 1, mq_overflow = Wait, mq_messages = [],
     mq_waiting = [], mq_accepting = True, mq_active = None, mq_wake = False,
     mq_consumer = NoConsumer, mq_shutdowns = []\<rparr>"

definition sample_busy :: queue where
  "sample_busy = \<lparr>mq_capacity = Some 1, mq_overflow = Wait,
     mq_messages = [sample_message ''1''], mq_waiting = [(2, sample_message ''2'')],
     mq_accepting = True, mq_active = Some 7, mq_wake = False,
     mq_consumer = Handling (sample_message ''1''), mq_shutdowns = []\<rparr>"

definition sample_events :: "queue_event list" where
  "sample_events = [Publish 1 (sample_message ''1''), Publish 2 (sample_message ''2''),
     Consume 7, ConsumerReceive]"

lemma sample_queue_created:
  "createInMemoryQueue (JInt 1) (JStr ''wait'') = Inr sample_queue"
  by (simp add: createInMemoryQueue_def sample_queue_def int_of_js_def)

lemma sample_queue_reachable: "queue_reachable sample_queue"
  by (rule queue_reachable.created [OF sample_queue_created])

lemma sample_exec:
  "queue_exec sample_queue sample_events
     = Some (sample_busy, [PublishResolved 1, HandlerCalled (sample_message ''1'')])"
  by (simp add: sample_queue_def sample_events_def sample_busy_def publish_def consume_def full_iff
      runConsumer_def nextMessage_def receive_def publish_outs_def sample_message_def)

lemma sample_busy_reachable: "queue_reachable sample_busy"
  by (rule queue_exec_reachable [OF sample_exec sample_queue_reachable])

text \<open>
  C9. First-in-first-out delivery.  In every run of a reachable queue the removed
  messages followed by what is still buffered and then by what paused publishers
  wait to add are exactly the initial backlog followed by the accepted
  publications in call order; after shutdown they are a prefix of it, so nothing
  is lost from the middle, duplicated or reordered.
\<close>

theorem queue_fifo:
  assumes "queue_reachable q" and "queue_exec q es = Some (q', os)"
  shows "\<exists>cut. backlog q @ submitted q es = acknowledged q es @ backlog q' @ cut
    \<and> (mq_accepting q' \<longrightarrow> cut = [])"
proof -
  have "queue_inv q \<Longrightarrow> ?thesis" using assms(2)
  proof (induction es arbitrary: q os)
    case (Cons e es)
    then obtain q1 os1 os2 where step: "queue_step q e = Some (q1, os1)"
      and rest: "queue_exec q1 es = Some (q', os2)"
      by (auto split: option.splits)
    have inv1: "queue_inv q1" using queue_step_inv [OF step Cons.prems(1)] .
    obtain cut where cut: "backlog q1 @ submitted q1 es = acknowledged q1 es @ backlog q' @ cut"
      and open': "mq_accepting q' \<Longrightarrow> cut = []"
      using Cons.IH [OF inv1 rest] by blast
    note step_facts = queue_step_backlog [OF Cons.prems(1) step]
    show ?case
    proof (cases "mq_accepting q1")
      case True
      then have "backlog q @ submitted q (e # es)
          = acknowledged q (e # es) @ backlog q' @ cut"
        using step_facts(1) cut step by simp (metis append.assoc)
      then show ?thesis using open' by blast
    next
      case False
      then have closed: "\<not> mq_accepting q'" "submitted q1 es = []"
        using queue_exec_closed [OF rest inv1] by auto
      obtain tail where "backlog q @ submission q e = removal q e @ backlog q1 @ tail"
        using step_facts(2) False by blast
      then have "backlog q @ submitted q (e # es)
          = acknowledged q (e # es) @ backlog q' @ cut @ tail"
        using cut closed(2) step by simp
      then show ?thesis using closed(1) by blast
    qed
  qed auto
  then show ?thesis using queue_reachable_inv [OF assms(1)] by blast
qed

theorem queue_fifo_witness:
  "\<exists>cut. backlog sample_queue @ submitted sample_queue sample_events
      = acknowledged sample_queue sample_events @ backlog sample_busy @ cut
    \<and> (mq_accepting sample_busy \<longrightarrow> cut = [])"
  by (rule queue_fifo [OF sample_queue_reachable sample_exec])

text \<open>
  C19. Back-pressure bound.  In every reachable state the buffer holds at most the
  configured capacity, only plain objects are buffered, and a publisher is paused
  only while the queue is open, full and configured to wait.
\<close>

theorem queue_backpressure_bound:
  assumes "queue_reachable q"
  shows "(\<forall>c. mq_capacity q = Some c \<longrightarrow> qm_queueDepth (getMetrics q) \<le> c)
    \<and> (0 < qm_waitingPublishers (getMetrics q) \<longrightarrow>
         mq_accepting q \<and> full q \<and> mq_overflow q = Wait)
    \<and> (\<forall>m\<in>set (backlog q). is_plain_object m)"
  using queue_reachable_inv [OF assms]
  by (auto simp: queue_inv_def getMetrics_def backlog_def)

theorem queue_backpressure_bound_witness:
  "qm_queueDepth (getMetrics sample_busy) \<le> 1 \<and> full sample_busy
    \<and> mq_overflow sample_busy = Wait \<and> is_plain_object (sample_message ''2'')"
  using queue_backpressure_bound [OF sample_busy_reachable]
  by (simp add: sample_busy_def getMetrics_def backlog_def)

text \<open>
  Acknowledgement admits exactly the oldest paused publisher.  When the handler
  of a full queue resolves, its message leaves the head, the first waiting
  publication takes the freed slot at the tail and is resolved, and every other
  publisher stays paused in its place.
\<close>

theorem queue_admits_oldest:
  assumes "queue_reachable q" and "mq_consumer q = Handling m"
    and "mq_waiting q = (pid, w) # ws"
  shows "\<exists>q'. queue_step q HandlerResolves = Some (q', [PublishResolved pid])
    \<and> mq_messages q' = tl (mq_messages q) @ [w] \<and> mq_waiting q' = ws"
proof -
  have inv: "queue_inv q" using queue_reachable_inv [OF assms(1)] .
  then obtain c ms where c: "mq_capacity q = Some c" "length (mq_messages q) = c"
    and ms: "mq_messages q = m # ms" and open': "mq_accepting q" and idle: "\<not> mq_wake q"
    using assms(2,3) by (fastforce simp: queue_inv_def full_iff)
  let ?q1 = "q\<lparr>mq_messages := ms\<rparr>"
  let ?q2 = "q\<lparr>mq_waiting := ws, mq_messages := ms @ [w]\<rparr>"
  have "admitWaitingPublishers ?q2 = (?q2, [])"
    using c ms by (simp add: admitWaitingPublishers.simps [of ?q2] full_iff)
  then have "admitWaitingPublishers ?q1 = (?q2, [pid])"
    using c ms open' idle assms(3)
    by (simp add: admitWaitingPublishers.simps [of ?q1] full_iff Let_def)
  then show ?thesis using assms(2) ms by (simp add: acknowledge_def)
qed

theorem queue_admits_oldest_witness:
  "\<exists>q'. queue_step sample_busy HandlerResolves = Some (q', [PublishResolved 2])
    \<and> mq_messages q' = tl (mq_messages sample_busy) @ [sample_message ''2''] \<and> mq_waiting q' = []"
  by (rule queue_admits_oldest [OF sample_busy_reachable, where m = "sample_message ''1''"])
    (simp_all add: sample_busy_def)

text \<open>
  C20. No lost wake-up.  Whenever an open queue holds a message and its consumer is
  neither handling one nor finished, the consumer's own pending continuations, at
  most two of them, call the handler with the oldest message.
\<close>

theorem queue_no_lost_wakeup:
  assumes "queue_reachable q" and "mq_accepting q" and "mq_messages q = m # ms"
    and "mq_consumer q \<noteq> NoConsumer" and "\<forall>x. mq_consumer q \<noteq> Handling x"
    and "\<forall>r. mq_consumer q \<noteq> Settling r"
  shows "\<exists>es q'. length es \<le> 2 \<and> set es \<subseteq> {ConsumerResume, ConsumerReceive}
    \<and> queue_exec q es = Some (q', [HandlerCalled m])
    \<and> mq_consumer q' = Handling m \<and> backlog q' = backlog q"
proof -
  have inv: "queue_inv q" using queue_reachable_inv [OF assms(1)] .
  then consider "mq_consumer q = Woken" | r where "mq_consumer q = Fetched (Some r)"
    using assms(2-) by (cases "mq_consumer q") (auto simp: queue_inv_def elim: option.exhaust)
  then show ?thesis
  proof cases
    case 1
    then show ?thesis using assms(2,3)
      by (intro exI [of _ "[ConsumerResume, ConsumerReceive]"])
        (simp add: nextMessage_def receive_def backlog_def)
  next
    case 2
    then have "r = m" using inv assms(3) by (auto simp: queue_inv_def)
    with 2 show ?thesis using assms(2,3)
      by (intro exI [of _ "[ConsumerReceive]"]) (simp add: receive_def backlog_def)
  qed
qed

definition sample_woken :: queue where
  "sample_woken = sample_queue\<lparr>mq_messages := [sample_message ''1''], mq_active := Some 7,
     mq_consumer := Woken\<rparr>"

lemma sample_woken_reachable: "queue_reachable sample_woken"
proof (rule queue_exec_reachable [OF _ sample_queue_reachable])
  show "queue_exec sample_queue [Consume 7, Publish 1 (sample_message ''1'')]
      = Some (sample_woken, [PublishResolved 1])"
    by (simp add: sample_queue_def sample_woken_def publish_def consume_def full_iff wake_def
        runConsumer_def nextMessage_def publish_outs_def sample_message_def)
qed

theorem queue_no_lost_wakeup_witness:
  "\<exists>es q'. length es \<le> 2 \<and> set es \<subseteq> {ConsumerResume, ConsumerReceive}
    \<and> queue_exec sample_woken es = Some (q', [HandlerCalled (sample_message ''1'')])
    \<and> mq_consumer q' = Handling (sample_message ''1'') \<and> backlog q' = backlog sample_woken"
  by (rule queue_no_lost_wakeup [OF sample_woken_reachable, where ms = "[]"])
    (simp_all add: sample_woken_def sample_queue_def)

text \<open>
  At-least-once delivery.  A message whose handler rejects is not removed: the
  consumption rejects with the handler's error, the buffer and the paused
  publishers are untouched, and the next consumer is called with the same message.
\<close>

theorem queue_redelivers_after_failure:
  assumes "queue_reachable q" and "mq_accepting q" and "mq_consumer q = Handling m"
    and "mq_active q = Some cid"
  shows "\<exists>q'. queue_exec q [HandlerRejects x, ConsumerSettle, Consume cid', ConsumerReceive]
      = Some (q', [ConsumeRejected cid x, HandlerCalled m])
    \<and> mq_messages q' = mq_messages q \<and> mq_waiting q' = mq_waiting q"
proof -
  obtain ms where "mq_messages q = m # ms" and "mq_shutdowns q = []"
    using queue_reachable_inv [OF assms(1)] assms(2,3) by (auto simp: queue_inv_def)
  then show ?thesis using assms(2-)
    by (simp add: settle_def consume_def runConsumer_def nextMessage_def receive_def)
qed

theorem queue_redelivers_after_failure_witness:
  "\<exists>q'. queue_exec sample_busy
      [HandlerRejects (TransientError ''t''), ConsumerSettle, Consume 8, ConsumerReceive]
      = Some (q', [ConsumeRejected 7 (TransientError ''t''), HandlerCalled (sample_message ''1'')])
    \<and> mq_messages q' = mq_messages sample_busy \<and> mq_waiting q' = mq_waiting sample_busy"
  by (rule queue_redelivers_after_failure [OF sample_busy_reachable])
    (simp_all add: sample_busy_def)

text \<open>
  C18. Shutdown completes.  From a reachable state \<open>shutdown\<close> rejects every paused
  publisher and returns once the consumer's pending continuations have run, after
  the in-flight handler (if there is one) settles either way; no handler is
  called, and only an in-flight message whose handler resolves is removed.
\<close>

theorem queue_shutdown_completes:
  assumes "queue_reachable q" and "e = HandlerResolves \<or> e = HandlerRejects x"
  shows "\<exists>q' os. queue_exec q (Shutdown sid # drain_events e (fst (shutdown sid q))) = Some (q', os)
    \<and> ShutdownResolved sid \<in> set os \<and> handler_calls os = [] \<and> mq_consumer q' = NoConsumer
    \<and> (\<forall>pid\<in>set (map fst (mq_waiting q)). PublishRejected pid QueueShutdownError \<in> set os)
    \<and> mq_messages q' = (if e = HandlerResolves \<and> (\<exists>m. mq_consumer q = Handling m)
                       then tl (mq_messages q) else mq_messages q)"
proof -
  have inv: "queue_inv q" using queue_reachable_inv [OF assms(1)] .
  have no_admission: "admitWaitingPublishers s = (s, [])" if "\<not> mq_accepting s" for s
    using that by (simp add: admitWaitingPublishers.simps [of s])
  show ?thesis
  proof (cases "mq_consumer q")
    case (Handling m)
    then show ?thesis using inv assms(2)
      by (auto simp: queue_inv_def shutdown_def Let_def drain_events_def acknowledge_def
          runConsumer_def no_admission settle_def)
  next
    case (Fetched r)
    then show ?thesis using inv
      by (cases r) (auto simp: queue_inv_def shutdown_def Let_def drain_events_def receive_def settle_def)
  qed (use inv in \<open>auto simp: queue_inv_def shutdown_def Let_def drain_events_def wake_def
      nextMessage_def receive_def settle_def split: option.splits\<close>)
qed

theorem queue_shutdown_completes_witness:
  "\<exists>q' os. queue_exec sample_busy
      (Shutdown 9 # drain_events HandlerResolves (fst (shutdown 9 sample_busy))) = Some (q', os)
    \<and> ShutdownResolved 9 \<in> set os \<and> handler_calls os = [] \<and> mq_consumer q' = NoConsumer
    \<and> (\<forall>pid\<in>set (map fst (mq_waiting sample_busy)). PublishRejected pid QueueShutdownError \<in> set os)
    \<and> mq_messages q' = (if HandlerResolves = HandlerResolves
                          \<and> (\<exists>m. mq_consumer sample_busy = Handling m)
                       then tl (mq_messages sample_busy) else mq_messages sample_busy)"
  by (rule queue_shutdown_completes [OF sample_busy_reachable]) simp

end
