(* ===== verification/Retry_Policy.thy ===== *)
theory Retry_Policy
  imports Message_Queue
begin

text \<open>
  The retry policy of \<open>packages/retries/src/index.js\<close>.  What \<open>executeWithRetry\<close> is
  given (the operation, the timer, the random source, the clock, the dead-letter
  queue) is a record of functions: each is called at most once per attempt, so the
  outcome of a call is a function of the attempt number, for an arbitrary
  environment whose promises settle.  The result carries the trace of the calls
  that have an effect, in order.
\<close>

section \<open>Environment and calls\<close>

record 'r retry_env =
  re_operation :: "nat \<Rightarrow> 'r result"
  re_delay :: "nat \<Rightarrow> int \<Rightarrow> unit result"
  re_random :: "nat \<Rightarrow> jsnum result"
  re_now :: "nat \<Rightarrow> string result"
  re_publish :: "jsval \<Rightarrow> unit result"
  re_str :: "jsval \<Rightarrow> string"

datatype retry_call = OperationCall nat | DelayCall int | PublishCall jsval

section \<open>Helpers of the source\<close>

definition classifyError :: "exn \<Rightarrow> classification" where
  "classifyError e = (case e of TransientError _ \<Rightarrow> TRANSIENT | _ \<Rightarrow> PERMANENT)"

text \<open>\<open>Math.round\<close>: the nearest integer, halves towards plus infinity.\<close>

definition math_round :: "rat \<Rightarrow> int" where
  "math_round x = \<lfloor>x + 1 / 2\<rfloor>"

lemma math_round_simps [simp]:
  "math_round (of_int i) = i" "math_round (numeral w) = numeral w" "math_round 0 = 0" "math_round 1 = 1"
proof -
  show of_int: "math_round (of_int i) = i" for i
    unfolding math_round_def by (simp add: floor_unique)
  show "math_round (numeral w) = numeral w" "math_round 0 = 0" "math_round 1 = 1"
    using of_int [of "numeral w"] of_int [of 0] of_int [of 1] by simp_all
qed

lemma math_round_bounds: "\<bar>of_int (math_round x) - x\<bar> \<le> 1 / 2"
  using floor_correct [of "x + 1 / 2"] unfolding math_round_def abs_le_iff by linarith

definition retryDelay :: "nat \<Rightarrow> rat \<Rightarrow> rat \<Rightarrow> jsnum result \<Rightarrow> int result" where
  "retryDelay attempt baseDelayMs jitterRatio random =
     (let exponentialDelay = baseDelayMs * 2 ^ (attempt - 1) in
      case random of
        Inl e \<Rightarrow> Inl e
      | Inr (Fin randomValue) \<Rightarrow>
          if randomValue < 0 \<or> 1 < randomValue
          then Inl (InvalidRetryOptionsError ''Random source must return a number between zero and one'')
          else let jitterMultiplier = 1 - jitterRatio + 2 * jitterRatio * randomValue
               in Inr (math_round (exponentialDelay * jitterMultiplier))
      | Inr _ \<Rightarrow>
          Inl (InvalidRetryOptionsError ''Random source must return a number between zero and one''))"

fun show_classification :: "classification \<Rightarrow> string" where
  "show_classification TRANSIENT = ''TRANSIENT''"
| "show_classification PERMANENT = ''PERMANENT''"

definition serialized_js :: "serialized_error \<Rightarrow> jsval" where
  "serialized_js s = JObj ([(''name'', JStr (se_name s)), (''message'', JStr (se_message s))]
     @ (case se_code s of None \<Rightarrow> [] | Some c \<Rightarrow> [(''code'', JStr c)]))"

text \<open>The object that is published to the dead-letter queue.\<close>

definition dead_letter ::
  "(jsval \<Rightarrow> string) \<Rightarrow> jsval \<Rightarrow> nat \<Rightarrow> nat \<Rightarrow> string \<Rightarrow> string \<Rightarrow> exn \<Rightarrow> jsval" where
  "dead_letter str originalMessage attempts maxAttempts firstAttemptAt failedAt e =
     JObj [(''type'', JStr ''DEAD_LETTER''),
           (''originalMessage'', originalMessage),
           (''retry'', JObj [
              (''attempts'', JInt (int attempts)),
              (''maxAttempts'', JInt (int maxAttempts)),
              (''classification'', JStr (show_classification (classifyError e))),
              (''firstAttemptAt'', JStr firstAttemptAt),
              (''failedAt'', JStr failedAt),
              (''lastError'', serialized_js (serializeError str e))])]"

section \<open>\<open>executeWithRetry\<close>\<close>

record retry_config =
  rc_message :: jsval
  rc_maxAttempts :: nat
  rc_baseDelayMs :: rat
  rc_jitterRatio :: rat
  rc_firstAttemptAt :: string

text \<open>The \<open>catch\<close> block once no retry is due: store a dead letter, then throw.\<close>

definition dead_letter_failure ::
  "'r retry_env \<Rightarrow> retry_config \<Rightarrow> nat \<Rightarrow> exn \<Rightarrow> 'r result \<times> retry_call list" where
  "dead_letter_failure env cfg attempt e =
     (let infrastructure =
        (\<lambda>ie. Inl (RetryInfrastructureError DEAD_LETTER_PUBLICATION attempt (classifyError e) e ie))
      in case re_now env attempt of
        Inl ie \<Rightarrow> (infrastructure ie, [])
      | Inr failedAt \<Rightarrow>
          (let record = dead_letter (re_str env) (rc_message cfg) attempt (rc_maxAttempts cfg)
                          (rc_firstAttemptAt cfg) failedAt e
           in case re_publish env record of
                Inl ie \<Rightarrow> (infrastructure ie, [PublishCall record])
              | Inr _ \<Rightarrow> (Inl (MessageDeadLetteredError attempt (classifyError e) e),
                          [PublishCall record])))"

text \<open>The \<open>for\<close> loop from a given attempt on.\<close>

function retry_loop ::
  "'r retry_env \<Rightarrow> retry_config \<Rightarrow> nat \<Rightarrow> 'r result \<times> retry_call list" where
  "retry_loop env cfg attempt =
     (if attempt \<le> rc_maxAttempts cfg then
        (case re_operation env attempt of
           Inr r \<Rightarrow> (Inr r, [OperationCall attempt])
         | Inl e \<Rightarrow>
             if classifyError e = TRANSIENT \<and> attempt < rc_maxAttempts cfg then
               (case retryDelay attempt (rc_baseDelayMs cfg) (rc_jitterRatio cfg)
                       (re_random env attempt) of
                  Inl ie \<Rightarrow> (Inl (RetryInfrastructureError RETRY_DELAY attempt TRANSIENT e ie),
                             [OperationCall attempt])
                | Inr d \<Rightarrow>
                    (case re_delay env attempt d of
                       Inl ie \<Rightarrow> (Inl (RetryInfrastructureError RETRY_DELAY attempt TRANSIENT e ie),
                                  [OperationCall attempt, DelayCall d])
                     | Inr _ \<Rightarrow>
                         (let rest = retry_loop env cfg (attempt + 1)
                          in (fst rest, OperationCall attempt # DelayCall d # snd rest))))
             else (let failure = dead_letter_failure env cfg attempt e
                   in (fst failure, OperationCall attempt # snd failure)))
      else (Inl (plain_error ''Retry loop exited unexpectedly''), []))"
  by pat_completeness auto
termination
  by (relation "measure (\<lambda>(env, cfg, attempt). Suc (rc_maxAttempts cfg) - attempt)") auto

declare retry_loop.simps [simp del]

definition with_default :: "jsval \<Rightarrow> jsval \<Rightarrow> jsval" where
  "with_default d v = (if v = JUndefined then d else v)"

definition is_positive_finite :: "jsval \<Rightarrow> bool" where
  "is_positive_finite v = (case v of JNum (Fin r) \<Rightarrow> 0 < r | _ \<Rightarrow> False)"

definition is_unit_ratio :: "jsval \<Rightarrow> bool" where
  "is_unit_ratio v = (case v of JNum (Fin r) \<Rightarrow> 0 \<le> r \<and> r \<le> 1 | _ \<Rightarrow> False)"

definition rat_of_js :: "jsval \<Rightarrow> rat" where
  "rat_of_js v = (case v of JNum (Fin r) \<Rightarrow> r | _ \<Rightarrow> 0)"

record retry_options =
  ro_maxAttempts :: jsval
  ro_baseDelayMs :: jsval
  ro_jitterRatio :: jsval

abbreviation maxAttempts_of :: "retry_options \<Rightarrow> jsval" where
  "maxAttempts_of opts \<equiv> with_default (JInt 5) (ro_maxAttempts opts)"

abbreviation baseDelayMs_of :: "retry_options \<Rightarrow> jsval" where
  "baseDelayMs_of opts \<equiv> with_default (JInt 1000) (ro_baseDelayMs opts)"

abbreviation jitterRatio_of :: "retry_options \<Rightarrow> jsval" where
  "jitterRatio_of opts \<equiv> with_default (JNum (Fin (1 / 5))) (ro_jitterRatio opts)"

definition retry_config_of :: "retry_options \<Rightarrow> jsval \<Rightarrow> string \<Rightarrow> retry_config" where
  "retry_config_of opts originalMessage firstAttemptAt =
     \<lparr>rc_message = originalMessage,
      rc_maxAttempts = nat (int_of_js (maxAttempts_of opts)),
      rc_baseDelayMs = rat_of_js (baseDelayMs_of opts),
      rc_jitterRatio = rat_of_js (jitterRatio_of opts),
      rc_firstAttemptAt = firstAttemptAt\<rparr>"

definition executeWithRetry ::
  "'r retry_env \<Rightarrow> retry_options \<Rightarrow> jsval \<Rightarrow> 'r result \<times> retry_call list" where
  "executeWithRetry env opts message =
        (if \<not> is_positive_integer (maxAttempts_of opts)
         then (Inl (InvalidRetryOptionsError ''Maximum attempts must be a positive integer''), [])
         else if \<not> is_positive_finite (baseDelayMs_of opts)
         then (Inl (InvalidRetryOptionsError ''Base delay must be a positive finite number''), [])
         else if \<not> is_unit_ratio (jitterRatio_of opts)
         then (Inl (InvalidRetryOptionsError ''Jitter ratio must be between zero and one''), [])
         else (case structuredClone message of
             Inl e \<Rightarrow> (Inl e, [])
           | Inr originalMessage \<Rightarrow>
               (case re_now env 0 of
                  Inl e \<Rightarrow> (Inl e, [])
                | Inr firstAttemptAt \<Rightarrow>
                    retry_loop env (retry_config_of opts originalMessage firstAttemptAt) 1)))"

text \<open>The handler that \<open>createRetryingQueueProcessor\<close> passes to \<open>sourceQueue.consume\<close>.\<close>

definition process :: "'r retry_env \<Rightarrow> retry_options \<Rightarrow> jsval \<Rightarrow> unit result \<times> retry_call list" where
  "process env opts message =
     (let (r, calls) = executeWithRetry env opts message in
      (case r of
         Inr _ \<Rightarrow> Inr ()
       | Inl (MessageDeadLetteredError _ _ _) \<Rightarrow> Inr ()
       | Inl e \<Rightarrow> Inl e, calls))"


section \<open>Lemmas about the loop\<close>

definition operations :: "retry_call list \<Rightarrow> nat list" where
  "operations calls = concat (map (\<lambda>c. case c of OperationCall k \<Rightarrow> [k] | _ \<Rightarrow> []) calls)"

definition publications :: "retry_call list \<Rightarrow> jsval list" where
  "publications calls = concat (map (\<lambda>c. case c of PublishCall m \<Rightarrow> [m] | _ \<Rightarrow> []) calls)"

lemma operations_simps [simp]:
  "operations [] = []" "operations (OperationCall k # cs) = k # operations cs"
  "operations (DelayCall d # cs) = operations cs"
  "operations (PublishCall m # cs) = operations cs"
  by (simp_all add: operations_def)

lemma publications_simps [simp]:
  "publications [] = []" "publications (OperationCall k # cs) = publications cs"
  "publications (DelayCall d # cs) = publications cs"
  "publications (PublishCall m # cs) = m # publications cs"
  by (simp_all add: publications_def)

lemma classifyError_TRANSIENT_iff: "classifyError e = TRANSIENT \<longleftrightarrow> (\<exists>m. e = TransientError m)"
  by (cases e) (auto simp: classifyError_def)

lemma dead_letter_original [simp]:
  "get_prop (dead_letter str m n k t1 t2 e) ''originalMessage'' = m"
  "is_plain_object (dead_letter str m n k t1 t2 e)"
  by (simp_all add: dead_letter_def)

text \<open>The five ways one attempt ends, as an elimination rule for the loop.\<close>

lemma retry_loop_cases [consumes 1]:
  assumes "attempt \<le> rc_maxAttempts cfg"
  obtains (succeed) r where "re_operation env attempt = Inr r"
      "retry_loop env cfg attempt = (Inr r, [OperationCall attempt])"
  | (back_off) m d where "re_operation env attempt = Inl (TransientError m)" "attempt < rc_maxAttempts cfg"
      "retryDelay attempt (rc_baseDelayMs cfg) (rc_jitterRatio cfg) (re_random env attempt) = Inr d"
      "re_delay env attempt d = Inr ()"
      "retry_loop env cfg attempt = (fst (retry_loop env cfg (attempt + 1)),
         OperationCall attempt # DelayCall d # snd (retry_loop env cfg (attempt + 1)))"
  | (no_timer) m ie calls where "re_operation env attempt = Inl (TransientError m)"
      "attempt < rc_maxAttempts cfg"
      "retry_loop env cfg attempt =
         (Inl (RetryInfrastructureError RETRY_DELAY attempt TRANSIENT (TransientError m) ie),
          OperationCall attempt # calls)" "calls = [] \<or> (\<exists>d. calls = [DelayCall d])"
  | (bury) e where "re_operation env attempt = Inl e"
      "classifyError e = PERMANENT \<or> attempt = rc_maxAttempts cfg"
      "retry_loop env cfg attempt = (fst (dead_letter_failure env cfg attempt e),
         OperationCall attempt # snd (dead_letter_failure env cfg attempt e))"
proof (cases "re_operation env attempt")
  case (Inr r)
  then show thesis using that(1) assms by (simp add: retry_loop.simps [of env cfg attempt])
next
  case (Inl e)
  show thesis
  proof (cases "classifyError e = TRANSIENT \<and> attempt < rc_maxAttempts cfg")
    case False
    then have "classifyError e = PERMANENT \<or> attempt = rc_maxAttempts cfg"
      using assms by (cases "classifyError e") auto
    then show thesis
      using that(4) [OF Inl] Inl False assms by (auto simp: retry_loop.simps [of env cfg attempt] Let_def)
  next
    case True
    then obtain m where m: "e = TransientError m" by (auto simp: classifyError_TRANSIENT_iff)
    note unfold = retry_loop.simps [of env cfg attempt]
    show thesis
    proof (cases "retryDelay attempt (rc_baseDelayMs cfg) (rc_jitterRatio cfg) (re_random env attempt)")
      case (Inl ie)
      then show thesis using that(3) [of m ie "[]"] True m assms \<open>re_operation env attempt = Inl e\<close>
        by (simp add: unfold)
    next
      case (Inr d)
      then show thesis
        using that(2) [of m d] that(3) [of m _ "[DelayCall d]"] True m assms
          \<open>re_operation env attempt = Inl e\<close>
        by (cases "re_delay env attempt d") (auto simp: unfold Let_def)
    qed
  qed
qed

lemma dead_letter_failure_cases:
  obtains (stored) t where
    "dead_letter_failure env cfg n e = (Inl (MessageDeadLetteredError n (classifyError e) e),
       [PublishCall (dead_letter (re_str env) (rc_message cfg) n (rc_maxAttempts cfg)
          (rc_firstAttemptAt cfg) t e)])"
    "re_now env n = Inr t"
    "re_publish env (dead_letter (re_str env) (rc_message cfg) n (rc_maxAttempts cfg)
          (rc_firstAttemptAt cfg) t e) = Inr ()"
  | (failed) ie calls where
    "dead_letter_failure env cfg n e =
       (Inl (RetryInfrastructureError DEAD_LETTER_PUBLICATION n (classifyError e) e ie), calls)"
    "calls = [] \<or> (\<exists>m. calls = [PublishCall m])"
proof (cases "re_now env n")
  case (Inl ie)
  then show thesis using failed [of ie "[]"] by (simp add: dead_letter_failure_def)
next
  case (Inr t)
  let ?dl = "dead_letter (re_str env) (rc_message cfg) n (rc_maxAttempts cfg)
    (rc_firstAttemptAt cfg) t e"
  show thesis
    using Inr stored [of t] failed [of _ "[PublishCall ?dl]"]
    by (cases "re_publish env ?dl") (auto simp: dead_letter_failure_def Let_def)
qed

lemma retry_loop_shape:
  "1 \<le> a \<Longrightarrow> a \<le> rc_maxAttempts cfg \<Longrightarrow> \<exists>n. a \<le> n \<and> n \<le> rc_maxAttempts cfg
     \<and> operations (snd (retry_loop env cfg a)) = [a..<Suc n]
     \<and> length (publications (snd (retry_loop env cfg a))) \<le> 1"
proof (induction "rc_maxAttempts cfg - a" arbitrary: a rule: less_induct)
  case less
  from less.prems(2) show ?case
  proof (cases rule: retry_loop_cases [where env = env])
    case (back_off m d)
    have "rc_maxAttempts cfg - (a + 1) < rc_maxAttempts cfg - a" "1 \<le> a + 1"
      "a + 1 \<le> rc_maxAttempts cfg"
      using back_off(2) by simp_all
    from less.hyps [OF this] obtain n where n: "a + 1 \<le> n" "n \<le> rc_maxAttempts cfg"
      "operations (snd (retry_loop env cfg (a + 1))) = [a + 1..<Suc n]"
      "length (publications (snd (retry_loop env cfg (a + 1)))) \<le> 1" by blast
    moreover have "[a..<Suc n] = a # [a + 1..<Suc n]"
      using n(1) by (simp only: upt_conv_Cons) simp
    ultimately show ?thesis using back_off(5) by (intro exI [of _ n]) simp
  next
    case (bury e)
    then show ?thesis
      using less.prems by (cases rule: dead_letter_failure_cases [of env cfg a e]) (auto intro!: exI [of _ a])
  qed (use less.prems in \<open>auto intro!: exI [of _ a]\<close>)
qed


text \<open>The loop never falls through to the statement after it, from any attempt it can reach.\<close>

lemma retry_loop_error:
  "1 \<le> a \<Longrightarrow> a \<le> rc_maxAttempts cfg \<Longrightarrow> fst (retry_loop env cfg a) = Inl x \<Longrightarrow>
     (\<exists>n e dl. x = MessageDeadLetteredError n (classifyError e) e
        \<and> re_operation env n = Inl e \<and> (classifyError e = PERMANENT \<or> n = rc_maxAttempts cfg)
        \<and> publications (snd (retry_loop env cfg a)) = [dl] \<and> re_publish env dl = Inr ()
        \<and> get_prop dl ''originalMessage'' = rc_message cfg)
   \<or> (\<exists>s n e ie. x = RetryInfrastructureError s n (classifyError e) e ie
        \<and> re_operation env n = Inl e)"
proof (induction "rc_maxAttempts cfg - a" arbitrary: a rule: less_induct)
  case less
  from less.prems(2) show ?case
  proof (cases rule: retry_loop_cases [where env = env])
    case (back_off m d)
    have hyps: "rc_maxAttempts cfg - (a + 1) < rc_maxAttempts cfg - a" "1 \<le> a + 1"
      "a + 1 \<le> rc_maxAttempts cfg" "fst (retry_loop env cfg (a + 1)) = Inl x"
      using back_off less.prems(3) by simp_all
    show ?thesis
      using less.hyps [OF hyps] back_off(5) by simp
  next
    case (no_timer m ie calls)
    then show ?thesis using less.prems(3) by (auto simp: classifyError_def)
  next
    case (bury e)
    show ?thesis
    proof (cases rule: dead_letter_failure_cases [of env cfg a e])
      case (stored t)
      then show ?thesis using bury less.prems by auto
    next
      case (failed ie calls)
      then show ?thesis using bury less.prems by auto
    qed
  qed (use less.prems in auto)
qed

lemma retry_loop_success:
  "1 \<le> a \<Longrightarrow> a \<le> rc_maxAttempts cfg \<Longrightarrow> fst (retry_loop env cfg a) = Inr r \<Longrightarrow>
     \<exists>n\<in>set (operations (snd (retry_loop env cfg a))). re_operation env n = Inr r"
proof (induction "rc_maxAttempts cfg - a" arbitrary: a rule: less_induct)
  case less
  from less.prems(2) show ?case
  proof (cases rule: retry_loop_cases [where env = env])
    case (back_off m d)
    have hyps: "rc_maxAttempts cfg - (a + 1) < rc_maxAttempts cfg - a" "1 \<le> a + 1"
      "a + 1 \<le> rc_maxAttempts cfg" "fst (retry_loop env cfg (a + 1)) = Inr r"
      using back_off less.prems(3) by simp_all
    show ?thesis using less.hyps [OF hyps] back_off(5) by simp
  next
    case (bury e)
    then show ?thesis
      using less.prems by (cases rule: dead_letter_failure_cases [of env cfg a e]) auto
  qed (use less.prems in auto)
qed

subsection \<open>The run before the deciding attempt\<close>

text \<open>Every attempt before \<open>n\<close> fails transiently and its back-off delay elapses.\<close>

definition backs_off :: "'r retry_env \<Rightarrow> retry_config \<Rightarrow> (nat \<Rightarrow> int) \<Rightarrow> nat \<Rightarrow> bool" where
  "backs_off env cfg ds n \<longleftrightarrow> (\<forall>i\<in>set [1..<n]. (case re_operation env i of
        Inl e \<Rightarrow> classifyError e = TRANSIENT | Inr _ \<Rightarrow> False)
      \<and> retryDelay i (rc_baseDelayMs cfg) (rc_jitterRatio cfg) (re_random env i) = Inr (ds i)
      \<and> re_delay env i (ds i) = Inr ())"

text \<open>Attempt \<open>n\<close> ends the loop: it succeeds, fails permanently, or is the last one.\<close>

definition decisive :: "'r retry_env \<Rightarrow> retry_config \<Rightarrow> nat \<Rightarrow> bool" where
  "decisive env cfg n \<longleftrightarrow> (case re_operation env n of
      Inl e \<Rightarrow> classifyError e = PERMANENT \<or> n = rc_maxAttempts cfg | Inr _ \<Rightarrow> True)"

definition backoff_calls :: "(nat \<Rightarrow> int) \<Rightarrow> nat \<Rightarrow> nat \<Rightarrow> retry_call list" where
  "backoff_calls ds a n = concat (map (\<lambda>i. [OperationCall i, DelayCall (ds i)]) [a..<n])"

lemma retry_loop_backs_off:
  assumes "backs_off env cfg ds n" and "n \<le> rc_maxAttempts cfg" and "1 \<le> a" and "a \<le> n"
  shows "retry_loop env cfg a = (fst (retry_loop env cfg n),
           backoff_calls ds a n @ snd (retry_loop env cfg n))"
  using assms(4,3)
proof (induction "n - a" arbitrary: a)
  case 0
  then show ?case by (simp add: backoff_calls_def)
next
  case (Suc k)
  then have a: "a \<in> set [1..<n]" "a < rc_maxAttempts cfg" "a < n" using assms(2) by auto
  then have "case re_operation env a of Inl e \<Rightarrow> classifyError e = TRANSIENT | Inr _ \<Rightarrow> False"
    and d: "retryDelay a (rc_baseDelayMs cfg) (rc_jitterRatio cfg) (re_random env a) = Inr (ds a)"
      "re_delay env a (ds a) = Inr ()"
    using assms(1) unfolding backs_off_def by blast+
  then obtain m where m: "re_operation env a = Inl (TransientError m)"
    by (auto simp: classifyError_TRANSIENT_iff split: sum.splits)
  have "retry_loop env cfg a = (fst (retry_loop env cfg (a + 1)),
      OperationCall a # DelayCall (ds a) # snd (retry_loop env cfg (a + 1)))"
    using a m d by (simp add: retry_loop.simps [of env cfg a] classifyError_def Let_def)
  moreover have "retry_loop env cfg (a + 1) = (fst (retry_loop env cfg n),
           backoff_calls ds (a + 1) n @ snd (retry_loop env cfg n))"
    using Suc.hyps(1) [of "a + 1"] Suc.hyps(2) a by simp
  ultimately show ?case using a(3) by (simp add: backoff_calls_def upt_conv_Cons)
qed


subsection \<open>Validated options\<close>

definition valid_retry_options :: "retry_options \<Rightarrow> bool" where
  "valid_retry_options opts \<longleftrightarrow> is_positive_integer (maxAttempts_of opts)
     \<and> is_positive_finite (baseDelayMs_of opts) \<and> is_unit_ratio (jitterRatio_of opts)"

text \<open>An execution that calls anything has valid options and is the loop from attempt one.\<close>

lemma executeWithRetry_loop:
  assumes "executeWithRetry env opts message = (r, calls)"
  obtains (early) x where "r = Inl x" "calls = []"
      "\<And>n c e. x = MessageDeadLetteredError n c e \<Longrightarrow> re_now env 0 = Inl x"
  | (loop) t where "valid_retry_options opts" "re_now env 0 = Inr t" "\<not> has_function message"
      "(r, calls) = retry_loop env (retry_config_of opts message t) 1"
      "1 \<le> rc_maxAttempts (retry_config_of opts message t)"
proof (cases "valid_retry_options opts \<and> \<not> has_function message \<and> (\<exists>t. re_now env 0 = Inr t)")
  case True
  then obtain t where t: "re_now env 0 = Inr t" by blast
  have "1 \<le> rc_maxAttempts (retry_config_of opts message t)"
    using True by (auto simp: valid_retry_options_def retry_config_of_def elim: is_positive_integerE)
  then show thesis
    using loop [of t] True t assms
    by (simp add: executeWithRetry_def structuredClone_def valid_retry_options_def)
next
  case False
  then show thesis
    using early assms
    by (auto simp: executeWithRetry_def structuredClone_def valid_retry_options_def
        split: sum.splits if_splits)
qed

lemma executeWithRetry_valid:
  assumes "valid_retry_options opts" and "\<not> has_function message" and "re_now env 0 = Inr t"
  shows "executeWithRetry env opts message
    = retry_loop env (retry_config_of opts message t) 1"
  using assms by (simp add: executeWithRetry_def structuredClone_def valid_retry_options_def)

section \<open>Properties\<close>

text \<open>
  Bounded attempts.  With valid options the operation is called for the attempts
  1, 2, ..., n in order, with n at most the configured maximum, and at most one
  dead letter is published, whatever the operation, the timer, the random source,
  the clock and the dead-letter queue do.
\<close>

theorem retry_attempts_bounded:
  "\<exists>n. operations (snd (executeWithRetry env opts message)) = [1..<Suc n]
     \<and> int n \<le> max 0 (int_of_js (maxAttempts_of opts))
     \<and> length (publications (snd (executeWithRetry env opts message))) \<le> 1"
proof -
  obtain r calls where rc: "executeWithRetry env opts message = (r, calls)" by force
  then show ?thesis
  proof (cases rule: executeWithRetry_loop)
    case (early x)
    then show ?thesis using rc by (intro exI [of _ 0]) simp
  next
    case (loop t)
    then obtain n where "n \<le> rc_maxAttempts (retry_config_of opts message t)"
      "operations calls = [1..<Suc n]" "length (publications calls) \<le> 1"
      using retry_loop_shape [of 1 "retry_config_of opts message t" env] by (metis le_refl snd_conv)
    then show ?thesis using rc by (intro exI [of _ n]) (simp add: retry_config_of_def)
  qed
qed

text \<open>
  C28. What a run returns.  If attempt \<open>n\<close> is the first that does not fail
  transiently, or the last allowed one, and the delays before it elapse, then the
  run makes exactly the calls 1 to \<open>n\<close> with one delay between two of them; it
  returns the result of attempt \<open>n\<close>, or else stores one dead letter that records
  \<open>n\<close>, the classification and the error, and rejects with it as the cause.
\<close>

theorem retry_functional:
  assumes "valid_retry_options opts" and "\<not> has_function message" and "re_now env 0 = Inr t0"
    and "cfg = retry_config_of opts message t0"
    and "1 \<le> n" and "n \<le> rc_maxAttempts cfg" and "backs_off env cfg ds n" and "decisive env cfg n"
    and "re_now env n = Inr t" and "re_publish env = (\<lambda>m. Inr ())"
  shows "executeWithRetry env opts message =
    (case re_operation env n of
       Inr r \<Rightarrow> (Inr r, backoff_calls ds 1 n @ [OperationCall n])
     | Inl x \<Rightarrow> (Inl (MessageDeadLetteredError n (classifyError x) x),
         backoff_calls ds 1 n @ [OperationCall n,
           PublishCall (dead_letter (re_str env) message n (rc_maxAttempts cfg) t0 t x)]))"
proof -
  have run: "executeWithRetry env opts message
      = (fst (retry_loop env cfg n), backoff_calls ds 1 n @ snd (retry_loop env cfg n))"
    using executeWithRetry_valid [OF assms(1-3)] retry_loop_backs_off [OF assms(7,6) _ assms(5)]
      assms(4) by simp
  have cfg: "rc_message cfg = message" "rc_firstAttemptAt cfg = t0"
    using assms(4) by (simp_all add: retry_config_of_def)
  from assms(6) show ?thesis
  proof (cases rule: retry_loop_cases [where env = env])
    case (bury e)
    then show ?thesis using run cfg assms(9,10) by (simp add: dead_letter_failure_def Let_def)
  qed (use run assms(8) in \<open>auto simp: decisive_def classifyError_def\<close>)
qed

definition sample_env :: "string retry_env" where
  "sample_env = \<lparr>re_operation = (\<lambda>k. if k < 3 then Inl (TransientError ''busy'') else Inr ''done''),
     re_delay = (\<lambda>k d. Inr ()), re_random = (\<lambda>k. Inr (Fin (1 / 2))), re_now = (\<lambda>k. Inr ''t''),
     re_publish = (\<lambda>m. Inr ()), re_str = (\<lambda>v. [])\<rparr>"

definition default_options :: retry_options where
  "default_options = \<lparr>ro_maxAttempts = JUndefined, ro_baseDelayMs = JUndefined,
     ro_jitterRatio = JUndefined\<rparr>"

lemma default_options_valid: "valid_retry_options default_options"
  by (simp add: valid_retry_options_def default_options_def with_default_def
      is_positive_finite_def is_unit_ratio_def)

lemma default_config:
  "retry_config_of default_options m t = \<lparr>rc_message = m, rc_maxAttempts = 5,
     rc_baseDelayMs = 1000, rc_jitterRatio = 1 / 5, rc_firstAttemptAt = t\<rparr>"
  by (simp add: retry_config_of_def default_options_def with_default_def rat_of_js_def int_of_js_def)

theorem retry_functional_witness:
  "executeWithRetry sample_env default_options (JObj []) =
    (Inr ''done'', [OperationCall 1, DelayCall 1000, OperationCall 2, DelayCall 2000, OperationCall 3])"
proof -
  let ?cfg = "retry_config_of default_options (JObj []) ''t''"
  let ?ds = "\<lambda>i :: nat. if i = 1 then 1000 else 2000 :: int"
  have "[1..<3] = [1, 2 :: nat]" by code_simp
  then have "backs_off sample_env ?cfg ?ds 3"
    by (simp add: backs_off_def default_config sample_env_def classifyError_def retryDelay_def
        Let_def)
  then have "executeWithRetry sample_env default_options (JObj []) =
    (case re_operation sample_env 3 of
       Inr r \<Rightarrow> (Inr r, backoff_calls ?ds 1 3 @ [OperationCall 3])
     | Inl x \<Rightarrow> (Inl (MessageDeadLetteredError 3 (classifyError x) x),
         backoff_calls ?ds 1 3 @ [OperationCall 3,
           PublishCall (dead_letter (re_str sample_env) (JObj []) 3 (rc_maxAttempts ?cfg) ''t'' ''t'' x)]))"
    by (intro retry_functional [OF default_options_valid])
      (simp_all add: sample_env_def default_config decisive_def)
  then show ?thesis using \<open>[1..<3] = [1, 2 :: nat]\<close>
    by (simp add: sample_env_def backoff_calls_def)
qed

text \<open>Why a run ends before its first attempt: the first of its checks that fails.\<close>

definition refusal :: "'r retry_env \<Rightarrow> retry_options \<Rightarrow> jsval \<Rightarrow> exn option" where
  "refusal env opts message =
     (if \<not> valid_retry_options opts then Some (InvalidRetryOptionsError
        (if \<not> is_positive_integer (maxAttempts_of opts) then ''Maximum attempts must be a positive integer''
         else if \<not> is_positive_finite (baseDelayMs_of opts) then ''Base delay must be a positive finite number''
         else ''Jitter ratio must be between zero and one''))
      else (case structuredClone message of Inl e \<Rightarrow> Some e
        | Inr _ \<Rightarrow> (case re_now env 0 of Inl e \<Rightarrow> Some e | Inr _ \<Rightarrow> None)))"

lemma executeWithRetry_refused:
  "refusal env opts message = Some e \<Longrightarrow> executeWithRetry env opts message = (Inl e, [])"
  by (auto simp: refusal_def executeWithRetry_def valid_retry_options_def split: if_splits sum.splits)

lemma executeWithRetry_accepted:
  assumes "refusal env opts message = None"
  obtains t where "valid_retry_options opts" "re_now env 0 = Inr t"
    "executeWithRetry env opts message = retry_loop env (retry_config_of opts message t) 1"
  using assms executeWithRetry_valid [of opts message env]
  by (auto simp: refusal_def structuredClone_def split: if_splits sum.splits)

text \<open>
  C12. Why a run rejects.  Every rejecting run is of one of three kinds.  It is refused before the first attempt,
  with the error of the first failing check (the options, the clone of the message, the clock), exactly when there is
  one, and then it calls nothing.  Otherwise it has called the operation, and the error is a dead-letter error, which
  names the attempt and the error that ended the run, a permanent one or that of the last allowed attempt, and the
  one dead letter of the run was stored; or it is an infrastructure error, which keeps the processing error of
  an attempt beside its own.
\<close>

theorem retry_rejections:
  assumes "executeWithRetry env opts message = (Inl x, calls)"
  shows "case refusal env opts message of
      Some e \<Rightarrow> x = e \<and> calls = []
    | None \<Rightarrow> 1 \<in> set (operations calls) \<and>
      ((\<exists>n e dl. x = MessageDeadLetteredError n (classifyError e) e
        \<and> re_operation env n = Inl e
        \<and> (classifyError e = PERMANENT \<or> int n = int_of_js (maxAttempts_of opts))
        \<and> publications calls = [dl] \<and> re_publish env dl = Inr ()
        \<and> get_prop dl ''originalMessage'' = message)
     \<or> (\<exists>s n e ie. x = RetryInfrastructureError s n (classifyError e) e ie
        \<and> re_operation env n = Inl e))"
proof (cases "refusal env opts message")
  case (Some e)
  then show ?thesis using executeWithRetry_refused [OF Some] assms by simp
next
  case None
  then obtain t where valid: "valid_retry_options opts"
    and loop: "executeWithRetry env opts message = retry_loop env (retry_config_of opts message t) 1"
    by (rule executeWithRetry_accepted)
  let ?cfg = "retry_config_of opts message t"
  have run: "fst (retry_loop env ?cfg 1) = Inl x" "snd (retry_loop env ?cfg 1) = calls"
    using assms loop by simp_all
  have one: "1 \<le> rc_maxAttempts ?cfg"
    and last: "n = rc_maxAttempts ?cfg \<longleftrightarrow> int n = int_of_js (maxAttempts_of opts)" for n
    using valid by (auto simp: retry_config_of_def valid_retry_options_def elim: is_positive_integerE)
  have message: "rc_message ?cfg = message" by (simp add: retry_config_of_def)
  have "1 \<in> set (operations calls)"
    using retry_loop_shape [OF le_refl one, of env] run(2) by auto
  then show ?thesis
    using retry_loop_error [OF le_refl one run(1)] None unfolding last message run(2) by simp
qed

theorem retry_rejections_witness:
  "(\<exists>e dl. re_operation (sample_env\<lparr>re_operation := \<lambda>k. Inl OrderValidationError\<rparr>) 1 = Inl e
      \<and> publications (snd (executeWithRetry
          (sample_env\<lparr>re_operation := \<lambda>k. Inl OrderValidationError\<rparr>) default_options (JObj []))) = [dl]
      \<and> get_prop dl ''originalMessage'' = JObj [])
    \<and> executeWithRetry sample_env (default_options\<lparr>ro_maxAttempts := JInt 0\<rparr>) (JObj [])
      = (Inl (InvalidRetryOptionsError ''Maximum attempts must be a positive integer''), [])"
proof
  let ?env = "sample_env\<lparr>re_operation := \<lambda>k. Inl OrderValidationError\<rparr>"
  let ?run = "executeWithRetry ?env default_options (JObj [])"
  have run: "?run = retry_loop ?env (retry_config_of default_options (JObj []) ''t'') 1"
    by (intro executeWithRetry_valid default_options_valid) (simp_all add: sample_env_def)
  have "fst ?run = Inl (MessageDeadLetteredError 1 PERMANENT OrderValidationError)"
    unfolding run by (simp_all add: retry_loop.simps sample_env_def default_config classifyError_def
        dead_letter_failure_def Let_def)
  then have "?run = (Inl (MessageDeadLetteredError 1 PERMANENT OrderValidationError), snd ?run)"
    by (simp add: prod_eq_iff)
  moreover have "refusal ?env default_options (JObj []) = None"
    by (simp add: refusal_def default_options_valid structuredClone_def sample_env_def)
  ultimately have "\<exists>dl. publications (snd ?run) = [dl] \<and> get_prop dl ''originalMessage'' = JObj []"
    using retry_rejections [of ?env default_options "JObj []"] by fastforce
  then show "\<exists>e dl. re_operation ?env 1 = Inl e \<and> publications (snd ?run) = [dl] \<and> get_prop dl ''originalMessage'' = JObj []"
    by simp
next
  let ?opts = "default_options\<lparr>ro_maxAttempts := JInt 0\<rparr>"
  obtain x calls where run: "executeWithRetry sample_env ?opts (JObj []) = (x, calls)" by force
  have refused: "refusal sample_env ?opts (JObj [])
      = Some (InvalidRetryOptionsError ''Maximum attempts must be a positive integer'')"
    by (simp add: refusal_def valid_retry_options_def with_default_def)
  obtain y where "x = Inl y" using run executeWithRetry_refused [OF refused] by simp
  with retry_rejections [of sample_env ?opts "JObj []" y calls] run refused
  show "executeWithRetry sample_env ?opts (JObj [])
      = (Inl (InvalidRetryOptionsError ''Maximum attempts must be a positive integer''), [])" by simp
qed

text \<open>
  Back-off bounds.  An accepted random value yields a whole number of
  milliseconds that differs from the exponential delay by at most the jitter
  fraction of it and half a millisecond of rounding, and that is never negative; a
  value outside the unit interval, or not finite, is refused.
\<close>

theorem retry_delay_bounds:
  assumes "0 < base" and "0 \<le> j" and "j \<le> 1"
  shows "(\<exists>u. random = Inr (Fin u) \<and> 0 \<le> u \<and> u \<le> 1) \<longleftrightarrow>
      (\<exists>d. retryDelay attempt base j random = Inr d
        \<and> 0 \<le> d \<and> \<bar>of_int d - base * 2 ^ (attempt - 1)\<bar> \<le> j * (base * 2 ^ (attempt - 1)) + 1 / 2)"
proof (cases "\<exists>u. random = Inr (Fin u) \<and> 0 \<le> u \<and> u \<le> 1")
  case True
  then obtain u where u: "random = Inr (Fin u)" "0 \<le> u" "u \<le> 1" by blast
  let ?b = "base * 2 ^ (attempt - 1)"
  let ?x = "?b * (1 - j + 2 * j * u)"
  have b: "0 < ?b" using assms(1) by simp
  have "?x - ?b = (j * ?b) * (2 * u - 1)"
    by (simp add: algebra_simps)
  then have "\<bar>?x - ?b\<bar> = j * ?b * \<bar>2 * u - 1\<bar>"
    using assms(1,2) by (simp only: abs_mult) simp
  also have "\<dots> \<le> j * ?b * 1"
    using u b assms(2) by (intro mult_left_mono) auto
  finally have near: "\<bar>?x - ?b\<bar> \<le> j * ?b" by simp
  then have "0 \<le> ?x" using b assms(3) mult_right_mono [of j 1 ?b] by linarith
  then have "0 \<le> math_round ?x" by (simp add: math_round_def)
  moreover have "\<bar>of_int (math_round ?x) - ?b\<bar> \<le> j * ?b + 1 / 2"
    using near math_round_bounds [of ?x] by linarith
  ultimately show ?thesis using u by (simp add: retryDelay_def Let_def)
next
  case False
  then show ?thesis
    by (auto simp: retryDelay_def not_less split: sum.splits jsnum.splits if_splits)
qed

theorem retry_delay_bounds_witness:
  "(\<exists>u. (Inr (Fin 1) :: jsnum result) = Inr (Fin u) \<and> 0 \<le> u \<and> u \<le> 1) \<longleftrightarrow>
      (\<exists>d. retryDelay 3 1000 (1 / 5) (Inr (Fin 1)) = Inr d
        \<and> 0 \<le> d \<and> \<bar>of_int d - 1000 * 2 ^ (3 - 1)\<bar> \<le> 1 / 5 * (1000 * 2 ^ (3 - 1)) + (1 / 2 :: rat))"
  by (rule retry_delay_bounds) simp_all

text \<open>The event that settles the handler with a given outcome.\<close>

definition settlement :: "unit result \<Rightarrow> queue_event" where
  "settlement r = (case r of Inl e \<Rightarrow> HandlerRejects e | Inr _ \<Rightarrow> HandlerResolves)"

text \<open>The environment whose dead-letter queue is a queue of this library; a paused
  publication counts with the settlement it receives when it is admitted.\<close>

definition publishes_to :: "'r retry_env \<Rightarrow> nat \<Rightarrow> queue \<Rightarrow> bool" where
  "publishes_to env pid dlq \<longleftrightarrow>
     (\<forall>m. re_publish env m = Inr () \<longrightarrow> accepted (snd (publish pid m dlq)))"

lemma process_resolves:
  assumes "fst (process env opts m) = Inr ()"
    and clock: "\<And>n c e. re_now env 0 \<noteq> Inl (MessageDeadLetteredError n c e)"
  shows "(\<exists>n r. n \<in> set (operations (snd (process env opts m))) \<and> re_operation env n = Inr r)
    \<or> (\<exists>dl. publications (snd (process env opts m)) = [dl] \<and> re_publish env dl = Inr ()
        \<and> get_prop dl ''originalMessage'' = m)"
proof -
  obtain r calls where run: "executeWithRetry env opts m = (r, calls)" by force
  then have calls: "snd (process env opts m) = calls" by (simp add: process_def)
  have settled: "(\<exists>v. r = Inr v) \<or> (\<exists>n c e. r = Inl (MessageDeadLetteredError n c e))"
    using assms(1) run by (simp add: process_def split: sum.splits exn.splits)
  from run show ?thesis
  proof (cases rule: executeWithRetry_loop)
    case (early x)
    then show ?thesis using settled clock by auto
  next
    case (loop t)
    let ?cfg = "retry_config_of opts m t"
    have loop_run: "fst (retry_loop env ?cfg 1) = r" "snd (retry_loop env ?cfg 1) = calls"
      using loop(4) by (metis fst_conv, metis snd_conv)
    from settled show ?thesis
    proof (elim disjE exE)
      fix v assume "r = Inr v"
      then show ?thesis using retry_loop_success [OF le_refl loop(5), of env v] loop_run calls by auto
    next
      fix n c e assume "r = Inl (MessageDeadLetteredError n c e)"
      then show ?thesis
        using retry_loop_error [OF le_refl loop(5), of env] loop_run calls
        by (auto simp: retry_config_of_def)
    qed
  qed
qed

text \<open>
  C17. Acknowledgement safety of the retrying processor.  When the handler that
  \<open>createRetryingQueueProcessor\<close> installs settles, the source message leaves the
  queue only if an attempt of the operation succeeded, or a dead letter that holds
  the original message was published without error and the dead-letter queue
  stores it; otherwise the backlog of the source queue is unchanged.
\<close>

theorem processor_acknowledges_safely:
  assumes "queue_reachable q" and "mq_consumer q = Handling m" and "publishes_to env pid dlq"
    and "\<And>n c e. re_now env 0 \<noteq> Inl (MessageDeadLetteredError n c e)"
    and "queue_inv dlq"
    and "queue_step q (settlement (fst (process env opts m))) = Some (q', os)"
  shows "backlog q' = backlog q
    \<or> m # backlog q' = backlog q
       \<and> ((\<exists>n r. n \<in> set (operations (snd (process env opts m))) \<and> re_operation env n = Inr r)
         \<or> (\<exists>dl. publications (snd (process env opts m)) = [dl]
              \<and> get_prop dl ''originalMessage'' = m
              \<and> backlog (fst (publish pid dl dlq)) = backlog dlq @ [dl]))"
proof (cases "fst (process env opts m)")
  case (Inl e)
  then have "backlog q' = backlog q"
    using assms(2,6) by (auto simp: settlement_def backlog_def)
  then show ?thesis by simp
next
  case (Inr u)
  then have "q' = fst (acknowledge q)"
    using assms(2,6) by (simp add: settlement_def)
  then have removed: "m # backlog q' = backlog q"
    using backlog_acknowledge(1) [OF queue_reachable_inv [OF assms(1)] assms(2)] by simp
  have stored: "backlog (fst (publish pid dl dlq)) = backlog dlq @ [dl]"
    if "re_publish env dl = Inr ()" for dl
    using sink.send_accepted [OF assms(5)] assms(3) that by (simp add: publishes_to_def)
  show ?thesis
    using process_resolves [OF _ assms(4), where opts = opts and m = m] Inr removed stored by auto
qed


definition sample_dlq :: queue where
  "sample_dlq = sample_queue\<lparr>mq_capacity := None\<rparr>"

lemma sample_dlq_inv: "queue_inv sample_dlq"
  by (simp add: sample_dlq_def sample_queue_def queue_inv_def)

definition failing_env :: "string retry_env" where
  "failing_env = \<lparr>re_operation = (\<lambda>k. Inl (PermanentError ''bad'')), re_delay = (\<lambda>k d. Inr ()),
     re_random = (\<lambda>k. Inr (Fin 0)), re_now = (\<lambda>k. Inr ''t''),
     re_publish = (\<lambda>m. if is_plain_object m then Inr () else Inl InvalidQueueMessageError),
     re_str = (\<lambda>v. [])\<rparr>"

theorem processor_acknowledges_safely_witness:
  "\<exists>q' os. queue_step sample_busy
        (settlement (fst (process failing_env default_options (sample_message ''1'')))) = Some (q', os)
    \<and> (backlog q' = backlog sample_busy
      \<or> sample_message ''1'' # backlog q' = backlog sample_busy
       \<and> ((\<exists>n r. n \<in> set (operations (snd (process failing_env default_options (sample_message ''1''))))
              \<and> re_operation failing_env n = Inr r)
         \<or> (\<exists>dl. publications (snd (process failing_env default_options (sample_message ''1''))) = [dl]
              \<and> get_prop dl ''originalMessage'' = sample_message ''1''
              \<and> backlog (fst (publish 5 dl sample_dlq)) = backlog sample_dlq @ [dl])))"
proof -
  have handling: "mq_consumer sample_busy = Handling (sample_message ''1'')"
    by (simp add: sample_busy_def)
  then obtain q' os where step: "queue_step sample_busy
      (settlement (fst (process failing_env default_options (sample_message ''1'')))) = Some (q', os)"
    by (cases "fst (process failing_env default_options (sample_message ''1''))";
      cases "acknowledge sample_busy") (auto simp: settlement_def)
  have "publishes_to failing_env 5 sample_dlq"
    by (auto simp: publishes_to_def failing_env_def publish_def sample_dlq_def sample_queue_def full_iff
        split: if_splits)
  moreover have "re_now failing_env 0 \<noteq> Inl (MessageDeadLetteredError n c e)" for n c e
    by (simp add: failing_env_def)
  ultimately show ?thesis
    using processor_acknowledges_safely [OF sample_busy_reachable handling _ _ sample_dlq_inv step]
      step by blast
qed

end
