(* ===== verification/Number_Parsing.thy ===== *)
theory Number_Parsing
  imports Errors
begin

text \<open>
  \<open>Number(text)\<close> of the standard library, as the worker pool applies it to its
  environment variable: white space around the literal is ignored, an empty text
  is zero, and anything but a decimal, hexadecimal, octal or binary literal or
  \<open>Infinity\<close> is \<open>NaN\<close>.  The value is the exact rational the literal denotes.
\<close>

definition is_digit :: "char \<Rightarrow> bool" where
  "is_digit c = (48 \<le> (of_char c :: nat) \<and> of_char c \<le> (57 :: nat))"

text \<open>The value of a digit in bases up to sixteen; sixteen stands for no digit.\<close>

definition radix_digit :: "char \<Rightarrow> nat" where
  "radix_digit c =
     (let n = (of_char c :: nat) in
      if 48 \<le> n \<and> n \<le> 57 then n - 48
      else if 97 \<le> n \<and> n \<le> 102 then n - 87
      else if 65 \<le> n \<and> n \<le> 70 then n - 55 else 16)"

definition parse_radix :: "nat \<Rightarrow> string \<Rightarrow> jsnum" where
  "parse_radix b s =
     (if s \<noteq> [] \<and> list_all (\<lambda>c. radix_digit c < b) s
      then Fin (of_nat (foldl (\<lambda>a c. b * a + radix_digit c) 0 s)) else NaN)"

definition split_sign :: "string \<Rightarrow> bool \<times> string" where
  "split_sign s = (case s of
      c # cs \<Rightarrow> if c = CHR ''-'' then (True, cs) else if c = CHR ''+'' then (False, cs) else (False, s)
    | [] \<Rightarrow> (False, []))"

definition parse_exponent :: "string \<Rightarrow> int option" where
  "parse_exponent s = (case s of
      [] \<Rightarrow> Some 0
    | c # cs \<Rightarrow>
        if c \<noteq> CHR ''e'' \<and> c \<noteq> CHR ''E'' then None
        else (let (neg, ds) = split_sign cs in
              if ds \<noteq> [] \<and> list_all is_digit ds
              then Some (if neg then - int (read_nat ds) else int (read_nat ds)) else None))"

definition parse_unsigned :: "string \<Rightarrow> jsnum" where
  "parse_unsigned s =
     (if s = ''Infinity'' then PosInfinity
      else (let ip = takeWhile is_digit s; r1 = dropWhile is_digit s;
                (fp, r2) = (case r1 of
                    c # cs \<Rightarrow> if c = CHR ''.'' then (takeWhile is_digit cs, dropWhile is_digit cs)
                             else ([], r1)
                  | [] \<Rightarrow> ([], []))
            in if ip = [] \<and> fp = [] then NaN
               else (case parse_exponent r2 of
                       None \<Rightarrow> NaN
                     | Some k \<Rightarrow> Fin (of_nat (read_nat (ip @ fp)) / 10 ^ length fp * 10 powi k))))"

definition num_negate :: "jsnum \<Rightarrow> jsnum" where
  "num_negate n = (case n of Fin r \<Rightarrow> Fin (- r) | PosInfinity \<Rightarrow> NegInfinity
     | NegInfinity \<Rightarrow> PosInfinity | NaN \<Rightarrow> NaN)"

definition number_of_string :: "string \<Rightarrow> jsnum" where
  "number_of_string text =
     (let s = trim text; p = to_lower (take 2 s) in
      if s = [] then Fin 0
      else if p = ''0x'' then parse_radix 16 (drop 2 s)
      else if p = ''0o'' then parse_radix 8 (drop 2 s)
      else if p = ''0b'' then parse_radix 2 (drop 2 s)
      else (let (neg, u) = split_sign s
            in if neg then num_negate (parse_unsigned u) else parse_unsigned u))"

section \<open>Reading back printed naturals\<close>

lemma of_char_digit_char: "d < 10 \<Longrightarrow> (of_char (digit_char d) :: nat) = 48 + d"
  by (simp add: digit_char_def)

lemma is_digit_digit_char: "d < 10 \<Longrightarrow> is_digit (digit_char d)"
  by (simp add: is_digit_def of_char_digit_char)

lemma show_nat_digits: "list_all is_digit (show_nat n)"
proof (induction n rule: show_nat.induct)
  case (1 n)
  then show ?case by (simp add: show_nat.simps [of n] is_digit_digit_char)
qed

lemma show_nat_nonempty [simp]: "show_nat n \<noteq> []"
  by (simp add: show_nat.simps [of n])

lemma is_digit_neq:
  assumes "is_digit c"
  shows "\<not> js_space c" "c \<noteq> CHR ''-''" "c \<noteq> CHR ''+''" "lower_char c = c"
    "c \<noteq> CHR ''x''" "c \<noteq> CHR ''o''" "c \<noteq> CHR ''b''" "c \<noteq> CHR ''I''"
  using assms by (auto simp: is_digit_def js_space_def lower_char_def Let_def)

lemma trim_no_space:
  assumes "\<forall>c\<in>set s. \<not> js_space c"
  shows "trim s = s"
proof -
  have "dropWhile js_space t = t" if "\<forall>c\<in>set t. \<not> js_space c" for t
    using that by (cases t) auto
  from this [of s] this [of "rev s"] show ?thesis using assms by (simp add: trim_def)
qed

lemma parse_unsigned_digits:
  assumes "list_all is_digit s" and "s \<noteq> []"
  shows "parse_unsigned s = Fin (of_nat (read_nat s))"
proof -
  have "s \<noteq> ''Infinity''" using assms(1) by (auto simp: is_digit_def)
  moreover have "takeWhile is_digit s = s" "dropWhile is_digit s = []"
    using assms(1) by (simp_all add: list_all_iff)
  ultimately show ?thesis using assms(2)
    by (simp only: parse_unsigned_def Let_def list.case prod.case) (simp add: parse_exponent_def)
qed

lemma number_of_show_nat [simp]: "number_of_string (show_nat n) = Fin (of_nat n)"
proof -
  let ?s = "show_nat n"
  have digits: "\<forall>c\<in>set ?s. is_digit c" using show_nat_digits by (simp add: list_all_iff)
  then have trim: "trim ?s = ?s" by (intro trim_no_space) (auto dest: is_digit_neq(1))
  obtain c cs where s: "?s = c # cs" by (cases ?s) auto
  have c: "is_digit c" using digits s by simp
  have "to_lower (take 2 ?s) = take 2 ?s"
    using digits by (auto simp: to_lower_def dest!: in_set_takeD intro!: map_idI is_digit_neq(4))
  then have low: "set (to_lower (take 2 ?s)) \<subseteq> {c. is_digit c}"
    using digits by (auto dest!: in_set_takeD)
  have "to_lower (take 2 ?s) \<noteq> p" if "p \<in> {''0x'', ''0o'', ''0b''}" for p
    using low that is_digit_neq(5-7) by fastforce
  then have "to_lower (take 2 ?s) \<noteq> ''0x''" "to_lower (take 2 ?s) \<noteq> ''0o''"
    "to_lower (take 2 ?s) \<noteq> ''0b''"
    by simp_all
  moreover have "split_sign ?s = (False, ?s)"
    using is_digit_neq [OF c] by (simp add: s split_sign_def)
  ultimately show ?thesis
    using parse_unsigned_digits [OF show_nat_digits, of n]
    by (simp add: number_of_string_def trim Let_def)
qed

end
