(* ===== verification/Worker_Pool.thy ===== *)
theory Worker_Pool
  imports Number_Parsing "HOL-Library.Multiset"
begin

text \<open>
  The worker pool of \<open>apps/worker/src/worker-pool.js\<close>.  The record holds the
  variables that \<open>createWorkerPool\<close> closes over, the suspended \<open>processJob\<close>
  coroutines (with their local \<open>jobStartedAt\<close>) and the number of clock readings
  taken so far.  An event is one turn of the event loop: a call of \<open>submit\<close>,
  \<open>shutdown\<close> or \<open>getMetrics\<close>, or the settlement of one handler's promise.  The
  environment says which handler calls throw before they return a promise and
  what the clock reads; a handler does not call back into its own pool before it
  returns.
\<close>

section \<open>Resolving the concurrency\<close>

definition defaultConcurrency :: jsval where
  "defaultConcurrency = JInt 5"

definition resolveWorkerConcurrency :: "jsval \<Rightarrow> nat result" where
  "resolveWorkerConcurrency value =
     (let candidate = (if value = JUndefined then defaultConcurrency else value);
          concurrency = (case candidate of JStr s \<Rightarrow> JNum (number_of_string s) | v \<Rightarrow> v)
      in if is_positive_integer concurrency then Inr (nat (int_of_js concurrency))
         else Inl InvalidWorkerConcurrencyError)"

section \<open>State\<close>

type_synonym job_entry = "nat \<times> jsval"

datatype shutdown_promise = NoShutdown | ShutdownPending | ShutdownDone

record pool_env =
  pe_throws :: "jsval \<Rightarrow> exn option"
  pe_now :: "nat \<Rightarrow> rat"

record pool =
  wp_maximumWorkers :: nat
  wp_pendingJobs :: "job_entry list"
  wp_startedAt :: rat
  wp_acceptingJobs :: bool
  wp_activeWorkers :: nat
  wp_dispatching :: bool
  wp_successfulJobs :: nat
  wp_failedJobs :: nat
  wp_totalProcessingTimeMs :: rat
  wp_shutdown :: shutdown_promise
  wp_running :: "(job_entry \<times> rat) list"
  wp_nextId :: nat
  wp_ticks :: nat

datatype pool_out =
    JobStarted nat jsval
  | JobResolved nat jsval
  | JobRejected nat exn
  | SubmitRejected exn
  | PoolShutdownResolved

definition createWorkerPool :: "pool_env \<Rightarrow> jsval \<Rightarrow> pool result" where
  "createWorkerPool env concurrency = (case resolveWorkerConcurrency concurrency of
      Inl e \<Rightarrow> Inl e
    | Inr maximumWorkers \<Rightarrow> Inr
        \<lparr>wp_maximumWorkers = maximumWorkers, wp_pendingJobs = [], wp_startedAt = pe_now env 0,
         wp_acceptingJobs = True, wp_activeWorkers = 0, wp_dispatching = False,
         wp_successfulJobs = 0, wp_failedJobs = 0, wp_totalProcessingTimeMs = 0,
         wp_shutdown = NoShutdown, wp_running = [], wp_nextId = 0, wp_ticks = 1\<rparr>)"

section \<open>Operations\<close>

definition completeShutdownWhenIdle :: "pool \<Rightarrow> pool \<times> pool_out list" where
  "completeShutdownWhenIdle p =
     (if \<not> wp_acceptingJobs p \<and> wp_activeWorkers p = 0 \<and> wp_pendingJobs p = []
         \<and> wp_shutdown p = ShutdownPending
      then (p\<lparr>wp_shutdown := ShutdownDone\<rparr>, [PoolShutdownResolved]) else (p, []))"

text \<open>
  \<open>processJob\<close> after its handler settled with \<open>r\<close>: the counters, the \<open>finally\<close>
  block, and last the entry's own promise.  \<open>disp\<close> is what the call of \<open>dispatch\<close>
  in the \<open>finally\<close> block does.
\<close>

definition finishJob ::
  "(pool \<Rightarrow> pool \<times> pool_out list) \<Rightarrow> pool_env \<Rightarrow> job_entry \<Rightarrow> rat \<Rightarrow> jsval result \<Rightarrow> pool
     \<Rightarrow> pool \<times> pool_out list" where
  "finishJob disp env entry jobStartedAt r p =
     (let p1 = (case r of
                  Inr _ \<Rightarrow> p\<lparr>wp_successfulJobs := wp_successfulJobs p + 1\<rparr>
                | Inl _ \<Rightarrow> p\<lparr>wp_failedJobs := wp_failedJobs p + 1\<rparr>);
          p2 = p1\<lparr>wp_totalProcessingTimeMs := wp_totalProcessingTimeMs p1
                    + max 0 (pe_now env (wp_ticks p1) - jobStartedAt),
                  wp_ticks := wp_ticks p1 + 1,
                  wp_activeWorkers := wp_activeWorkers p1 - 1\<rparr>;
          (p3, os) = disp p2;
          (p4, os') = completeShutdownWhenIdle p3
      in (p4, os @ os' @ [case r of Inr v \<Rightarrow> JobResolved (fst entry) v
                                  | Inl e \<Rightarrow> JobRejected (fst entry) e]))"

text \<open>
  \<open>processJob\<close> up to its suspension.  A handler that throws at once runs the rest of
  the coroutine inside the loop of \<open>dispatch\<close>, where the nested \<open>dispatch\<close> returns
  immediately because \<open>dispatching\<close> is set (lemma \<open>dispatch_nested\<close>).
\<close>

definition processJob :: "pool_env \<Rightarrow> job_entry \<Rightarrow> pool \<Rightarrow> pool \<times> pool_out list" where
  "processJob env entry p =
     (let jobStartedAt = pe_now env (wp_ticks p);
          p1 = p\<lparr>wp_ticks := wp_ticks p + 1\<rparr>
      in case pe_throws env (snd entry) of
           None \<Rightarrow> (p1\<lparr>wp_running := wp_running p1 @ [(entry, jobStartedAt)]\<rparr>,
                    [JobStarted (fst entry) (snd entry)])
         | Some e \<Rightarrow> (let (p2, os) = finishJob (\<lambda>s. (s, [])) env entry jobStartedAt (Inl e) p1
                     in (p2, JobStarted (fst entry) (snd entry) # os)))"

lemma wp_pendingJobs_completeShutdown [simp]:
  "wp_pendingJobs (fst (completeShutdownWhenIdle p)) = wp_pendingJobs p"
  by (simp add: completeShutdownWhenIdle_def)

lemma wp_pendingJobs_processJob [simp]:
  "wp_pendingJobs (fst (processJob env entry p)) = wp_pendingJobs p"
  by (simp add: processJob_def finishJob_def completeShutdownWhenIdle_def Let_def split: option.splits)

function dispatch_loop :: "pool_env \<Rightarrow> pool \<Rightarrow> pool \<times> pool_out list" where
  "dispatch_loop env p =
     (if wp_activeWorkers p < wp_maximumWorkers p \<and> wp_pendingJobs p \<noteq> [] then
        (let entry = hd (wp_pendingJobs p);
             r1 = processJob env entry (p\<lparr>wp_pendingJobs := tl (wp_pendingJobs p),
                                          wp_activeWorkers := wp_activeWorkers p + 1\<rparr>);
             r2 = dispatch_loop env (fst r1)
         in (fst r2, snd r1 @ snd r2))
      else (p, []))"
  by pat_completeness auto
termination
  by (relation "measure (\<lambda>(env, p). length (wp_pendingJobs p))") (auto simp: neq_Nil_conv)

declare dispatch_loop.simps [simp del]

definition dispatch :: "pool_env \<Rightarrow> pool \<Rightarrow> pool \<times> pool_out list" where
  "dispatch env p =
     (if wp_dispatching p then (p, [])
      else (let (p1, os) = dispatch_loop env (p\<lparr>wp_dispatching := True\<rparr>)
            in (p1\<lparr>wp_dispatching := False\<rparr>, os)))"

lemma dispatch_nested: "wp_dispatching p \<Longrightarrow> dispatch env p = (\<lambda>s. (s, [])) p"
  by (simp add: dispatch_def)

definition submit :: "pool_env \<Rightarrow> jsval \<Rightarrow> pool \<Rightarrow> pool \<times> pool_out list" where
  "submit env job p =
     (if \<not> wp_acceptingJobs p then (p, [SubmitRejected WorkerPoolShutdownError])
      else dispatch env (p\<lparr>wp_pendingJobs := wp_pendingJobs p @ [(wp_nextId p, job)],
                           wp_nextId := wp_nextId p + 1\<rparr>))"

record pool_metrics =
  pm_concurrency :: nat
  pm_queueDepth :: nat
  pm_activeWorkers :: nat
  pm_completedJobs :: nat
  pm_successfulJobs :: nat
  pm_failedJobs :: nat
  pm_totalProcessingTimeMs :: rat
  pm_averageProcessingTimeMs :: rat
  pm_throughputPerSecond :: rat

definition getPoolMetrics :: "pool_env \<Rightarrow> pool \<Rightarrow> pool \<times> pool_metrics" where
  "getPoolMetrics env p =
     (let completedJobs = wp_successfulJobs p + wp_failedJobs p;
          elapsedTimeMs = max 0 (pe_now env (wp_ticks p) - wp_startedAt p)
      in (p\<lparr>wp_ticks := wp_ticks p + 1\<rparr>,
          \<lparr>pm_concurrency = wp_maximumWorkers p, pm_queueDepth = length (wp_pendingJobs p),
           pm_activeWorkers = wp_activeWorkers p, pm_completedJobs = completedJobs,
           pm_successfulJobs = wp_successfulJobs p, pm_failedJobs = wp_failedJobs p,
           pm_totalProcessingTimeMs = wp_totalProcessingTimeMs p,
           pm_averageProcessingTimeMs = (if completedJobs = 0 then 0
             else wp_totalProcessingTimeMs p / of_nat completedJobs),
           pm_throughputPerSecond = (if elapsedTimeMs = 0 then 0
             else (of_nat completedJobs * 1000) / elapsedTimeMs)\<rparr>))"

definition shutdownPool :: "pool \<Rightarrow> pool \<times> pool_out list" where
  "shutdownPool p =
     completeShutdownWhenIdle
       (p\<lparr>wp_acceptingJobs := False,
          wp_shutdown := (if wp_shutdown p = NoShutdown then ShutdownPending else wp_shutdown p)\<rparr>)"

section \<open>Steps\<close>

datatype pool_event =
    Submit jsval
  | HandlerSettles nat "jsval result"
  | ReadMetrics
  | ShutdownPool

definition find_running :: "nat \<Rightarrow> pool \<Rightarrow> (job_entry \<times> rat) option" where
  "find_running i p = find (\<lambda>x. fst (fst x) = i) (wp_running p)"

fun pool_step :: "pool_env \<Rightarrow> pool \<Rightarrow> pool_event \<Rightarrow> (pool \<times> pool_out list) option" where
  "pool_step env p (Submit job) = Some (submit env job p)"
| "pool_step env p (HandlerSettles i r) = (case find_running i p of
      None \<Rightarrow> None
    | Some x \<Rightarrow> Some (finishJob (dispatch env) env (fst x) (snd x) r
                       (p\<lparr>wp_running := remove1 x (wp_running p)\<rparr>)))"
| "pool_step env p ReadMetrics = Some (fst (getPoolMetrics env p), [])"
| "pool_step env p ShutdownPool = Some (shutdownPool p)"

fun pool_exec :: "pool_env \<Rightarrow> pool \<Rightarrow> pool_event list \<Rightarrow> (pool \<times> pool_out list) option" where
  "pool_exec env p [] = Some (p, [])"
| "pool_exec env p (e # es) = (case pool_step env p e of None \<Rightarrow> None
     | Some (p', os) \<Rightarrow> (case pool_exec env p' es of None \<Rightarrow> None
         | Some (p'', os') \<Rightarrow> Some (p'', os @ os')))"

inductive pool_reachable :: "pool_env \<Rightarrow> pool \<Rightarrow> bool" for env where
  pool_created: "createWorkerPool env concurrency = Inr p \<Longrightarrow> pool_reachable env p"
| pool_stepped: "pool_reachable env p \<Longrightarrow> pool_step env p e = Some (p', os) \<Longrightarrow>
     pool_reachable env p'"

section \<open>What a piece of the pool's code does to the jobs\<close>

definition started :: "pool_out list \<Rightarrow> job_entry list" where
  "started os = concat (map (\<lambda>x. case x of JobStarted i j \<Rightarrow> [(i, j)] | _ \<Rightarrow> []) os)"

definition resolved :: "pool_out list \<Rightarrow> nat list" where
  "resolved os = concat (map (\<lambda>x. case x of JobResolved i _ \<Rightarrow> [i] | _ \<Rightarrow> []) os)"

definition rejected :: "pool_out list \<Rightarrow> nat list" where
  "rejected os = concat (map (\<lambda>x. case x of JobRejected i _ \<Rightarrow> [i] | _ \<Rightarrow> []) os)"

definition running_ids :: "pool \<Rightarrow> nat list" where
  "running_ids p = map (\<lambda>x. fst (fst x)) (wp_running p)"

lemma job_logs_simps [simp]:
  "started [] = []" "resolved [] = []" "rejected [] = []"
  "started (JobStarted i j # os) = (i, j) # started os" "started (JobResolved i v # os) = started os"
  "started (JobRejected i e # os) = started os" "started (SubmitRejected e # os) = started os"
  "started (PoolShutdownResolved # os) = started os"
  "resolved (JobStarted i j # os) = resolved os" "resolved (JobResolved i v # os) = i # resolved os"
  "resolved (JobRejected i e # os) = resolved os" "resolved (SubmitRejected e # os) = resolved os"
  "resolved (PoolShutdownResolved # os) = resolved os"
  "rejected (JobStarted i j # os) = rejected os" "rejected (JobResolved i v # os) = rejected os"
  "rejected (JobRejected i e # os) = i # rejected os" "rejected (SubmitRejected e # os) = rejected os"
  "rejected (PoolShutdownResolved # os) = rejected os"
  "started (os @ os') = started os @ started os'" "resolved (os @ os') = resolved os @ resolved os'"
  "rejected (os @ os') = rejected os @ rejected os'"
  by (simp_all add: started_def resolved_def rejected_def)

text \<open>
  The accounting of a piece of code that is entered with the jobs \<open>extra\<close> in
  flight beside the running ones: starts come off the front of the pending list,
  and every job that was in flight or started is running or settled.
\<close>

definition pool_effect :: "nat list \<Rightarrow> pool \<Rightarrow> pool_out list \<Rightarrow> pool \<Rightarrow> bool" where
  "pool_effect extra p os p' \<longleftrightarrow>
     started os @ wp_pendingJobs p' = wp_pendingJobs p
   \<and> mset (running_ids p') + mset (resolved os) + mset (rejected os)
       = mset (running_ids p) + mset extra + mset (map fst (started os))
   \<and> wp_successfulJobs p' = wp_successfulJobs p + length (resolved os)
   \<and> wp_failedJobs p' = wp_failedJobs p + length (rejected os)
   \<and> wp_maximumWorkers p' = wp_maximumWorkers p \<and> wp_acceptingJobs p' = wp_acceptingJobs p
   \<and> wp_nextId p' = wp_nextId p \<and> wp_dispatching p' = wp_dispatching p"

text \<open>The part of the invariant that holds inside the dispatch loop too.\<close>

definition pool_ok :: "pool \<Rightarrow> bool" where
  "pool_ok p \<longleftrightarrow> wp_activeWorkers p = length (wp_running p)
     \<and> wp_activeWorkers p \<le> wp_maximumWorkers p \<and> 0 < wp_maximumWorkers p
     \<and> 0 \<le> wp_totalProcessingTimeMs p
     \<and> (wp_acceptingJobs p \<longleftrightarrow> wp_shutdown p = NoShutdown)
     \<and> (wp_shutdown p = ShutdownDone \<longrightarrow> wp_activeWorkers p = 0 \<and> wp_pendingJobs p = [])"

text \<open>One worker slot is taken by a job that is not in the running list.\<close>

definition pool_busy :: "pool \<Rightarrow> bool" where
  "pool_busy p \<longleftrightarrow> 0 < wp_activeWorkers p \<and> wp_shutdown p \<noteq> ShutdownDone
     \<and> wp_activeWorkers p \<le> wp_maximumWorkers p
     \<and> pool_ok (p\<lparr>wp_activeWorkers := wp_activeWorkers p - 1\<rparr>)"

lemma completeShutdown_effect: "pool_effect [] p (snd (completeShutdownWhenIdle p)) (fst (completeShutdownWhenIdle p))"
  by (simp add: completeShutdownWhenIdle_def pool_effect_def running_ids_def)

lemma completeShutdown_ok: "pool_ok p \<Longrightarrow> pool_ok (fst (completeShutdownWhenIdle p))"
  by (auto simp: completeShutdownWhenIdle_def pool_ok_def)

lemma pool_effect_trans:
  assumes "pool_effect extra p os p1" and "pool_effect [] p1 os1 p2"
  shows "pool_effect extra p (os @ os1) p2"
proof -
  have "mset (running_ids p2) + mset (resolved (os @ os1)) + mset (rejected (os @ os1))
      = mset (running_ids p) + mset extra + mset (map fst (started (os @ os1)))"
  proof (rule multiset_eqI)
    fix x
    have "count (mset (running_ids p1) + mset (resolved os) + mset (rejected os)) x
        = count (mset (running_ids p) + mset extra + mset (map fst (started os))) x"
      and "count (mset (running_ids p2) + mset (resolved os1) + mset (rejected os1)) x
        = count (mset (running_ids p1) + mset [] + mset (map fst (started os1))) x"
      using assms by (auto simp: pool_effect_def)
    then show "count (mset (running_ids p2) + mset (resolved (os @ os1)) + mset (rejected (os @ os1))) x
        = count (mset (running_ids p) + mset extra + mset (map fst (started (os @ os1)))) x"
      by simp
  qed
  then show ?thesis using assms by (simp add: pool_effect_def)
qed

lemma finishJob_effect:
  assumes "\<And>s. pool_effect [] s (snd (disp s)) (fst (disp s))"
  shows "pool_effect [fst entry] p (snd (finishJob disp env entry t r p))
    (fst (finishJob disp env entry t r p))"
proof -
  define p1 where "p1 = (case r of
      Inr _ \<Rightarrow> p\<lparr>wp_successfulJobs := wp_successfulJobs p + 1\<rparr>
    | Inl _ \<Rightarrow> p\<lparr>wp_failedJobs := wp_failedJobs p + 1\<rparr>)"
  define p2 where "p2 = p1\<lparr>wp_totalProcessingTimeMs := wp_totalProcessingTimeMs p1
      + max 0 (pe_now env (wp_ticks p1) - t), wp_ticks := wp_ticks p1 + 1,
      wp_activeWorkers := wp_activeWorkers p1 - 1\<rparr>"
  obtain p3 os where p3: "disp p2 = (p3, os)" by force
  obtain p4 os' where p4: "completeShutdownWhenIdle p3 = (p4, os')" by force
  have run: "finishJob disp env entry t r p = (p4, os @ os' @
      [case r of Inr v \<Rightarrow> JobResolved (fst entry) v | Inl e \<Rightarrow> JobRejected (fst entry) e])"
    using p3 p4 by (simp add: finishJob_def Let_def p1_def p2_def)
  have "pool_effect [] p2 (os @ os') p4"
    using pool_effect_trans [of "[]" p2 os p3 os' p4] assms [of p2] p3
      completeShutdown_effect [of p3] p4 by simp
  then show ?thesis
    unfolding run by (cases r) (auto simp: pool_effect_def running_ids_def p2_def p1_def)
qed

lemma finishJob_ok:
  assumes "\<And>s. pool_ok s \<Longrightarrow> pool_ok (fst (disp s))" and "pool_busy p"
  shows "pool_ok (fst (finishJob disp env entry t r p))"
proof -
  define p1 where "p1 = (case r of
      Inr _ \<Rightarrow> p\<lparr>wp_successfulJobs := wp_successfulJobs p + 1\<rparr>
    | Inl _ \<Rightarrow> p\<lparr>wp_failedJobs := wp_failedJobs p + 1\<rparr>)"
  define p2 where "p2 = p1\<lparr>wp_totalProcessingTimeMs := wp_totalProcessingTimeMs p1
      + max 0 (pe_now env (wp_ticks p1) - t), wp_ticks := wp_ticks p1 + 1,
      wp_activeWorkers := wp_activeWorkers p1 - 1\<rparr>"
  have "pool_ok p2"
    using assms(2) by (cases r) (simp_all add: pool_busy_def pool_ok_def p1_def p2_def)
  then have "pool_ok (fst (completeShutdownWhenIdle (fst (disp p2))))"
    by (intro completeShutdown_ok assms(1))
  then show ?thesis
    by (simp add: finishJob_def Let_def split_beta p1_def p2_def)
qed

lemma processJob_effect:
  "pool_effect [] (p\<lparr>wp_pendingJobs := entry # wp_pendingJobs p\<rparr>)
     (snd (processJob env entry p)) (fst (processJob env entry p))"
proof (cases "pe_throws env (snd entry)")
  case None
  then show ?thesis by (simp add: processJob_def Let_def pool_effect_def running_ids_def)
next
  case (Some e)
  let ?p1 = "p\<lparr>wp_ticks := wp_ticks p + 1\<rparr>"
  obtain p2 os where run: "finishJob (\<lambda>s. (s, [])) env entry (pe_now env (wp_ticks p)) (Inl e) ?p1
      = (p2, os)" by force
  have "pool_effect [fst entry] ?p1 os p2"
    using finishJob_effect [of "\<lambda>s. (s, [])" entry ?p1 env "pe_now env (wp_ticks p)" "Inl e"] run
    by (simp add: pool_effect_def)
  then show ?thesis
    using run Some by (simp add: processJob_def Let_def pool_effect_def running_ids_def)
qed

lemma processJob_ok: "pool_busy p \<Longrightarrow> pool_ok (fst (processJob env entry p))"
proof (cases "pe_throws env (snd entry)")
  case None
  moreover assume "pool_busy p"
  ultimately show ?thesis by (auto simp: processJob_def Let_def pool_ok_def pool_busy_def)
next
  case (Some e)
  assume "pool_busy p"
  then have "pool_busy (p\<lparr>wp_ticks := wp_ticks p + 1\<rparr>)"
    by (simp add: pool_busy_def pool_ok_def)
  then have "pool_ok (fst (finishJob (\<lambda>s. (s, [])) env entry (pe_now env (wp_ticks p)) (Inl e)
      (p\<lparr>wp_ticks := wp_ticks p + 1\<rparr>)))"
    by (rule finishJob_ok [rotated]) simp
  with Some show ?thesis by (auto simp: processJob_def Let_def split: prod.split)
qed

lemma dispatch_loop_effect:
  "pool_effect [] p (snd (dispatch_loop env p)) (fst (dispatch_loop env p))"
proof (induction env p rule: dispatch_loop.induct)
  case (1 env p)
  show ?case
  proof (cases "wp_activeWorkers p < wp_maximumWorkers p \<and> wp_pendingJobs p \<noteq> []")
    case True
    then obtain entry rest where pending: "wp_pendingJobs p = entry # rest"
      by (auto simp: neq_Nil_conv)
    let ?p1 = "p\<lparr>wp_pendingJobs := rest, wp_activeWorkers := wp_activeWorkers p + 1\<rparr>"
    let ?r = "processJob env entry ?p1"
    have "pool_effect [] p (snd ?r) (fst ?r)"
      using processJob_effect [where p = ?p1 and entry = entry and env = env] pending
      by (simp add: pool_effect_def running_ids_def)
    moreover have "pool_effect [] (fst ?r) (snd (dispatch_loop env (fst ?r))) (fst (dispatch_loop env (fst ?r)))"
      using "1.IH" [OF True refl refl] pending by simp
    ultimately show ?thesis
      using True pending pool_effect_trans
      by (simp add: dispatch_loop.simps [of env p] Let_def)
  next
    case False
    then show ?thesis by (auto simp: dispatch_loop.simps [of env p] pool_effect_def)
  qed
qed

lemma dispatch_loop_ok: "pool_ok p \<Longrightarrow> pool_ok (fst (dispatch_loop env p))"
proof (induction env p rule: dispatch_loop.induct)
  case (1 env p)
  show ?case
  proof (cases "wp_activeWorkers p < wp_maximumWorkers p \<and> wp_pendingJobs p \<noteq> []")
    case True
    then have "pool_busy (p\<lparr>wp_pendingJobs := tl (wp_pendingJobs p),
        wp_activeWorkers := wp_activeWorkers p + 1\<rparr>)"
      using "1.prems" by (auto simp: pool_busy_def pool_ok_def)
    from processJob_ok [OF this] show ?thesis
      using True "1.IH" [OF True refl refl]
      by (simp add: dispatch_loop.simps [of env p] Let_def)
  next
    case False
    then show ?thesis using "1.prems" by (auto simp: dispatch_loop.simps [of env p])
  qed
qed

text \<open>The loop stops only when all workers are busy or nothing is pending.\<close>

lemma dispatch_loop_stops:
  "wp_maximumWorkers p \<le> wp_activeWorkers (fst (dispatch_loop env p))
   \<or> wp_pendingJobs (fst (dispatch_loop env p)) = []"
proof (induction env p rule: dispatch_loop.induct)
  case (1 env p)
  show ?case
  proof (cases "wp_activeWorkers p < wp_maximumWorkers p \<and> wp_pendingJobs p \<noteq> []")
    case True
    let ?p1 = "p\<lparr>wp_pendingJobs := tl (wp_pendingJobs p),
        wp_activeWorkers := wp_activeWorkers p + 1\<rparr>"
    have "wp_maximumWorkers (fst (processJob env (hd (wp_pendingJobs p)) ?p1)) = wp_maximumWorkers p"
      using processJob_effect [where p = ?p1 and env = env] by (simp add: pool_effect_def)
    then show ?thesis
      using True "1.IH" [OF True refl refl] by (simp add: dispatch_loop.simps [of env p] Let_def)
  next
    case False
    then show ?thesis by (auto simp: dispatch_loop.simps [of env p])
  qed
qed

lemma dispatch_effect: "pool_effect [] p (snd (dispatch env p)) (fst (dispatch env p))"
  using dispatch_loop_effect [of "p\<lparr>wp_dispatching := True\<rparr>" env]
  by (auto simp: dispatch_def pool_effect_def running_ids_def split: prod.split)

lemma dispatch_ok: "pool_ok p \<Longrightarrow> pool_ok (fst (dispatch env p))"
  using dispatch_loop_ok [of "p\<lparr>wp_dispatching := True\<rparr>" env]
  by (auto simp: dispatch_def pool_ok_def split: prod.split)

lemma dispatch_stops:
  "\<not> wp_dispatching p \<Longrightarrow> wp_maximumWorkers p \<le> wp_activeWorkers (fst (dispatch env p))
   \<or> wp_pendingJobs (fst (dispatch env p)) = []"
  using dispatch_loop_stops [of "p\<lparr>wp_dispatching := True\<rparr>" env]
  by (auto simp: dispatch_def split: prod.split)

section \<open>The pool invariant\<close>

text \<open>
  Between two turns no dispatch is running, a job waits only when every worker is
  busy, and a requested shutdown is unresolved only while a worker is active.
\<close>

definition pool_inv :: "pool \<Rightarrow> bool" where
  "pool_inv p \<longleftrightarrow> pool_ok p \<and> \<not> wp_dispatching p
     \<and> (wp_pendingJobs p \<noteq> [] \<longrightarrow> wp_activeWorkers p = wp_maximumWorkers p)
     \<and> (wp_shutdown p = ShutdownPending \<longrightarrow> 0 < wp_activeWorkers p)"

lemma resolveWorkerConcurrency_positive:
  "resolveWorkerConcurrency v = Inr n \<Longrightarrow> 0 < n"
  by (auto simp: resolveWorkerConcurrency_def Let_def elim!: is_positive_integerE split: if_splits)

lemma pool_inv_created [inv_intros]: "createWorkerPool env c = Inr p \<Longrightarrow> pool_inv p"
  by (auto simp: createWorkerPool_def pool_inv_def pool_ok_def resolveWorkerConcurrency_positive
      split: sum.splits)

text \<open>Work conservation and shutdown completion, after a dispatch and the final idle check.\<close>

lemma pool_inv_dispatched:
  assumes "pool_ok p" and "\<not> wp_dispatching p"
  shows "pool_inv (fst (completeShutdownWhenIdle (fst (dispatch env p))))"
proof -
  let ?q = "fst (dispatch env p)"
  have ok: "pool_ok ?q" by (rule dispatch_ok [OF assms(1)])
  moreover have "\<not> wp_dispatching ?q" "wp_maximumWorkers ?q = wp_maximumWorkers p"
    using dispatch_effect [of p env] assms(2) by (auto simp: pool_effect_def)
  moreover have "wp_pendingJobs ?q \<noteq> [] \<Longrightarrow> wp_activeWorkers ?q = wp_maximumWorkers ?q"
    using dispatch_stops [OF assms(2), of env] ok calculation(3) by (auto simp: pool_ok_def)
  ultimately show ?thesis
    by (auto simp: pool_inv_def pool_ok_def completeShutdownWhenIdle_def)
qed

lemma finishJob_inv:
  assumes "pool_busy p" and "\<not> wp_dispatching p"
  shows "pool_inv (fst (finishJob (dispatch env) env entry t r p))"
proof -
  define p1 where "p1 = (case r of
      Inr _ \<Rightarrow> p\<lparr>wp_successfulJobs := wp_successfulJobs p + 1\<rparr>
    | Inl _ \<Rightarrow> p\<lparr>wp_failedJobs := wp_failedJobs p + 1\<rparr>)"
  define p2 where "p2 = p1\<lparr>wp_totalProcessingTimeMs := wp_totalProcessingTimeMs p1
      + max 0 (pe_now env (wp_ticks p1) - t), wp_ticks := wp_ticks p1 + 1,
      wp_activeWorkers := wp_activeWorkers p1 - 1\<rparr>"
  have "pool_ok p2" "\<not> wp_dispatching p2"
    using assms by (cases r; simp add: pool_busy_def pool_ok_def p1_def p2_def)+
  from pool_inv_dispatched [OF this] show ?thesis
    by (simp add: finishJob_def Let_def split_beta p1_def p2_def)
qed

lemma find_runningE:
  assumes "find_running i p = Some x"
  obtains "x \<in> set (wp_running p)" and "fst (fst x) = i"
  using assms by (auto simp: find_running_def find_Some_iff)

lemma pool_step_inv [inv_intros]:
  assumes "pool_step env p e = Some (p', os)" and inv: "pool_inv p"
  shows "pool_inv p'"
proof (cases e)
  case (Submit job)
  let ?p1 = "p\<lparr>wp_pendingJobs := wp_pendingJobs p @ [(wp_nextId p, job)],
      wp_nextId := wp_nextId p + 1\<rparr>"
  show ?thesis
  proof (cases "wp_acceptingJobs p")
    case True
    then have "pool_ok ?p1" "\<not> wp_dispatching ?p1"
      using inv by (auto simp: pool_inv_def pool_ok_def)
    moreover from this have "completeShutdownWhenIdle (fst (dispatch env ?p1)) = (fst (dispatch env ?p1), [])"
      using True dispatch_effect [of ?p1 env] by (simp add: completeShutdownWhenIdle_def pool_effect_def)
    ultimately have "pool_inv (fst (dispatch env ?p1))"
      using pool_inv_dispatched [of ?p1 env] by simp
    then show ?thesis using assms(1) Submit True by (simp add: submit_def)
  qed (use assms Submit in \<open>simp add: submit_def\<close>)
next
  case (HandlerSettles i r)
  then obtain x where x: "find_running i p = Some x"
    and p': "p' = fst (finishJob (dispatch env) env (fst x) (snd x) r
      (p\<lparr>wp_running := remove1 x (wp_running p)\<rparr>))"
    using assms(1) by (auto split: option.splits)
  from x have "x \<in> set (wp_running p)" by (rule find_runningE)
  moreover from this have "0 < length (wp_running p)" by (cases "wp_running p") auto
  ultimately have "pool_busy (p\<lparr>wp_running := remove1 x (wp_running p)\<rparr>)"
    using inv by (auto simp: pool_inv_def pool_busy_def pool_ok_def length_remove1)
  then show ?thesis unfolding p' by (rule finishJob_inv) (use inv in \<open>simp add: pool_inv_def\<close>)
next
  case ReadMetrics
  then show ?thesis using assms
    by (clarsimp simp: getPoolMetrics_def Let_def pool_inv_def pool_ok_def)
next
  case ShutdownPool
  then show ?thesis using assms
    by (auto simp: shutdownPool_def completeShutdownWhenIdle_def pool_inv_def pool_ok_def
        split: if_splits)
qed

lemma pool_reachable_inv: "pool_reachable env p \<Longrightarrow> pool_inv p"
  by (induction rule: pool_reachable.induct) (auto intro: pool_inv_created pool_step_inv)

lemma pool_exec_reachable:
  "pool_exec env p es = Some (p', os) \<Longrightarrow> pool_reachable env p \<Longrightarrow> pool_reachable env p'"
  by (induction es arbitrary: p os) (auto split: option.splits, blast intro: pool_stepped)

section \<open>Accounting over a run\<close>

text \<open>The jobs that a run submits while the pool accepts, in the order of the calls.\<close>

definition admitted_job :: "pool \<Rightarrow> pool_event \<Rightarrow> jsval list" where
  "admitted_job p e = (case e of Submit job \<Rightarrow> if wp_acceptingJobs p then [job] else [] | _ \<Rightarrow> [])"

fun admitted_jobs :: "pool_env \<Rightarrow> pool \<Rightarrow> pool_event list \<Rightarrow> jsval list" where
  "admitted_jobs env p [] = []"
| "admitted_jobs env p (e # es) = admitted_job p e
     @ (case pool_step env p e of None \<Rightarrow> [] | Some (p', os) \<Rightarrow> admitted_jobs env p' es)"

definition pool_account :: "pool \<Rightarrow> jsval list \<Rightarrow> pool_out list \<Rightarrow> pool \<Rightarrow> bool" where
  "pool_account p jobs os p' \<longleftrightarrow>
     started os @ wp_pendingJobs p' = wp_pendingJobs p @ enumerate (wp_nextId p) jobs
   \<and> mset (running_ids p') + mset (resolved os) + mset (rejected os)
       = mset (running_ids p) + mset (map fst (started os))
   \<and> wp_successfulJobs p' = wp_successfulJobs p + length (resolved os)
   \<and> wp_failedJobs p' = wp_failedJobs p + length (rejected os)
   \<and> wp_maximumWorkers p' = wp_maximumWorkers p
   \<and> wp_nextId p' = wp_nextId p + length jobs"

lemma pool_account_trans:
  assumes "pool_account p js os p1" and "pool_account p1 js1 os1 p2"
  shows "pool_account p (js @ js1) (os @ os1) p2"
proof -
  have "mset (running_ids p2) + mset (resolved (os @ os1)) + mset (rejected (os @ os1))
      = mset (running_ids p) + mset (map fst (started (os @ os1)))"
  proof (rule multiset_eqI)
    fix x
    have "count (mset (running_ids p1) + mset (resolved os) + mset (rejected os)) x
        = count (mset (running_ids p) + mset (map fst (started os))) x"
      and "count (mset (running_ids p2) + mset (resolved os1) + mset (rejected os1)) x
        = count (mset (running_ids p1) + mset (map fst (started os1))) x"
      using assms by (auto simp: pool_account_def)
    then show "count (mset (running_ids p2) + mset (resolved (os @ os1)) + mset (rejected (os @ os1))) x
        = count (mset (running_ids p) + mset (map fst (started (os @ os1)))) x"
      by simp
  qed
  then show ?thesis using assms
    by (simp add: pool_account_def enumerate_append_eq)
qed

lemma pool_step_account:
  assumes "pool_step env p e = Some (p', os)"
  shows "pool_account p (admitted_job p e) os p'"
proof (cases e)
  case (Submit job)
  let ?p1 = "p\<lparr>wp_pendingJobs := wp_pendingJobs p @ [(wp_nextId p, job)],
      wp_nextId := wp_nextId p + 1\<rparr>"
  show ?thesis
  proof (cases "wp_acceptingJobs p")
    case True
    then show ?thesis
      using assms Submit dispatch_effect [of ?p1 env]
      by (simp add: submit_def admitted_job_def pool_account_def pool_effect_def running_ids_def)
  next
    case False
    then show ?thesis using assms Submit
      by (auto simp: submit_def admitted_job_def pool_account_def)
  qed
next
  case (HandlerSettles i r)
  then obtain x where x: "find_running i p = Some x"
    and run: "(p', os) = finishJob (dispatch env) env (fst x) (snd x) r
      (p\<lparr>wp_running := remove1 x (wp_running p)\<rparr>)"
    using assms by (auto split: option.splits)
  have "x \<in># mset (wp_running p)" using x by (auto elim!: find_runningE)
  then have "image_mset (\<lambda>y. fst (fst y)) (mset (wp_running p))
      = add_mset (fst (fst x)) (image_mset (\<lambda>y. fst (fst y)) (mset (wp_running p) - {#x#}))"
    by (metis (no_types) insert_DiffM image_mset_add_mset)
  then have "mset (running_ids p)
      = add_mset (fst (fst x)) (mset (running_ids (p\<lparr>wp_running := remove1 x (wp_running p)\<rparr>)))"
    by (simp add: running_ids_def)
  then show ?thesis
    using HandlerSettles finishJob_effect [of "dispatch env" "fst x" "p\<lparr>wp_running := remove1 x (wp_running p)\<rparr>"
        env "snd x" r, OF dispatch_effect] run [symmetric]
    by (simp add: pool_effect_def pool_account_def admitted_job_def)
next
  case ReadMetrics
  then show ?thesis using assms
    by (auto simp: getPoolMetrics_def Let_def pool_account_def admitted_job_def running_ids_def)
next
  case ShutdownPool
  then show ?thesis using assms
    by (auto simp: shutdownPool_def completeShutdownWhenIdle_def pool_account_def admitted_job_def
        running_ids_def split: if_splits)
qed

lemma pool_exec_account:
  "pool_exec env p es = Some (p', os) \<Longrightarrow> pool_account p (admitted_jobs env p es) os p'"
proof (induction es arbitrary: p os)
  case (Cons e es)
  then obtain p1 os1 os2 where step: "pool_step env p e = Some (p1, os1)"
    and rest: "pool_exec env p1 es = Some (p', os2)" and os: "os = os1 @ os2"
    by (auto split: option.splits)
  show ?case
    using pool_account_trans [OF pool_step_account [OF step] Cons.IH [OF rest]] step os by simp
qed (simp add: pool_account_def)

section \<open>The results of the promises\<close>

text \<open>The promises that are settled, with their values and errors.\<close>

definition settled :: "pool_out list \<Rightarrow> (nat \<times> jsval result) list" where
  "settled os = concat (map (\<lambda>x. case x of JobResolved i v \<Rightarrow> [(i, Inr v)] | JobRejected i e \<Rightarrow> [(i, Inl e)] | _ \<Rightarrow> []) os)"

text \<open>What the handlers gave: by settling later, or by throwing when they were called.\<close>

definition handler_results :: "pool_event list \<Rightarrow> (nat \<times> jsval result) list" where
  "handler_results es = concat (map (\<lambda>e. case e of HandlerSettles i r \<Rightarrow> [(i, r)] | _ \<Rightarrow> []) es)"

definition thrown_results :: "pool_env \<Rightarrow> job_entry list \<Rightarrow> (nat \<times> jsval result) list" where
  "thrown_results env jobs =
     concat (map (\<lambda>(i, job). case pe_throws env job of Some e \<Rightarrow> [(i, Inl e)] | None \<Rightarrow> []) jobs)"

lemma result_simps [simp]:
  "settled [] = []" "settled (os @ os') = settled os @ settled os'"
  "settled (JobStarted i j # os) = settled os" "settled (JobResolved i v # os) = (i, Inr v) # settled os"
  "settled (JobRejected i e # os) = (i, Inl e) # settled os" "settled (SubmitRejected e # os) = settled os"
  "settled (PoolShutdownResolved # os) = settled os"
  "handler_results [] = []" "handler_results (HandlerSettles i r # es) = (i, r) # handler_results es"
  "handler_results (Submit job # es) = handler_results es" "handler_results (ReadMetrics # es) = handler_results es"
  "handler_results (ShutdownPool # es) = handler_results es"
  "thrown_results env [] = []" "thrown_results env (js @ js') = thrown_results env js @ thrown_results env js'"
  "thrown_results env ((i, job) # js) = (case pe_throws env job of Some e \<Rightarrow> [(i, Inl e)] | None \<Rightarrow> []) @ thrown_results env js"
  by (simp_all add: settled_def handler_results_def thrown_results_def)

lemma settled_ids: "mset (map fst (settled os)) = mset (resolved os) + mset (rejected os)"
proof (induction os)
  case (Cons x os)
  then show ?case by (cases x) simp_all
qed simp

definition shutdown_signals :: "pool_out list \<Rightarrow> nat" where
  "shutdown_signals os = length (filter (\<lambda>x. x = PoolShutdownResolved) os)"

definition shutdown_done :: "pool \<Rightarrow> nat" where
  "shutdown_done p = (if wp_shutdown p = ShutdownDone then 1 else 0)"

text \<open>
  The promises settled by a piece of code carry the results given to it and those thrown in it, and the
  shutdown promise is resolved when its state changes.
\<close>

definition own_results :: "pool_env \<Rightarrow> (nat \<times> jsval result) list \<Rightarrow> pool \<Rightarrow> pool_out list \<Rightarrow> pool \<Rightarrow> bool" where
  "own_results env given p os p' \<longleftrightarrow> mset (settled os) = mset given + mset (thrown_results env (started os))
     \<and> shutdown_signals os + shutdown_done p = shutdown_done p'"

lemma shutdown_signals_simps [simp]:
  "shutdown_signals [] = 0" "shutdown_signals (os @ os') = shutdown_signals os + shutdown_signals os'"
  "shutdown_signals (x # os) = (if x = PoolShutdownResolved then 1 else 0) + shutdown_signals os"
  by (simp_all add: shutdown_signals_def)

lemma own_results_trans:
  "own_results env rs p os p1 \<Longrightarrow> own_results env rs' p1 os' p' \<Longrightarrow> own_results env (rs @ rs') p (os @ os') p'"
  by (simp add: own_results_def)

lemma own_results_same:
  "own_results env [] p [] p' \<longleftrightarrow> shutdown_done p = shutdown_done p'"
  "wp_shutdown p1 = wp_shutdown p \<Longrightarrow> own_results env rs p1 os p' \<longleftrightarrow> own_results env rs p os p'"
  "wp_shutdown p1 = wp_shutdown p' \<Longrightarrow> own_results env rs p os p1 \<longleftrightarrow> own_results env rs p os p'"
  by (simp_all add: own_results_def shutdown_done_def)

lemma completeShutdown_results:
  "own_results env [] p (snd (completeShutdownWhenIdle p)) (fst (completeShutdownWhenIdle p))"
  by (simp add: completeShutdownWhenIdle_def own_results_def shutdown_done_def)

lemma finishJob_results:
  assumes disp: "\<And>s. own_results env [] s (snd (disp s)) (fst (disp s))"
  shows "own_results env [(fst entry, r)] p (snd (finishJob disp env entry t r p)) (fst (finishJob disp env entry t r p))"
proof -
  define p2 where "p2 = (case r of
      Inr _ \<Rightarrow> p\<lparr>wp_successfulJobs := wp_successfulJobs p + 1\<rparr>
    | Inl _ \<Rightarrow> p\<lparr>wp_failedJobs := wp_failedJobs p + 1\<rparr>)\<lparr>wp_totalProcessingTimeMs := wp_totalProcessingTimeMs p
      + max 0 (pe_now env (wp_ticks p) - t), wp_ticks := wp_ticks p + 1, wp_activeWorkers := wp_activeWorkers p - 1\<rparr>"
  obtain p3 os where p3: "disp p2 = (p3, os)" by force
  obtain p4 os' where p4: "completeShutdownWhenIdle p3 = (p4, os')" by force
  have run: "finishJob disp env entry t r p = (p4, os @ os' @
      [case r of Inr v \<Rightarrow> JobResolved (fst entry) v | Inl e \<Rightarrow> JobRejected (fst entry) e])"
    using p3 p4 by (cases r) (simp_all add: finishJob_def Let_def p2_def)
  have start: "wp_shutdown p2 = wp_shutdown p" by (cases r) (simp_all add: p2_def)
  have dispatched: "own_results env [] p2 os p3" using disp [of p2] p3 by simp
  have idle: "own_results env [] p3 os' p4" using completeShutdown_results [of env p3] p4 by simp
  have "own_results env [(fst entry, r)] p4
      [case r of Inr v \<Rightarrow> JobResolved (fst entry) v | Inl e \<Rightarrow> JobRejected (fst entry) e] p4"
    by (cases r) (simp_all add: own_results_def)
  from own_results_trans [OF dispatched own_results_trans [OF idle this]]
  show ?thesis unfolding run own_results_same(2) [OF start] by simp
qed

lemma processJob_results: "own_results env [] p (snd (processJob env entry p)) (fst (processJob env entry p))"
proof (cases "pe_throws env (snd entry)")
  case None
  then show ?thesis by (cases entry) (simp add: processJob_def Let_def own_results_def shutdown_done_def)
next
  case (Some e)
  let ?f = "finishJob (\<lambda>s. (s, [])) env entry (pe_now env (wp_ticks p)) (Inl e) (p\<lparr>wp_ticks := wp_ticks p + 1\<rparr>)"
  have "own_results env [(fst entry, Inl e)] (p\<lparr>wp_ticks := wp_ticks p + 1\<rparr>) (snd ?f) (fst ?f)"
    by (rule finishJob_results) (simp add: own_results_def)
  then show ?thesis
    using Some by (cases entry) (simp add: processJob_def Let_def split_beta own_results_def shutdown_done_def)
qed

lemma dispatch_loop_results: "own_results env [] p (snd (dispatch_loop env p)) (fst (dispatch_loop env p))"
proof (induction env p rule: dispatch_loop.induct)
  case (1 env p)
  show ?case
  proof (cases "wp_activeWorkers p < wp_maximumWorkers p \<and> wp_pendingJobs p \<noteq> []")
    case True
    let ?p1 = "p\<lparr>wp_pendingJobs := tl (wp_pendingJobs p), wp_activeWorkers := wp_activeWorkers p + 1\<rparr>"
    let ?r = "processJob env (hd (wp_pendingJobs p)) ?p1"
    have "own_results env ([] @ []) ?p1 (snd ?r @ snd (dispatch_loop env (fst ?r))) (fst (dispatch_loop env (fst ?r)))"
      by (rule own_results_trans [OF processJob_results "1.IH" [OF True refl refl]])
    then show ?thesis using True by (simp add: dispatch_loop.simps [of env p] Let_def own_results_def shutdown_done_def)
  next
    case False
    then show ?thesis by (auto simp: dispatch_loop.simps [of env p] own_results_def)
  qed
qed

lemma dispatch_results: "own_results env [] p (snd (dispatch env p)) (fst (dispatch env p))"
  using dispatch_loop_results [of env "p\<lparr>wp_dispatching := True\<rparr>"]
  by (auto simp: dispatch_def split_beta own_results_def shutdown_done_def split: if_splits)

lemma pool_step_results:
  assumes "pool_step env p e = Some (p', os)"
  shows "own_results env (handler_results [e]) p os p'"
proof (cases e)
  case (Submit job)
  let ?p1 = "p\<lparr>wp_pendingJobs := wp_pendingJobs p @ [(wp_nextId p, job)], wp_nextId := wp_nextId p + 1\<rparr>"
  show ?thesis
    using assms Submit dispatch_results [of env ?p1]
    by (auto simp: submit_def own_results_def shutdown_done_def split: if_splits)
next
  case (HandlerSettles i r)
  then obtain x where x: "find_running i p = Some x"
    and run: "(p', os) = finishJob (dispatch env) env (fst x) (snd x) r (p\<lparr>wp_running := remove1 x (wp_running p)\<rparr>)"
    using assms by (auto split: option.splits)
  have "fst (fst x) = i" using x by (rule find_runningE)
  then show ?thesis
    using finishJob_results [of env "dispatch env" "fst x" r "p\<lparr>wp_running := remove1 x (wp_running p)\<rparr>" "snd x", OF dispatch_results]
    unfolding HandlerSettles run [symmetric] by (simp add: own_results_def shutdown_done_def)
next
  case ReadMetrics
  then show ?thesis using assms by (auto simp: own_results_def getPoolMetrics_def Let_def shutdown_done_def)
next
  case ShutdownPool
  then show ?thesis using assms
    by (auto simp: shutdownPool_def own_results_def completeShutdownWhenIdle_def shutdown_done_def split: if_splits)
qed

lemma pool_exec_results: "pool_exec env p es = Some (p', os) \<Longrightarrow> own_results env (handler_results es) p os p'"
proof (induction es arbitrary: p os)
  case (Cons e es)
  then obtain p1 os1 os2 where step: "pool_step env p e = Some (p1, os1)"
    and rest: "pool_exec env p1 es = Some (p', os2)" and os: "os = os1 @ os2"
    by (auto split: option.splits)
  have "handler_results (e # es) = handler_results [e] @ handler_results es" by (cases e) simp_all
  then show ?case using own_results_trans [OF pool_step_results [OF step] Cons.IH [OF rest]] os by simp
qed (simp add: own_results_def)

section \<open>Draining\<close>

text \<open>The jobs in progress or pending.\<close>

definition pool_load :: "pool \<Rightarrow> nat" where
  "pool_load p = length (wp_running p) + length (wp_pendingJobs p)"

lemma pool_account_load:
  "pool_account p [] os p' \<Longrightarrow> pool_load p' + length (resolved os) + length (rejected os) = pool_load p"
proof -
  assume account: "pool_account p [] os p'"
  have "length (started os) + length (wp_pendingJobs p') = length (wp_pendingJobs p)"
    using account by (simp add: pool_account_def flip: length_append)
  moreover have "size (mset (running_ids p') + mset (resolved os) + mset (rejected os))
      = size (mset (running_ids p) + mset (map fst (started os)))"
    using account by (simp add: pool_account_def)
  ultimately show ?thesis by (simp add: pool_load_def running_ids_def)
qed

lemma pool_step_closed:
  assumes "pool_step env p e = Some (p', os)" and "\<not> wp_acceptingJobs p"
  shows "\<not> wp_acceptingJobs p'"
proof (cases e)
  case (HandlerSettles i r)
  have "wp_acceptingJobs (fst (finishJob (dispatch env) env entry t r q)) = wp_acceptingJobs q" for entry t q
    using finishJob_effect [of "dispatch env" entry q env t r, OF dispatch_effect] by (simp add: pool_effect_def)
  then have "wp_acceptingJobs p' = wp_acceptingJobs p"
    using assms(1) HandlerSettles by (force split: option.splits simp: prod_eq_iff)
  then show ?thesis using assms(2) by simp
qed (use assms in \<open>auto simp: submit_def getPoolMetrics_def Let_def shutdownPool_def completeShutdownWhenIdle_def split: if_splits\<close>)

lemma closed_admits_nothing:
  "\<not> wp_acceptingJobs p \<Longrightarrow> pool_exec env p es = Some (p', os) \<Longrightarrow> admitted_jobs env p es = [] \<and> \<not> wp_acceptingJobs p'"
proof (induction es arbitrary: p os)
  case (Cons e es)
  then obtain p1 os1 os2 where step: "pool_step env p e = Some (p1, os1)" and rest: "pool_exec env p1 es = Some (p', os2)"
    by (auto split: option.splits)
  have "admitted_job p e = []" using Cons.prems(1) by (simp add: admitted_job_def split: pool_event.split)
  then show ?case using Cons.IH [OF pool_step_closed [OF step Cons.prems(1)] rest] step by simp
qed simp

lemma pool_inv_shutdown_done:
  "pool_inv p \<Longrightarrow> \<not> wp_acceptingJobs p \<Longrightarrow>
   wp_shutdown p = ShutdownDone \<longleftrightarrow> wp_running p = [] \<and> wp_pendingJobs p = []"
  by (cases "wp_shutdown p") (auto simp: pool_inv_def pool_ok_def)

lemma running_can_settle:
  "i \<in> set (running_ids p) \<Longrightarrow> pool_step env p (HandlerSettles i r) \<noteq> None"
  by (force simp: running_ids_def find_running_def find_None_iff split: option.split)

lemma shutdownPool_keeps_jobs:
  "wp_pendingJobs (fst (shutdownPool p)) = wp_pendingJobs p" "wp_running (fst (shutdownPool p)) = wp_running p"
  "\<not> wp_acceptingJobs (fst (shutdownPool p))"
  by (simp_all add: shutdownPool_def completeShutdownWhenIdle_def)

section \<open>Properties\<close>

definition sample_pool_env :: pool_env where
  "sample_pool_env = \<lparr>pe_throws = (\<lambda>j. if j = JStr ''bad'' then Some (PermanentError ''bad'') else None),
     pe_now = of_nat\<rparr>"

definition sample_pool :: pool where
  "sample_pool = \<lparr>wp_maximumWorkers = 1, wp_pendingJobs = [], wp_startedAt = 0,
     wp_acceptingJobs = True, wp_activeWorkers = 0, wp_dispatching = False,
     wp_successfulJobs = 0, wp_failedJobs = 0, wp_totalProcessingTimeMs = 0,
     wp_shutdown = NoShutdown, wp_running = [], wp_nextId = 0, wp_ticks = 1\<rparr>"

definition sample_pool_events :: "pool_event list" where
  "sample_pool_events = [Submit (JStr ''a''), Submit (JStr ''bad''), Submit (JStr ''c''),
     HandlerSettles 0 (Inr JNull)]"

definition sample_pool_after :: pool where
  "sample_pool_after = sample_pool\<lparr>wp_activeWorkers := 1, wp_successfulJobs := 1,
     wp_failedJobs := 1, wp_totalProcessingTimeMs := 2, wp_running := [((2, JStr ''c''), 5)],
     wp_nextId := 3, wp_ticks := 6\<rparr>"

lemma sample_pool_created: "createWorkerPool sample_pool_env (JInt 1) = Inr sample_pool"
  by (simp add: createWorkerPool_def resolveWorkerConcurrency_def sample_pool_def
      sample_pool_env_def int_of_js_def)

lemma sample_pool_exec:
  "pool_exec sample_pool_env sample_pool sample_pool_events = Some (sample_pool_after,
     [JobStarted 0 (JStr ''a''), JobStarted 1 (JStr ''bad''), JobRejected 1 (PermanentError ''bad''),
      JobStarted 2 (JStr ''c''), JobResolved 0 JNull])"
  by (simp add: sample_pool_events_def sample_pool_def sample_pool_env_def sample_pool_after_def
      submit_def dispatch_def dispatch_loop.simps processJob_def finishJob_def
      completeShutdownWhenIdle_def find_running_def Let_def)

lemma sample_pool_reachable:
  "pool_reachable sample_pool_env sample_pool" "pool_reachable sample_pool_env sample_pool_after"
  using pool_created [OF sample_pool_created] pool_exec_reachable [OF sample_pool_exec] by simp_all

text \<open>
  C21. Bounded, work-conserving concurrency.  In every reachable state at most the
  configured number of jobs is in progress, the counter of active workers is the
  number of suspended \<open>processJob\<close> calls, a job waits only while every worker is
  busy, and the dispatch guard is released.
\<close>

theorem pool_concurrency_bounded:
  assumes "pool_reachable env p"
  shows "wp_activeWorkers p = length (wp_running p) \<and> wp_activeWorkers p \<le> wp_maximumWorkers p
    \<and> 0 < wp_maximumWorkers p \<and> \<not> wp_dispatching p
    \<and> (wp_pendingJobs p \<noteq> [] \<longrightarrow> wp_activeWorkers p = wp_maximumWorkers p)"
  using pool_reachable_inv [OF assms] by (auto simp: pool_inv_def pool_ok_def)

theorem pool_concurrency_bounded_witness:
  "wp_activeWorkers sample_pool_after = 1 \<and> wp_activeWorkers sample_pool_after \<le> wp_maximumWorkers sample_pool_after
    \<and> \<not> wp_dispatching sample_pool_after"
  using pool_concurrency_bounded [OF sample_pool_reachable(2)]
  by (simp add: sample_pool_after_def sample_pool_def)

text \<open>
  C14. Every job runs exactly once, first come first served.  In any run of a fresh
  pool the handler calls, followed by the jobs still pending, are exactly the jobs
  submitted while the pool accepted them, in the order of the calls; each started
  job is either in progress or has had its own promise settled once; the settled promises carry
  exactly the values and errors that the handlers of their own jobs gave, or threw when they were called; and the two
  counters are the numbers of resolved and rejected promises, so one failing
  handler neither loses nor delays another job.
\<close>

theorem pool_runs_each_job_once:
  assumes "createWorkerPool env concurrency = Inr p" and "pool_exec env p es = Some (p', os)"
  shows "started os @ wp_pendingJobs p' = enumerate 0 (admitted_jobs env p es)
    \<and> distinct (running_ids p' @ resolved os @ rejected os)
    \<and> set (running_ids p' @ resolved os @ rejected os) = set (map fst (started os))
    \<and> mset (settled os) = mset (handler_results es) + mset (thrown_results env (started os))
    \<and> wp_successfulJobs p' = length (resolved os) \<and> wp_failedJobs p' = length (rejected os)"
proof -
  have fresh: "wp_pendingJobs p = []" "wp_nextId p = 0" "wp_running p = []"
    "wp_successfulJobs p = 0" "wp_failedJobs p = 0"
    using assms(1) by (auto simp: createWorkerPool_def split: sum.splits)
  have order: "started os @ wp_pendingJobs p' = enumerate 0 (admitted_jobs env p es)"
    and jobs: "mset (running_ids p' @ resolved os @ rejected os) = mset (map fst (started os))"
    using pool_exec_account [OF assms(2)] fresh
    by (simp_all add: pool_account_def running_ids_def ac_simps)
  have "distinct (map fst (started os @ wp_pendingJobs p'))"
    unfolding order by simp
  then have "distinct (map fst (started os))" by simp
  then have "distinct (running_ids p' @ resolved os @ rejected os)"
    and "set (running_ids p' @ resolved os @ rejected os) = set (map fst (started os))"
    using jobs by (metis mset_eq_imp_distinct_iff, metis mset_eq_setD)
  then show ?thesis
    using order pool_exec_account [OF assms(2)] pool_exec_results [OF assms(2)] fresh
    by (simp add: pool_account_def own_results_def)
qed

theorem pool_runs_each_job_once_witness:
  "enumerate 0 (admitted_jobs sample_pool_env sample_pool sample_pool_events)
      = [(0, JStr ''a''), (1, JStr ''bad''), (2, JStr ''c'')]
    \<and> wp_successfulJobs sample_pool_after = 1 \<and> wp_failedJobs sample_pool_after = 1"
proof -
  have "wp_pendingJobs sample_pool_after = []" by (simp add: sample_pool_after_def sample_pool_def)
  then show ?thesis
    using pool_runs_each_job_once [OF sample_pool_created sample_pool_exec]
    by (simp del: admitted_jobs.simps)
qed

text \<open>
  C22. Shutdown drains.  \<open>shutdown\<close> keeps the pending jobs and those in progress.  In every run after it, whatever is
  called and however the handlers settle, each submission is refused without a handler call; the pending jobs are
  called in their order, none lost and none added; every job that was pending or in progress is settled with its own
  result, in progress or still pending; and the shutdown promise is resolved, once, exactly when none is left.  Until then a
  handler is in progress whose settlement takes the pool further, and no run has more settlements than there were
  jobs: so when every handler settles, every accepted job has been run.
\<close>

theorem pool_shutdown_drains:
  assumes "pool_reachable env p" and "shutdownPool p = (p0, os0)" and "pool_exec env p0 es = Some (p', os)"
  shows "wp_pendingJobs p0 = wp_pendingJobs p \<and> wp_running p0 = wp_running p
    \<and> submit env job p' = (p', [SubmitRejected WorkerPoolShutdownError])
    \<and> started os @ wp_pendingJobs p' = wp_pendingJobs p
    \<and> mset (running_ids p' @ map fst (settled os)) = mset (running_ids p @ map fst (started os))
    \<and> mset (settled os) = mset (handler_results es) + mset (thrown_results env (started os))
    \<and> length (handler_results es) + pool_load p' \<le> pool_load p
    \<and> (wp_shutdown p' = ShutdownDone \<longleftrightarrow> wp_running p' = [] \<and> wp_pendingJobs p' = [])
    \<and> shutdown_signals (os0 @ os) + shutdown_done p = shutdown_done p'
    \<and> (wp_shutdown p' \<noteq> ShutdownDone \<longrightarrow> running_ids p' \<noteq> []
        \<and> (\<forall>i\<in>set (running_ids p'). pool_step env p' (HandlerSettles i r) \<noteq> None))"
proof -
  have kept: "wp_pendingJobs p0 = wp_pendingJobs p" "wp_running p0 = wp_running p" "\<not> wp_acceptingJobs p0"
    using shutdownPool_keeps_jobs [of p] assms(2) by simp_all
  have first: "pool_step env p ShutdownPool = Some (p0, os0)" using assms(2) by simp
  note closed = closed_admits_nothing [OF kept(3) assms(3)]
  have account: "pool_account p0 [] os p'" using pool_exec_account [OF assms(3)] closed by simp
  have inv: "pool_inv p'"
    using pool_reachable_inv [OF pool_exec_reachable [OF assms(3) pool_stepped [OF assms(1) first]]] .
  have over: "wp_shutdown p' = ShutdownDone \<longleftrightarrow> wp_running p' = [] \<and> wp_pendingJobs p' = []"
    using pool_inv_shutdown_done [OF inv] closed by simp
  note results = pool_exec_results [OF assms(3)] and signals = pool_step_results [OF first]
  have ids: "mset (running_ids p' @ map fst (settled os)) = mset (running_ids p @ map fst (started os))"
    using account kept(2) settled_ids [of os] by (simp add: pool_account_def running_ids_def ac_simps)
  have "length (settled os) = length (resolved os) + length (rejected os)"
    using arg_cong [OF settled_ids [of os], of size] by simp
  moreover have "length (settled os) = length (handler_results es) + length (thrown_results env (started os))"
    using results unfolding own_results_def by (metis size_mset size_union)
  ultimately have load: "length (handler_results es) + pool_load p' \<le> pool_load p"
    using pool_account_load [OF account] kept by (simp add: pool_load_def)
  have "running_ids p' \<noteq> []" if "wp_shutdown p' \<noteq> ShutdownDone"
    using that inv over by (auto simp: pool_inv_def pool_ok_def running_ids_def)
  then show ?thesis
    using kept account results signals ids load over running_can_settle [of _ p' env r] closed
    by (auto simp: submit_def pool_account_def own_results_def)
qed

text \<open>One job in progress and two pending when the pool is shut down; the first pending one throws at once.\<close>

definition sample_pool_backlog :: pool where
  "sample_pool_backlog = sample_pool_after\<lparr>wp_pendingJobs := [(3, JStr ''bad''), (4, JStr ''d'')], wp_nextId := 5\<rparr>"

lemma sample_pool_backlog_reachable: "pool_reachable sample_pool_env sample_pool_backlog"
proof -
  have "pool_exec sample_pool_env sample_pool_after [Submit (JStr ''bad''), Submit (JStr ''d'')] = Some (sample_pool_backlog, [])"
    by (simp add: sample_pool_backlog_def sample_pool_after_def sample_pool_def submit_def dispatch_def dispatch_loop.simps)
  from pool_exec_reachable [OF this sample_pool_reachable(2)] show ?thesis .
qed

lemma sample_pool_drained:
  "\<exists>p0 p'. shutdownPool sample_pool_backlog = (p0, [])
    \<and> pool_exec sample_pool_env p0 [HandlerSettles 2 (Inr JNull), HandlerSettles 4 (Inl QueueShutdownError)] = Some (p',
        [JobStarted 3 (JStr ''bad''), JobRejected 3 (PermanentError ''bad''), JobStarted 4 (JStr ''d''), JobResolved 2 JNull,
         PoolShutdownResolved, JobRejected 4 QueueShutdownError])
    \<and> wp_running p' = [] \<and> wp_pendingJobs p' = []"
  by (simp add: sample_pool_backlog_def sample_pool_after_def sample_pool_def sample_pool_env_def shutdownPool_def
      dispatch_def dispatch_loop.simps processJob_def finishJob_def completeShutdownWhenIdle_def find_running_def Let_def)

theorem pool_shutdown_drains_witness:
  "\<exists>p0 p' os. shutdownPool sample_pool_backlog = (p0, [])
    \<and> pool_exec sample_pool_env p0 [HandlerSettles 2 (Inr JNull), HandlerSettles 4 (Inl QueueShutdownError)] = Some (p', os)
    \<and> started os = [(3, JStr ''bad''), (4, JStr ''d'')] \<and> wp_shutdown p' = ShutdownDone \<and> shutdown_signals os = 1
    \<and> mset (settled os) = {#(2, Inr JNull), (4, Inl QueueShutdownError), (3, Inl (PermanentError ''bad''))#}"
proof -
  obtain p0 p' os where r: "shutdownPool sample_pool_backlog = (p0, [])"
    "pool_exec sample_pool_env p0 [HandlerSettles 2 (Inr JNull), HandlerSettles 4 (Inl QueueShutdownError)] = Some (p', os)"
    and os: "started os = [(3, JStr ''bad''), (4, JStr ''d'')]" and idle: "wp_running p' = []" "wp_pendingJobs p' = []"
    using sample_pool_drained by fastforce
  note drains = pool_shutdown_drains [OF sample_pool_backlog_reachable r]
  have "wp_shutdown p' = ShutdownDone" using drains idle by simp
  moreover have "shutdown_signals os = 1"
    using drains calculation by (simp add: shutdown_done_def sample_pool_backlog_def sample_pool_after_def sample_pool_def)
  moreover have "mset (settled os) = {#(2, Inr JNull), (4, Inl QueueShutdownError), (3, Inl (PermanentError ''bad''))#}"
    using drains os by (simp add: sample_pool_env_def)
  ultimately show ?thesis using r os by blast
qed

text \<open>
  Concurrency settings.  The setting is accepted exactly when it is absent (five
  workers), a positive integer, or a text that \<open>Number\<close> reads as one; in particular
  the decimal print of every positive number of workers is read back as that number.
\<close>

theorem worker_concurrency_roundtrip:
  assumes "0 < n"
  shows "resolveWorkerConcurrency (JStr (show_nat n)) = Inr n
    \<and> resolveWorkerConcurrency (JInt (int n)) = Inr n
    \<and> resolveWorkerConcurrency JUndefined = Inr 5
    \<and> (resolveWorkerConcurrency v = Inl InvalidWorkerConcurrencyError \<or>
         (\<exists>m > 0. resolveWorkerConcurrency v = Inr m))"
proof -
  have "resolveWorkerConcurrency v = Inl InvalidWorkerConcurrencyError \<or>
      (\<exists>m > 0. resolveWorkerConcurrency v = Inr m)"
    using resolveWorkerConcurrency_positive [of v]
    by (cases "resolveWorkerConcurrency v") (auto simp: resolveWorkerConcurrency_def Let_def split: if_splits)
  moreover have "JNum (Fin (rat_of_nat n)) = JInt (int n)" by simp
  ultimately show ?thesis
    using assms by (simp add: resolveWorkerConcurrency_def defaultConcurrency_def int_of_js_def)
qed

theorem worker_concurrency_roundtrip_witness:
  "resolveWorkerConcurrency (JStr (show_nat 8)) = Inr 8"
  using worker_concurrency_roundtrip [of 8 JNull] by simp

end
