(* ===== verification/Access_Control.thy ===== *)
theory Access_Control
  imports Errors "HOL-Library.AList"
begin

text \<open>
  The local authorizer of \<open>packages/access-control/src/index.js\<close>: validation of
  the policy object, the grants it is compiled to (one set of capability keys per
  workload), and the decision \<open>isAllowed\<close>.
\<close>

section \<open>Rules\<close>

definition ALLOWED_ACTIONS :: "string list" where
  "ALLOWED_ACTIONS = [''consume'', ''publish'', ''read'', ''write'']"

definition lower_letter :: "char \<Rightarrow> bool" where
  "lower_letter c = (97 \<le> (of_char c :: nat) \<and> of_char c \<le> (122 :: nat))"

definition segment_char :: "char \<Rightarrow> bool" where
  "segment_char c = (lower_letter c \<or> c = CHR ''-''
     \<or> (48 \<le> (of_char c :: nat) \<and> of_char c \<le> (57 :: nat)))"

definition resource_segment :: "string \<Rightarrow> bool" where
  "resource_segment s = (case s of [] \<Rightarrow> False | c # cs \<Rightarrow> lower_letter c \<and> list_all segment_char cs)"

fun split_dot :: "string \<Rightarrow> string list" where
  "split_dot [] = [[]]"
| "split_dot (c # cs) =
     (if c = CHR ''.'' then [] # split_dot cs
      else (case split_dot cs of s # ss \<Rightarrow> (c # s) # ss | [] \<Rightarrow> [[c]]))"

text \<open>\<open>RESOURCE_PATTERN\<close>: two or more segments, joined by dots, that cover the whole text.\<close>

definition RESOURCE_PATTERN :: "string \<Rightarrow> bool" where
  "RESOURCE_PATTERN s = (2 \<le> length (split_dot s) \<and> list_all resource_segment (split_dot s))"

definition policy_rule :: "string \<Rightarrow> string list \<Rightarrow> jsval" where
  "policy_rule r as = JObj [(''resource'', JStr r), (''actions'', JArr (map JStr as))]"

definition DEFAULT_POLICIES :: jsval where
  "DEFAULT_POLICIES = JObj [
     (''api'', JArr [
        policy_rule ''database.products'' [''read''],
        policy_rule ''database.orders'' [''read'', ''write''],
        policy_rule ''queue.order-created'' [''publish'']]),
     (''worker'', JArr [
        policy_rule ''queue.order-created'' [''consume''],
        policy_rule ''database.products'' [''read'', ''write''],
        policy_rule ''database.orders'' [''read'', ''write''],
        policy_rule ''database.message-claims'' [''write''],
        policy_rule ''events.order-completed'' [''publish'']]),
     (''analytics-consumer'', JArr [
        policy_rule ''events.order-created'' [''consume''],
        policy_rule ''analytics.orders'' [''write'']])]"

text \<open>The elements of an array and \<open>Object.entries\<close> of an object.\<close>

definition js_elements :: "jsval \<Rightarrow> jsval list" where
  "js_elements v = (case v of JArr vs \<Rightarrow> vs | _ \<Rightarrow> [])"

definition object_entries :: "jsval \<Rightarrow> (string \<times> jsval) list" where
  "object_entries v = (case v of JObj fs \<Rightarrow> AList.clearjunk fs | _ \<Rightarrow> [])"

definition isValidRule :: "jsval \<Rightarrow> bool" where
  "isValidRule rule =
     (rule \<noteq> JNull \<and> typeof_object rule \<and> typeof_string (get_prop rule ''resource'')
      \<and> RESOURCE_PATTERN (js_str (get_prop rule ''resource''))
      \<and> is_array (get_prop rule ''actions'')
      \<and> js_elements (get_prop rule ''actions'') \<noteq> []
      \<and> list_all (\<lambda>a. typeof_string a \<and> js_str a \<in> set ALLOWED_ACTIONS)
          (js_elements (get_prop rule ''actions'')))"

definition capabilityKey :: "string \<Rightarrow> string \<Rightarrow> string" where
  "capabilityKey resource action = resource @ '':'' @ action"

section \<open>The authorizer\<close>

type_synonym authorizer = "string \<rightharpoonup> string list"

definition rule_grants :: "jsval \<Rightarrow> string list" where
  "rule_grants rule = map (\<lambda>a. capabilityKey (js_str (get_prop rule ''resource'')) (js_str a))
     (js_elements (get_prop rule ''actions''))"

fun compile_policies :: "(string \<times> jsval) list \<Rightarrow> authorizer \<Rightarrow> authorizer result" where
  "compile_policies [] grantsByWorkload = Inr grantsByWorkload"
| "compile_policies ((workload, rules) # entries) grantsByWorkload =
     (if \<not> is_nonempty_string (JStr workload) \<or> \<not> is_array rules
         \<or> \<not> list_all isValidRule (js_elements rules)
      then Inl InvalidLocalAccessPolicyError
      else compile_policies entries
        (grantsByWorkload(workload \<mapsto> concat (map rule_grants (js_elements rules)))))"

definition createLocalAuthorizer :: "jsval \<Rightarrow> authorizer result" where
  "createLocalAuthorizer policiesOption =
     (let policies = (if policiesOption = JUndefined then DEFAULT_POLICIES else policiesOption)
      in if policies = JNull \<or> \<not> typeof_object policies \<or> is_array policies
         then Inl InvalidLocalAccessPolicyError
         else compile_policies (object_entries policies) Map.empty)"

definition isAllowed :: "authorizer \<Rightarrow> jsval \<Rightarrow> bool" where
  "isAllowed grantsByWorkload request =
     (if request = JNull \<or> \<not> typeof_object request \<or> is_array request then False
      else (let workload = get_prop request ''workload''; resource = get_prop request ''resource'';
                action = get_prop request ''action''
            in if \<not> list_all is_nonempty_string [workload, resource, action] then False
               else (case grantsByWorkload (js_str workload) of
                       None \<Rightarrow> False
                     | Some grants \<Rightarrow> capabilityKey (js_str resource) (js_str action) \<in> set grants)))"

section \<open>What a policy grants\<close>

text \<open>The reference: some rule of the workload lists the action for the resource.\<close>

definition policy_grants :: "jsval \<Rightarrow> string \<Rightarrow> string \<Rightarrow> string \<Rightarrow> bool" where
  "policy_grants policies w r a =
     list_ex (\<lambda>rule. get_prop rule ''resource'' = JStr r
         \<and> list_ex (\<lambda>x. x = JStr a) (js_elements (get_prop rule ''actions'')))
       (js_elements (get_prop policies w))"

definition valid_entry :: "string \<times> jsval \<Rightarrow> bool" where
  "valid_entry e = (is_nonempty_string (JStr (fst e)) \<and> is_array (snd e)
     \<and> list_all isValidRule (js_elements (snd e)))"

definition request :: "string \<Rightarrow> string \<Rightarrow> string \<Rightarrow> jsval" where
  "request w r a = JObj [(''workload'', JStr w), (''resource'', JStr r), (''action'', JStr a)]"

lemma compile_policies_ok:
  "compile_policies es g = Inr auth \<longleftrightarrow> list_all valid_entry es
     \<and> auth = g ++ map_of (rev (map (\<lambda>(w, rs). (w, concat (map rule_grants (js_elements rs)))) es))"
proof (induction es arbitrary: g)
  case (Cons e es)
  obtain w rs where e: "e = (w, rs)" by force
  show ?case
  proof (cases "valid_entry (w, rs)")
    case True
    then have "is_nonempty_string (JStr w)" "is_array rs" "list_all isValidRule (js_elements rs)"
      by (simp_all add: valid_entry_def)
    then have "compile_policies (e # es) g
        = compile_policies es (g(w \<mapsto> concat (map rule_grants (js_elements rs))))"
      by (simp add: e)
    moreover have "g ++ map_of (rev (map (\<lambda>(w, rs). (w, concat (map rule_grants (js_elements rs)))) (e # es)))
        = g(w \<mapsto> concat (map rule_grants (js_elements rs)))
          ++ map_of (rev (map (\<lambda>(w, rs). (w, concat (map rule_grants (js_elements rs)))) es))"
      by (rule ext) (simp add: e map_add_def split: option.split)
    ultimately show ?thesis
      using True Cons.IH by (simp only: e list.pred_inject) blast
  qed (auto simp: e valid_entry_def)
qed auto

lemma compile_policies_error:
  "compile_policies es g = Inl e \<Longrightarrow> e = InvalidLocalAccessPolicyError \<and> \<not> list_all valid_entry es"
  by (induction es g rule: compile_policies.induct) (auto simp: valid_entry_def split: if_splits)

lemma map_of_rev_distinct: "distinct (map fst xs) \<Longrightarrow> map_of (rev xs) = map_of xs"
  by (subst map_of_inject_set) (simp_all flip: rev_map)

lemma object_entries_map: "map_of (object_entries (JObj fs)) = map_of fs"
  by (simp add: object_entries_def map_of_clearjunk)

lemma object_entries_distinct: "distinct (map fst (object_entries v))"
  by (cases v) (simp_all add: object_entries_def distinct_clearjunk)

lemma split_dot_chars: "c \<in> set s \<Longrightarrow> c \<noteq> CHR ''.'' \<Longrightarrow> \<exists>t\<in>set (split_dot s). c \<in> set t"
proof (induction s)
  case (Cons d s)
  then show ?case by (cases "split_dot s") (auto split: if_splits)
qed simp

lemma segment_charI: "resource_segment t \<Longrightarrow> c \<in> set t \<Longrightarrow> segment_char c"
  by (cases t) (auto simp: resource_segment_def list_all_iff, simp add: segment_char_def)

lemma segment_char_not:
  assumes "segment_char c"
  shows "c \<noteq> CHR '':''" and "\<not> js_space c"
  using assms unfolding segment_char_def lower_letter_def js_space_def by auto

lemma RESOURCE_PATTERN_chars:
  assumes "RESOURCE_PATTERN s"
  shows "CHR '':'' \<notin> set s" and "trim s \<noteq> []"
proof -
  have chars: "c = CHR ''.'' \<or> segment_char c" if "c \<in> set s" for c
    using split_dot_chars [OF that] segment_charI assms
    by (auto simp: RESOURCE_PATTERN_def list_all_iff)
  then show "CHR '':'' \<notin> set s" using segment_char_not(1) by fastforce
  have "s \<noteq> []" using assms by (auto simp: RESOURCE_PATTERN_def)
  moreover have "\<not> js_space (CHR ''.'')" by (simp add: js_space_def)
  ultimately show "trim s \<noteq> []"
    using chars segment_char_not(2) by (cases s) (auto simp: trim_eq_Nil_iff)
qed

lemma allowed_action_chars:
  "a \<in> set ALLOWED_ACTIONS \<Longrightarrow> CHR '':'' \<notin> set a \<and> trim a \<noteq> []"
proof -
  have "list_all (\<lambda>a. CHR '':'' \<notin> set a \<and> trim a \<noteq> []) ALLOWED_ACTIONS" by code_simp
  then show "a \<in> set ALLOWED_ACTIONS \<Longrightarrow> CHR '':'' \<notin> set a \<and> trim a \<noteq> []"
    by (simp add: list_all_iff)
qed

text \<open>A capability key names one resource and one action: neither holds a colon.\<close>

lemma capabilityKey_inject:
  assumes "RESOURCE_PATTERN r'" and "a' \<in> set ALLOWED_ACTIONS"
  shows "capabilityKey r a = capabilityKey r' a' \<longleftrightarrow> r = r' \<and> a = a'"
  using append_sep_inject_left [of r "CHR '':''" a r' a'] RESOURCE_PATTERN_chars [OF assms(1)]
    allowed_action_chars [OF assms(2)] by (auto simp: capabilityKey_def)

lemma rule_grants_iff:
  assumes "isValidRule rule"
  shows "capabilityKey r a \<in> set (rule_grants rule) \<longleftrightarrow>
    get_prop rule ''resource'' = JStr r \<and> JStr a \<in> set (js_elements (get_prop rule ''actions''))"
proof -
  let ?r = "js_str (get_prop rule ''resource'')"
  have res: "get_prop rule ''resource'' = JStr ?r" "RESOURCE_PATTERN ?r"
    and acts: "\<And>x. x \<in> set (js_elements (get_prop rule ''actions'')) \<Longrightarrow>
      x = JStr (js_str x) \<and> js_str x \<in> set ALLOWED_ACTIONS"
    using assms by (auto simp: isValidRule_def typeof_string_iff list_all_iff)
  have "capabilityKey r a \<in> set (rule_grants rule) \<longleftrightarrow>
      (\<exists>x\<in>set (js_elements (get_prop rule ''actions'')). r = ?r \<and> a = js_str x)"
    using capabilityKey_inject [OF res(2)] acts by (auto simp: rule_grants_def)
  also have "\<dots> \<longleftrightarrow> get_prop rule ''resource'' = JStr r
      \<and> JStr a \<in> set (js_elements (get_prop rule ''actions''))"
    using res(1) acts by (metis js_str.simps(1) jsval.inject(3))
  finally show ?thesis .
qed

lemma valid_rule_nonempty:
  assumes "isValidRule rule" and "get_prop rule ''resource'' = JStr r"
    and "JStr a \<in> set (js_elements (get_prop rule ''actions''))"
  shows "is_nonempty_string (JStr r)" and "is_nonempty_string (JStr a)"
  using assms RESOURCE_PATTERN_chars(2) [of r] allowed_action_chars [of a]
  by (auto simp: isValidRule_def list_all_iff is_nonempty_string_def)

section \<open>Properties\<close>

lemma createLocalAuthorizer_grants:
  assumes ok: "createLocalAuthorizer policies = Inr auth" and "policies \<noteq> JUndefined"
  shows "isAllowed auth req \<longleftrightarrow> (\<exists>w r a. get_prop req ''workload'' = JStr w
    \<and> get_prop req ''resource'' = JStr r \<and> get_prop req ''action'' = JStr a
    \<and> policy_grants policies w r a)"
proof -
  have "policies \<noteq> JNull \<and> typeof_object policies \<and> \<not> is_array policies"
    using assms by (auto simp: createLocalAuthorizer_def Let_def split: if_splits)
  then obtain fs where fs: "policies = JObj fs"
    by (cases policies) (auto simp: typeof_object_def is_array_def)
  let ?es = "object_entries policies"
  let ?grants = "\<lambda>rs. concat (map rule_grants (js_elements rs))"
  have valid: "list_all valid_entry ?es"
    and auth: "auth = map_of (rev (map (\<lambda>(w, rs). (w, ?grants rs)) ?es))"
    using assms fs by (auto simp: createLocalAuthorizer_def Let_def compile_policies_ok split: if_splits)
  have "distinct (map fst (map (\<lambda>(w, rs). (w, ?grants rs)) ?es))"
    using object_entries_distinct [of policies] by (simp add: comp_def split_def)
  from map_of_rev_distinct [OF this] auth
  have "auth w = map_option ?grants (map_of ?es w)" for w
    by (simp add: map_of_map)
  then have auth': "auth w = map_option ?grants (map_of fs w)" for w
    by (simp add: fs object_entries_map)
  have entry: "valid_entry (w, rs)" if "map_of fs w = Some rs" for w rs
    using valid that map_of_SomeD [of ?es w rs] by (auto simp: fs object_entries_map list_all_iff)
  have decide: "(case auth w of None \<Rightarrow> False | Some grants \<Rightarrow> capabilityKey r a \<in> set grants)
      \<longleftrightarrow> policy_grants policies w r a" for w r a
  proof (cases "map_of fs w")
    case None
    then show ?thesis by (simp add: auth' policy_grants_def fs js_elements_def)
  next
    case (Some rs)
    then have "\<And>rule. rule \<in> set (js_elements rs) \<Longrightarrow> isValidRule rule"
      using entry [OF Some] by (simp add: valid_entry_def list_all_iff)
    then show ?thesis using Some
      by (auto simp: auth' policy_grants_def fs list_ex_iff rule_grants_iff)
  qed
  have nonempty: "is_nonempty_string (JStr w) \<and> is_nonempty_string (JStr r) \<and> is_nonempty_string (JStr a)"
    if grants: "policy_grants policies w r a" for w r a
  proof (cases "map_of fs w")
    case None
    then show ?thesis using grants by (simp add: policy_grants_def fs js_elements_def)
  next
    case (Some rs)
    then obtain rule where "rule \<in> set (js_elements rs)" "get_prop rule ''resource'' = JStr r"
      "JStr a \<in> set (js_elements (get_prop rule ''actions''))"
      using grants by (auto simp: policy_grants_def fs list_ex_iff)
    with entry [OF Some] show ?thesis
      using valid_rule_nonempty by (auto simp: valid_entry_def list_all_iff)
  qed
  show ?thesis
  proof (cases "\<exists>w r a. get_prop req ''workload'' = JStr w \<and> get_prop req ''resource'' = JStr r
      \<and> get_prop req ''action'' = JStr a")
    case True
    then obtain w r a where req: "get_prop req ''workload'' = JStr w"
      "get_prop req ''resource'' = JStr r" "get_prop req ''action'' = JStr a" by blast
    then obtain gs where "req = JObj gs" by (cases req) auto
    then show ?thesis using req decide nonempty [of w r a]
      by (auto simp: isAllowed_def Let_def typeof_object_def is_array_def)
  next
    case False
    then show ?thesis
      by (auto simp: isAllowed_def Let_def split: option.splits elim!: is_nonempty_stringE)
  qed
qed

definition sample_policies :: jsval where
  "sample_policies = JObj [(''svc'', JArr [policy_rule ''queue.jobs'' [''read'', ''consume'']])]"

definition sample_authorizer :: authorizer where
  "sample_authorizer = [''svc'' \<mapsto> [''queue.jobs:read'', ''queue.jobs:consume'']]"

lemma sample_policies_ok: "createLocalAuthorizer sample_policies = Inr sample_authorizer"
  by (simp add: createLocalAuthorizer_def sample_policies_def sample_authorizer_def policy_rule_def
      object_entries_def typeof_object_def is_array_def is_nonempty_string_def trim_def js_space_def
      js_elements_def isValidRule_def typeof_string_def RESOURCE_PATTERN_def resource_segment_def
      lower_letter_def segment_char_def ALLOWED_ACTIONS_def rule_grants_def capabilityKey_def)

text \<open>
  C36. Decisions follow the policy exactly.  With an accepted policy object, a request
  is allowed if and only if its workload, resource and action are strings and some
  rule of that workload lists that action for that resource: the flattened keys
  never let one capability pass for another, and every other request, malformed
  ones included, is denied.
\<close>

theorem access_follows_policy:
  assumes "createLocalAuthorizer policies = Inr auth" and "policies \<noteq> JUndefined"
  shows "isAllowed auth req \<longleftrightarrow> (\<exists>w r a. get_prop req ''workload'' = JStr w
    \<and> get_prop req ''resource'' = JStr r \<and> get_prop req ''action'' = JStr a
    \<and> policy_grants policies w r a)"
  by (rule createLocalAuthorizer_grants [OF assms])

theorem access_follows_policy_witness:
  "isAllowed sample_authorizer (request ''svc'' ''queue.jobs'' ''consume'')
    \<and> \<not> isAllowed sample_authorizer (request ''svc'' ''queue'' ''jobs:consume'')"
  by (simp add: access_follows_policy [OF sample_policies_ok] sample_policies_def)
    (simp add: request_def policy_grants_def policy_rule_def js_elements_def)

text \<open>The thirteen capabilities of the default policies.\<close>

definition default_capabilities :: "(string \<times> string \<times> string) list" where
  "default_capabilities =
     [(''api'', ''database.products'', ''read''),
      (''api'', ''database.orders'', ''read''), (''api'', ''database.orders'', ''write''),
      (''api'', ''queue.order-created'', ''publish''),
      (''worker'', ''queue.order-created'', ''consume''),
      (''worker'', ''database.products'', ''read''), (''worker'', ''database.products'', ''write''),
      (''worker'', ''database.orders'', ''read''), (''worker'', ''database.orders'', ''write''),
      (''worker'', ''database.message-claims'', ''write''),
      (''worker'', ''events.order-completed'', ''publish''),
      (''analytics-consumer'', ''events.order-created'', ''consume''),
      (''analytics-consumer'', ''analytics.orders'', ''write'')]"

lemma default_policies_valid: "list_all valid_entry (object_entries DEFAULT_POLICIES)"
  by code_simp

lemma default_policies_grants:
  "policy_grants DEFAULT_POLICIES w r a \<longleftrightarrow> (w, r, a) \<in> set default_capabilities"
  by (auto simp: policy_grants_def DEFAULT_POLICIES_def policy_rule_def js_elements_def
      default_capabilities_def split: if_splits)

text \<open>
  The default policies are least privilege.  Without a policy argument the
  authorizer is created, and it allows a request exactly when it is one of the
  thirteen listed capabilities: the API never consumes or changes stock, the worker
  never publishes to its own queue, and the analytics consumer touches no order.
\<close>

theorem default_access_least_privilege:
  "\<exists>auth. createLocalAuthorizer JUndefined = Inr auth
    \<and> (\<forall>w r a. isAllowed auth (request w r a) \<longleftrightarrow> (w, r, a) \<in> set default_capabilities)"
proof -
  have default: "createLocalAuthorizer JUndefined = createLocalAuthorizer DEFAULT_POLICIES"
    by (simp add: createLocalAuthorizer_def DEFAULT_POLICIES_def)
  have "\<exists>auth. createLocalAuthorizer DEFAULT_POLICIES = Inr auth"
    using default_policies_valid
    by (simp add: createLocalAuthorizer_def compile_policies_ok DEFAULT_POLICIES_def
        typeof_object_def is_array_def)
  then obtain auth where auth: "createLocalAuthorizer DEFAULT_POLICIES = Inr auth" ..
  have "DEFAULT_POLICIES \<noteq> JUndefined" by (simp add: DEFAULT_POLICIES_def)
  from createLocalAuthorizer_grants [OF auth this]
  have "isAllowed auth (request w r a) \<longleftrightarrow> (w, r, a) \<in> set default_capabilities" for w r a
    by (simp add: default_policies_grants) (simp add: request_def)
  then show ?thesis using auth default by auto
qed

end
