(* ===== verification/Versioned_Store.thy ===== *)
theory Versioned_Store
  imports Errors
begin

text \<open>
  What the replication and the consistency simulations share: orders stored under
  their id with a version counter, and copies of the store that follow the source
  by applying its log of updates in order.  The locale \<open>log_follower\<close> states what
  such a copy promises; both simulations interpret it on their own state.
\<close>

section \<open>Versioned records\<close>

type_synonym order_store = "string \<rightharpoonup> jsval"

definition order_key :: "jsval \<Rightarrow> string" where
  "order_key order = js_str (get_prop order ''id'')"

definition valid_order :: "jsval \<Rightarrow> bool" where
  "valid_order order \<longleftrightarrow> is_plain_object order \<and> typeof_string (get_prop order ''id'')
     \<and> order_key order \<noteq> []"

definition record_version :: "jsval \<Rightarrow> int" where
  "record_version r = int_of_js (get_prop r ''version'')"

definition version_in :: "order_store \<Rightarrow> string \<Rightarrow> int" where
  "version_in m i = (case m i of None \<Rightarrow> 0 | Some r \<Rightarrow> record_version r)"

text \<open>\<open>structuredClone({ ...order, version })\<close> with the next version of that order.\<close>

definition next_record :: "order_store \<Rightarrow> jsval \<Rightarrow> jsval result" where
  "next_record m order =
     (let version = version_in m (order_key order) + 1 in
      case order of
        JObj fs \<Rightarrow> structuredClone (JObj (put_prop ''version'' (JInt version) fs))
      | _ \<Rightarrow> structuredClone (JObj [(''version'', JInt version)]))"

text \<open>\<open>map.set(record.id, record)\<close>\<close>

definition put_record :: "jsval \<Rightarrow> order_store \<Rightarrow> order_store" where
  "put_record r m = m(order_key r \<mapsto> r)"

lemma has_function_put_prop:
  "\<not> has_function v \<Longrightarrow> \<not> has_function (JObj fs) \<Longrightarrow> \<not> has_function (JObj (put_prop k v fs))"
proof (induction fs)
  case (Cons p fs)
  then show ?case by (cases p) auto
qed simp

lemma next_record_fields:
  assumes "next_record m order = Inr r" and "valid_order order"
  shows "order_key r = order_key order" and "record_version r = version_in m (order_key order) + 1"
proof -
  obtain fs where fs: "order = JObj fs" using assms(2) by (auto simp: valid_order_def is_plain_object_iff)
  define n where "n = version_in m (order_key order) + 1"
  have "r = JObj (put_prop ''version'' (JInt n) fs)"
    using assms(1) fs by (simp add: next_record_def structuredClone_def Let_def n_def split: if_splits)
  then have "order_key r = order_key order \<and> record_version r = n"
    using fs by (simp add: order_key_def record_version_def)
  then show "order_key r = order_key order" and "record_version r = version_in m (order_key order) + 1"
    by (simp_all add: n_def)
qed

lemma next_record_ok:
  assumes "valid_order order" and "\<not> has_function order"
  shows "\<exists>x. next_record m order = Inr x"
proof -
  obtain fs where fs: "order = JObj fs" using assms(1) by (auto simp: valid_order_def is_plain_object_iff)
  have "\<not> has_function (JObj (put_prop ''version'' (JInt n) fs))" for n
    by (rule has_function_put_prop) (use assms(2) fs in simp_all)
  then show ?thesis by (simp only: next_record_def structuredClone_def Let_def fs jsval.case if_False) blast
qed

section \<open>Logs\<close>

definition store_of :: "jsval list \<Rightarrow> order_store" where
  "store_of hist = foldl (\<lambda>m r. put_record r m) Map.empty hist"

definition writes :: "string \<Rightarrow> jsval list \<Rightarrow> nat" where
  "writes i hist = length (filter (\<lambda>r. order_key r = i) hist)"

text \<open>Each entry carries the number of writes to its order so far.\<close>

definition log_ok :: "jsval list \<Rightarrow> bool" where
  "log_ok hist \<longleftrightarrow> (\<forall>pre r post. hist = pre @ r # post \<longrightarrow>
     record_version r = int (writes (order_key r) pre) + 1)"

lemma store_of_simps [simp]: "store_of [] = Map.empty"
  "store_of (hist @ [r]) = put_record r (store_of hist)"
  by (simp_all add: store_of_def)

lemma writes_simps [simp]: "writes i [] = 0"
  "writes i (hist @ hist') = writes i hist + writes i hist'"
  "writes i (r # hist) = (if order_key r = i then 1 else 0) + writes i hist"
  by (simp_all add: writes_def)

lemma log_ok_simps [simp]: "log_ok []"
  "log_ok (hist @ [r]) \<longleftrightarrow> log_ok hist \<and> record_version r = int (writes (order_key r) hist) + 1"
proof -
  show "log_ok []" by (simp add: log_ok_def)
  show "log_ok (hist @ [r]) \<longleftrightarrow> log_ok hist \<and> record_version r = int (writes (order_key r) hist) + 1"
  proof (intro iffI conjI)
    assume ok: "log_ok (hist @ [r])"
    show "log_ok hist" unfolding log_ok_def
      by (metis append.assoc append_Cons log_ok_def ok)
    show "record_version r = int (writes (order_key r) hist) + 1"
      using ok by (simp add: log_ok_def)
  next
    assume "log_ok hist \<and> record_version r = int (writes (order_key r) hist) + 1"
    then show "log_ok (hist @ [r])"
      unfolding log_ok_def by (auto simp: append_eq_append_conv2 append_eq_Cons_conv Cons_eq_append_conv)
  qed
qed

lemma log_ok_prefix: "log_ok (hist @ hist') \<Longrightarrow> log_ok hist"
  unfolding log_ok_def by (metis append.assoc append_Cons)

lemma store_of_key: "store_of hist i = Some r \<Longrightarrow> order_key r = i \<and> r \<in> set hist"
  by (induction hist arbitrary: r rule: rev_induct) (auto simp: put_record_def split: if_splits)

text \<open>The version of an order in the store of a log is its number of writes.\<close>

lemma version_in_store_of: "log_ok hist \<Longrightarrow> version_in (store_of hist) i = int (writes i hist)"
proof (induction hist rule: rev_induct)
  case (snoc r hist)
  then show ?case by (auto simp: version_in_def put_record_def)
qed (simp add: version_in_def)

lemma store_of_present: "log_ok hist \<Longrightarrow> store_of hist i = None \<longleftrightarrow> writes i hist = 0"
  by (induction hist rule: rev_induct) (auto simp: put_record_def)

lemma log_ok_next:
  assumes "log_ok hist" and "valid_order order" and "next_record (store_of hist) order = Inr r"
  shows "log_ok (hist @ [r])"
  using assms next_record_fields [OF assms(3,2)] version_in_store_of [OF assms(1)] by simp

lemma store_of_unwritten: "writes i hist' = 0 \<Longrightarrow> store_of (hist @ hist') i = store_of hist i"
proof (induction hist' rule: rev_induct)
  case (snoc r hist')
  moreover have "store_of (hist @ hist' @ [r]) = put_record r (store_of (hist @ hist'))"
    using store_of_simps(2) [of "hist @ hist'" r] by simp
  ultimately show ?case by (auto simp: put_record_def split: if_splits)
qed simp

section \<open>Copies that follow a log\<close>

locale log_follower =
  fixes source :: "'s \<Rightarrow> order_store" and view :: "'s \<Rightarrow> order_store"
    and pending :: "'s \<Rightarrow> jsval list" and advance :: "'s \<Rightarrow> 's" and wf :: "'s \<Rightarrow> bool"
  assumes follows: "wf s \<Longrightarrow> \<exists>applied. log_ok (applied @ pending s)
      \<and> source s = store_of (applied @ pending s) \<and> view s = store_of applied"
    and advance_wf: "wf s \<Longrightarrow> wf (advance s)"
    and advance_source: "wf s \<Longrightarrow> source (advance s) = source s"
    and advance_pending: "wf s \<Longrightarrow> pending (advance s) = tl (pending s)"
begin

text \<open>The copy lags by exactly the pending updates of each order, and is never ahead.\<close>

lemma version_lag:
  assumes "wf s"
  shows "version_in (source s) i = version_in (view s) i + int (writes i (pending s))"
proof -
  obtain applied where ok: "log_ok (applied @ pending s)"
    and eq: "source s = store_of (applied @ pending s)" "view s = store_of applied"
    using follows [OF assms] by blast
  show ?thesis
    unfolding eq version_in_store_of [OF ok] version_in_store_of [OF log_ok_prefix [OF ok]] by simp
qed

lemma never_ahead: "wf s \<Longrightarrow> version_in (view s) i \<le> version_in (source s) i"
  by (simp add: version_lag)

text \<open>Whatever the copy holds for an order with nothing pending is what the source holds.\<close>

lemma current_when_idle:
  assumes "wf s" and "writes i (pending s) = 0"
  shows "view s i = source s i"
  using follows [OF assms(1)] store_of_unwritten [OF assms(2)] by auto

lemma view_key: "wf s \<Longrightarrow> view s i = Some r \<Longrightarrow> order_key r = i"
  using follows store_of_key by metis

lemma advance_all:
  assumes "wf s"
  shows "wf ((advance ^^ n) s) \<and> source ((advance ^^ n) s) = source s
    \<and> pending ((advance ^^ n) s) = drop n (pending s)"
proof (induction n)
  case (Suc n)
  then show ?case
    using advance_wf advance_source advance_pending by (simp add: tl_drop drop_Suc)
qed (use assms in simp)

lemma catches_up:
  assumes "wf s" and "length (pending s) \<le> n"
  shows "view ((advance ^^ n) s) = source s"
proof
  fix i
  show "view ((advance ^^ n) s) i = source s i"
    using advance_all [OF assms(1), of n] assms(2)
      current_when_idle [of "(advance ^^ n) s" i] by simp
qed

text \<open>Applying one update never takes an order of the copy back to an older version.\<close>

lemma advance_monotone:
  assumes "wf s"
  shows "version_in (view s) i \<le> version_in (view (advance s)) i"
proof -
  have "writes i (pending (advance s)) \<le> writes i (pending s)"
    using advance_pending [OF assms] by (cases "pending s") auto
  then show ?thesis
    using version_lag [OF assms, of i] version_lag [OF advance_wf [OF assms], of i]
      advance_source [OF assms] by simp
qed

end

end
