(* ===== verification/Leader_Election.thy ===== *)
theory Leader_Election
  imports Errors
begin

text \<open>
  The leader election of \<open>packages/concurrency/src/leader-election-simulation.js\<close>.
  An operation takes what the injected clock would return if it were called (a
  value or a thrown error); the state it leaves behind is returned beside its
  result, because \<open>heartbeat\<close> can replace the leader and then throw.
\<close>

section \<open>State and construction\<close>

record election =
  le_configuredWorkers :: "string list"
  le_failedWorkers :: "string list"
  le_leaderId :: "string option"
  le_lastHeartbeatAt :: "rat option"
  le_heartbeatTimeoutMs :: rat

definition valid_ids :: "(nat \<Rightarrow> bool) \<Rightarrow> jsval \<Rightarrow> bool" where
  "valid_ids size_ok v = (case v of
      JArr vs \<Rightarrow> size_ok (length vs) \<and> list_all (\<lambda>x. typeof_string x \<and> js_str x \<noteq> []) vs
                   \<and> distinct (map js_str vs)
    | _ \<Rightarrow> False)"

definition id_list :: "jsval \<Rightarrow> string list" where
  "id_list v = (case v of JArr vs \<Rightarrow> map js_str vs | _ \<Rightarrow> [])"

definition validateWorkerIds :: "jsval \<Rightarrow> unit result" where
  "validateWorkerIds workerIds =
     (if valid_ids (\<lambda>n. 2 \<le> n) workerIds then Inr ()
      else Inl (type_error ''Leader election requires at least two distinct non-empty worker IDs''))"

definition createLeaderElectionSimulation :: "jsval \<Rightarrow> jsval \<Rightarrow> jsval \<Rightarrow> election result" where
  "createLeaderElectionSimulation workerIds heartbeatTimeoutMs now =
     (case validateWorkerIds workerIds of
        Inl e \<Rightarrow> Inl e
      | Inr _ \<Rightarrow>
          if \<not> is_positive_integer heartbeatTimeoutMs
          then Inl (range_error ''Heartbeat timeout must be a positive integer'')
          else if now \<noteq> JFun then Inl (type_error ''Leader election clock must be a function'')
          else Inr \<lparr>le_configuredWorkers = id_list workerIds, le_failedWorkers = [],
                    le_leaderId = None, le_lastHeartbeatAt = None,
                    le_heartbeatTimeoutMs = of_int (int_of_js heartbeatTimeoutMs)\<rparr>)"

section \<open>Operations\<close>

definition readClock :: "jsval result \<Rightarrow> rat result" where
  "readClock reading = (case reading of
      Inl e \<Rightarrow> Inl e
    | Inr (JNum (Fin t)) \<Rightarrow> Inr t
    | Inr _ \<Rightarrow> Inl (type_error ''Leader election clock must return a finite number''))"

definition electLeaderAt :: "rat \<Rightarrow> election \<Rightarrow> election" where
  "electLeaderAt timestamp s =
     (if le_leaderId s \<noteq> None then s
      else (let leader = find (\<lambda>w. w \<notin> set (le_failedWorkers s)) (le_configuredWorkers s)
            in s\<lparr>le_leaderId := leader,
                 le_lastHeartbeatAt := (if leader = None then None else Some timestamp)\<rparr>))"

definition electLeader :: "jsval result \<Rightarrow> election \<Rightarrow> election \<times> string option result" where
  "electLeader reading s =
     (if le_leaderId s = None then
        (case readClock reading of
           Inl e \<Rightarrow> (s, Inl e)
         | Inr t \<Rightarrow> (let s' = electLeaderAt t s in (s', Inr (le_leaderId s'))))
      else (s, Inr (le_leaderId s)))"

definition replaceExpiredLeader :: "rat \<Rightarrow> election \<Rightarrow> election" where
  "replaceExpiredLeader timestamp s =
     electLeaderAt timestamp
       (s\<lparr>le_failedWorkers := List.insert (the (le_leaderId s)) (le_failedWorkers s),
          le_leaderId := None, le_lastHeartbeatAt := None\<rparr>)"

definition getLeader :: "election \<Rightarrow> string option" where
  "getLeader s = le_leaderId s"

text \<open>\<open>timestamp - lastHeartbeatAt\<close>, where \<open>null\<close> counts as zero.\<close>

definition silence :: "rat \<Rightarrow> election \<Rightarrow> rat" where
  "silence timestamp s = timestamp - (case le_lastHeartbeatAt s of None \<Rightarrow> 0 | Some t \<Rightarrow> t)"

definition heartbeat :: "string \<Rightarrow> jsval result \<Rightarrow> election \<Rightarrow> election \<times> unit result" where
  "heartbeat workerId reading s =
     (if workerId \<notin> set (le_configuredWorkers s)
      then (s, Inl (range_error (''Unknown worker ID: '' @ workerId)))
      else (case readClock reading of
              Inl e \<Rightarrow> (s, Inl e)
            | Inr t \<Rightarrow>
                (let s1 = (if le_leaderId s \<noteq> None \<and> le_heartbeatTimeoutMs s \<le> silence t s
                           then replaceExpiredLeader t s else s)
                 in if le_leaderId s1 \<noteq> Some workerId
                    then (s1, Inl (plain_error ''Only the current leader can send a heartbeat''))
                    else (s1\<lparr>le_lastHeartbeatAt := Some t\<rparr>, Inr ()))))"

definition checkLeader :: "jsval result \<Rightarrow> election \<Rightarrow> election \<times> string option result" where
  "checkLeader reading s =
     (if le_leaderId s = None then electLeader reading s
      else (case readClock reading of
              Inl e \<Rightarrow> (s, Inl e)
            | Inr t \<Rightarrow>
                if silence t s < le_heartbeatTimeoutMs s then (s, Inr (le_leaderId s))
                else (let s' = replaceExpiredLeader t s in (s', Inr (le_leaderId s')))))"

section \<open>Runs\<close>

datatype election_event =
    ElectLeader "jsval result" | Heartbeat string "jsval result" | CheckLeader "jsval result"

fun election_step :: "election \<Rightarrow> election_event \<Rightarrow> election" where
  "election_step s (ElectLeader r) = fst (electLeader r s)"
| "election_step s (Heartbeat w r) = fst (heartbeat w r s)"
| "election_step s (CheckLeader r) = fst (checkLeader r s)"

inductive election_reachable :: "election \<Rightarrow> bool" where
  "createLeaderElectionSimulation ws timeout now = Inr s \<Longrightarrow> election_reachable s"
| "election_reachable s \<Longrightarrow> election_reachable (election_step s e)"

section \<open>Terms\<close>

text \<open>
  The abstract state is a term number: the leaders of the first \<open>k\<close> terms failed,
  the worker at position \<open>k\<close> leads.  \<open>in_term k\<close> relates the concrete state to it.
\<close>

definition term_leader :: "election \<Rightarrow> nat \<Rightarrow> string option" where
  "term_leader s k = (if k < length (le_configuredWorkers s) then Some (le_configuredWorkers s ! k)
     else None)"

definition in_term :: "nat \<Rightarrow> election \<Rightarrow> bool" where
  "in_term k s \<longleftrightarrow> distinct (le_configuredWorkers s) \<and> k \<le> length (le_configuredWorkers s)
     \<and> set (le_failedWorkers s) = set (take k (le_configuredWorkers s))
     \<and> (le_leaderId s = term_leader s k \<or> le_leaderId s = None \<and> k = 0)
     \<and> (le_lastHeartbeatAt s = None \<longleftrightarrow> le_leaderId s = None)
     \<and> 0 < le_heartbeatTimeoutMs s \<and> 2 \<le> length (le_configuredWorkers s)"

lemma find_first_unfailed:
  assumes "distinct ws" and "set fs = set (take k ws)" and "k \<le> length ws"
  shows "find (\<lambda>w. w \<notin> set fs) ws = (if k < length ws then Some (ws ! k) else None)"
proof (cases "k < length ws")
  case True
  have "ws ! k \<notin> set (take k ws)"
    using assms(1) True by (auto simp: in_set_conv_nth nth_eq_iff_index_eq)
  moreover have "ws ! j \<in> set (take k ws)" if "j < k" for j
    using that True by (auto simp: in_set_conv_nth)
  ultimately show ?thesis
    using True assms(2) by (auto simp: find_Some_iff)
next
  case False
  then show ?thesis using assms by (simp add: find_None_iff)
qed

lemma electLeaderAt_term:
  assumes "in_term k s" and "le_leaderId s = None"
  shows "electLeaderAt t s = s\<lparr>le_leaderId := term_leader s k,
      le_lastHeartbeatAt := (if term_leader s k = None then None else Some t)\<rparr>"
    and "in_term k (electLeaderAt t s)"
proof -
  have "find (\<lambda>w. w \<notin> set (le_failedWorkers s)) (le_configuredWorkers s) = term_leader s k"
    using find_first_unfailed [of "le_configuredWorkers s"] assms by (simp add: in_term_def term_leader_def)
  then show eq: "electLeaderAt t s = s\<lparr>le_leaderId := term_leader s k,
      le_lastHeartbeatAt := (if term_leader s k = None then None else Some t)\<rparr>"
    using assms(2) by (simp add: electLeaderAt_def Let_def)
  show "in_term k (electLeaderAt t s)"
    unfolding eq using assms by (auto simp: in_term_def term_leader_def)
qed

text \<open>Replacing a leader moves to the next term, whose leader starts with a fresh heartbeat.\<close>

lemma replaceExpiredLeader_term:
  assumes "in_term k s" and "le_leaderId s = Some w"
  shows "in_term (Suc k) (replaceExpiredLeader t s)"
    and "le_leaderId (replaceExpiredLeader t s) = term_leader s (Suc k)"
    and "le_lastHeartbeatAt (replaceExpiredLeader t s)
      = (if term_leader s (Suc k) = None then None else Some t)"
    and "le_configuredWorkers (replaceExpiredLeader t s) = le_configuredWorkers s"
    and "w \<in> set (le_failedWorkers (replaceExpiredLeader t s))"
proof -
  have w: "k < length (le_configuredWorkers s)" "w = le_configuredWorkers s ! k"
    using assms by (auto simp: in_term_def term_leader_def split: if_splits)
  let ?fs = "List.insert w (le_failedWorkers s)"
  have fs: "set ?fs = set (take (Suc k) (le_configuredWorkers s))"
    using assms w by (simp add: in_term_def take_Suc_conv_app_nth)
  have find: "find (\<lambda>x. x \<notin> set ?fs) (le_configuredWorkers s) = term_leader s (Suc k)"
    using find_first_unfailed [of "le_configuredWorkers s" ?fs "Suc k"] fs assms(1) w(1)
    by (simp add: in_term_def term_leader_def)
  have eq: "replaceExpiredLeader t s = s\<lparr>le_failedWorkers := ?fs,
      le_leaderId := term_leader s (Suc k),
      le_lastHeartbeatAt := (if term_leader s (Suc k) = None then None else Some t)\<rparr>"
    using find assms(2) by (simp add: replaceExpiredLeader_def electLeaderAt_def Let_def)
  show "in_term (Suc k) (replaceExpiredLeader t s)"
    unfolding eq using assms(1) fs w(1) by (auto simp: in_term_def term_leader_def)
  show "le_leaderId (replaceExpiredLeader t s) = term_leader s (Suc k)"
    and "le_lastHeartbeatAt (replaceExpiredLeader t s)
      = (if term_leader s (Suc k) = None then None else Some t)"
    and "le_configuredWorkers (replaceExpiredLeader t s) = le_configuredWorkers s"
    and "w \<in> set (le_failedWorkers (replaceExpiredLeader t s))"
    unfolding eq by simp_all
qed

lemma in_term_created:
  assumes "createLeaderElectionSimulation ws timeout now = Inr s"
  shows "in_term 0 s"
proof -
  obtain vs where "ws = JArr vs" "2 \<le> length vs" "distinct (map js_str vs)"
    "is_positive_integer timeout" and s: "le_configuredWorkers s = map js_str vs"
    "le_failedWorkers s = []" "le_leaderId s = None" "le_lastHeartbeatAt s = None"
    "le_heartbeatTimeoutMs s = of_int (int_of_js timeout)"
    using assms by (auto simp: createLeaderElectionSimulation_def validateWorkerIds_def valid_ids_def
        id_list_def split: if_splits jsval.splits)
  then show ?thesis by (auto simp: in_term_def elim!: is_positive_integerE)
qed

text \<open>One step stays in its term or moves to the next one.\<close>

lemma election_step_term:
  assumes "in_term k s"
  shows "in_term k (election_step s e) \<or> in_term (Suc k) (election_step s e)"
    and "le_configuredWorkers (election_step s e) = le_configuredWorkers s"
proof -
  have elect: "in_term k (fst (electLeader r s))"
    "le_configuredWorkers (fst (electLeader r s)) = le_configuredWorkers s" for r
    using assms electLeaderAt_term [OF assms]
    by (auto simp: electLeader_def Let_def split: sum.splits)
  have replace: "in_term (Suc k) (replaceExpiredLeader t s)"
    "le_configuredWorkers (replaceExpiredLeader t s) = le_configuredWorkers s"
    if "le_leaderId s \<noteq> None" for t
    using replaceExpiredLeader_term [OF assms] that by auto
  have beat: "in_term j (s'\<lparr>le_lastHeartbeatAt := Some t\<rparr>)"
    if "in_term j s'" "le_leaderId s' = Some w" for j s' t w
    using that by (auto simp: in_term_def term_leader_def split: if_splits)
  have check: "(in_term k (fst (checkLeader r s)) \<or> in_term (Suc k) (fst (checkLeader r s)))
      \<and> le_configuredWorkers (fst (checkLeader r s)) = le_configuredWorkers s" for r
    using assms elect replace by (auto simp: checkLeader_def Let_def split: sum.splits)
  have heart: "(in_term k (fst (heartbeat w r s)) \<or> in_term (Suc k) (fst (heartbeat w r s)))
      \<and> le_configuredWorkers (fst (heartbeat w r s)) = le_configuredWorkers s" for w r
    using assms replace beat by (auto simp: heartbeat_def Let_def split: sum.splits)
  show "in_term k (election_step s e) \<or> in_term (Suc k) (election_step s e)"
    and "le_configuredWorkers (election_step s e) = le_configuredWorkers s"
    using elect check heart by (cases e; simp)+
qed

lemma election_reachable_term: "election_reachable s \<Longrightarrow> \<exists>k. in_term k s"
proof (induction rule: election_reachable.induct)
  case (2 s e)
  then show ?case using election_step_term(1) by blast
qed (auto dest: in_term_created)

lemma in_term_leader_not_failed:
  assumes "in_term k s" and "le_leaderId s = Some w"
  shows "w \<notin> set (le_failedWorkers s)"
  using assms by (auto simp: in_term_def term_leader_def in_set_conv_nth nth_eq_iff_index_eq
      split: if_splits)

lemma election_run_term:
  "in_term k s \<Longrightarrow> \<exists>k'. k \<le> k' \<and> in_term k' (foldl election_step s es)
     \<and> le_configuredWorkers (foldl election_step s es) = le_configuredWorkers s"
proof (induction es arbitrary: s k)
  case (Cons e es)
  obtain j where j: "k \<le> j" "in_term j (election_step s e)"
    using election_step_term(1) [OF Cons.prems, of e] by (meson le_Suc_eq order_refl)
  from Cons.IH [OF j(2)] show ?case
    using j(1) election_step_term(2) [OF Cons.prems, of e] by (auto intro: le_trans)
qed auto

lemma failed_monotone:
  assumes "in_term k s"
  shows "set (le_failedWorkers s) \<subseteq> set (le_failedWorkers (foldl election_step s es))"
proof -
  obtain k' where "k \<le> k'" "in_term k' (foldl election_step s es)"
    "le_configuredWorkers (foldl election_step s es) = le_configuredWorkers s"
    using election_run_term [OF assms] by blast
  then have "set (le_failedWorkers s) = set (take k (le_configuredWorkers s))"
    and "set (le_failedWorkers (foldl election_step s es)) = set (take k' (le_configuredWorkers s))"
    using assms by (simp_all add: in_term_def)
  then show ?thesis using set_take_subset_set_take [OF \<open>k \<le> k'\<close>] by simp
qed

section \<open>Properties\<close>

definition at_time :: "rat \<Rightarrow> jsval result" where
  "at_time t = Inr (JNum (Fin t))"

lemma readClock_at_time [simp]: "readClock (at_time t) = Inr t"
  by (simp add: readClock_def at_time_def)

definition sample_election :: election where
  "sample_election = \<lparr>le_configuredWorkers = [''a'', ''b'', ''c''], le_failedWorkers = [],
     le_leaderId = None, le_lastHeartbeatAt = None, le_heartbeatTimeoutMs = 100\<rparr>"

definition sample_led :: election where
  "sample_led = \<lparr>le_configuredWorkers = [''a'', ''b'', ''c''], le_failedWorkers = [''a''],
     le_leaderId = Some ''b'', le_lastHeartbeatAt = Some 100, le_heartbeatTimeoutMs = 100\<rparr>"

lemma sample_election_reachable: "election_reachable sample_election"
  by (rule election_reachable.intros(1) [of "JArr [JStr ''a'', JStr ''b'', JStr ''c'']" "JInt 100" JFun])
    (simp add: createLeaderElectionSimulation_def validateWorkerIds_def valid_ids_def id_list_def
      sample_election_def typeof_string_def int_of_js_def)

lemma sample_led_reachable: "election_reachable sample_led"
proof -
  have "election_step (election_step sample_election (ElectLeader (at_time 0))) (CheckLeader (at_time 100))
      = sample_led"
    by (simp add: sample_election_def sample_led_def electLeader_def electLeaderAt_def checkLeader_def
        silence_def replaceExpiredLeader_def Let_def)
  then show ?thesis by (metis election_reachable.intros(2) sample_election_reachable)
qed

text \<open>
  One leader per term, in the configured order.  In every reachable state the
  failed workers are the first \<open>k\<close> configured ones for some \<open>k\<close>; a leader, if there
  is one, is the worker at position \<open>k\<close>, so it is known and has not failed; and
  there is none only before the first election or after all workers failed.
\<close>

theorem election_terms:
  assumes "election_reachable s"
  shows "\<exists>k. set (le_failedWorkers s) = set (take k (le_configuredWorkers s))
    \<and> k \<le> length (le_configuredWorkers s)
    \<and> (case getLeader s of
          Some w \<Rightarrow> k < length (le_configuredWorkers s) \<and> w = le_configuredWorkers s ! k
            \<and> w \<notin> set (le_failedWorkers s) \<and> le_lastHeartbeatAt s \<noteq> None
        | None \<Rightarrow> (k = 0 \<or> k = length (le_configuredWorkers s)) \<and> le_lastHeartbeatAt s = None)"
proof -
  obtain k where k: "in_term k s" using election_reachable_term [OF assms] by blast
  then show ?thesis
    using in_term_leader_not_failed [OF k]
    by (intro exI [of _ k])
      (auto simp: in_term_def term_leader_def getLeader_def split: option.splits if_splits)
qed

theorem election_terms_witness:
  "\<exists>k. set (le_failedWorkers sample_led) = set (take k (le_configuredWorkers sample_led))
    \<and> k \<le> length (le_configuredWorkers sample_led)
    \<and> (case getLeader sample_led of
          Some w \<Rightarrow> k < length (le_configuredWorkers sample_led) \<and> w = le_configuredWorkers sample_led ! k
            \<and> w \<notin> set (le_failedWorkers sample_led) \<and> le_lastHeartbeatAt sample_led \<noteq> None
        | None \<Rightarrow> (k = 0 \<or> k = length (le_configuredWorkers sample_led))
            \<and> le_lastHeartbeatAt sample_led = None)"
  by (rule election_terms [OF sample_led_reachable])

text \<open>A leader keeps its term: it leads until it is recorded as failed.\<close>

lemma election_step_leader:
  assumes "in_term k s" and "le_leaderId s = Some w"
  shows "le_leaderId (election_step s e) = Some w \<or> w \<in> set (le_failedWorkers (election_step s e))"
proof -
  have replaced: "w \<in> set (le_failedWorkers (replaceExpiredLeader t s))" for t
    by (rule replaceExpiredLeader_term(5) [OF assms])
  show ?thesis
    using assms(2) replaced
    by (cases e) (auto simp: electLeader_def checkLeader_def heartbeat_def Let_def split: sum.split)
qed

lemma election_run_leader:
  "in_term k s \<Longrightarrow> le_leaderId s = Some w \<Longrightarrow>
     le_leaderId (foldl election_step s es) = Some w \<or> w \<in> set (le_failedWorkers (foldl election_step s es))"
proof (induction es arbitrary: s k)
  case (Cons e es)
  obtain j where j: "in_term j (election_step s e)" using election_step_term(1) [OF Cons.prems(1)] by blast
  show ?case
    using election_step_leader [OF Cons.prems, of e] Cons.IH [OF j] failed_monotone [OF j, of es] by auto
qed simp

lemma failed_never_leads:
  assumes "in_term k s" and "w \<in> set (le_failedWorkers s)"
  shows "getLeader (foldl election_step s es) \<noteq> Some w
    \<and> (\<exists>e. snd (heartbeat w r (foldl election_step s es)) = Inl e)"
proof -
  have later: "getLeader (foldl election_step s xs) \<noteq> Some w" for xs
    using failed_monotone [OF assms(1), of xs] election_run_term [OF assms(1), of xs] assms(2) in_term_leader_not_failed
    by (fastforce simp: getLeader_def)
  let ?t = "foldl election_step s es"
  have "getLeader (fst (heartbeat w r ?t)) \<noteq> Some w" using later [of "es @ [Heartbeat w r]"] by simp
  then have "\<exists>e. snd (heartbeat w r ?t) = Inl e"
    by (auto simp: heartbeat_def Let_def getLeader_def split: sum.splits if_splits)
  then show ?thesis using later [of es] by simp
qed

text \<open>A check, or a heartbeat of any known worker, that reads the time \<open>t\<close>.\<close>

definition reads_time :: "election \<Rightarrow> rat \<Rightarrow> election_event \<Rightarrow> bool" where
  "reads_time s t e = (case e of
      CheckLeader r \<Rightarrow> r = at_time t
    | Heartbeat v r \<Rightarrow> r = at_time t \<and> v \<in> set (le_configuredWorkers s)
    | ElectLeader r \<Rightarrow> False)"

text \<open>
  C34. An expired leader never returns.  A leader keeps leading, whatever is called, until it is recorded as
  failed.  The first check or heartbeat of any known worker at or after the heartbeat timeout of the leader, its own
  heartbeat included, ends its leadership for good: it is recorded as failed, no further operations in any order
  make it leader again, and each of its later heartbeats is refused.
\<close>

theorem election_no_return:
  assumes "election_reachable s" and "getLeader s = Some w"
  shows "(getLeader (foldl election_step s es) = Some w \<or> w \<in> set (le_failedWorkers (foldl election_step s es)))
    \<and> (\<exists>t0. le_lastHeartbeatAt s = Some t0 \<and>
        (\<forall>t e. le_heartbeatTimeoutMs s \<le> t - t0 \<longrightarrow> reads_time s t e \<longrightarrow>
           w \<in> set (le_failedWorkers (election_step s e))
         \<and> getLeader (foldl election_step s (e # es)) \<noteq> Some w
         \<and> (\<exists>x. snd (heartbeat w r (foldl election_step s (e # es))) = Inl x)))"
proof -
  obtain k where k: "in_term k s" using election_reachable_term [OF assms(1)] by blast
  have led: "le_leaderId s = Some w" using assms(2) by (simp add: getLeader_def)
  obtain t0 where t0: "le_lastHeartbeatAt s = Some t0" using k led by (auto simp: in_term_def)
  have "w \<in> set (le_failedWorkers (election_step s e))"
    if "le_heartbeatTimeoutMs s \<le> t - t0" "reads_time s t e" for t e
    using that led t0 replaceExpiredLeader_term(5) [OF k led]
    by (cases e) (auto simp: reads_time_def checkLeader_def heartbeat_def silence_def Let_def)
  moreover have "getLeader (foldl election_step s (e # es)) \<noteq> Some w
      \<and> (\<exists>x. snd (heartbeat w r (foldl election_step s (e # es))) = Inl x)"
    if failed: "w \<in> set (le_failedWorkers (election_step s e))" for e
  proof -
    obtain j where "in_term j (election_step s e)" using election_step_term(1) [OF k] by blast
    from failed_never_leads [OF this failed, of es r] show ?thesis by simp
  qed
  ultimately show ?thesis using election_run_leader [OF k led, of es] t0 by (simp add: getLeader_def)
qed

theorem election_no_return_witness:
  "getLeader (foldl election_step sample_led [Heartbeat ''b'' (at_time 200), CheckLeader (at_time 300)]) \<noteq> Some ''b''
    \<and> (\<exists>e. snd (heartbeat ''b'' (at_time 310)
          (foldl election_step sample_led [Heartbeat ''b'' (at_time 200), CheckLeader (at_time 300)])) = Inl e)"
proof -
  have "getLeader sample_led = Some ''b''" by (simp add: sample_led_def getLeader_def)
  from election_no_return [OF sample_led_reachable this, of "[CheckLeader (at_time 300)]" "at_time 310"]
  obtain t0 where t0: "le_lastHeartbeatAt sample_led = Some t0"
    and gone: "\<forall>t e. le_heartbeatTimeoutMs sample_led \<le> t - t0 \<longrightarrow> reads_time sample_led t e \<longrightarrow>
       w \<in> set (le_failedWorkers (election_step sample_led e))
     \<and> getLeader (foldl election_step sample_led (e # [CheckLeader (at_time 300)])) \<noteq> Some ''b''
     \<and> (\<exists>x. snd (heartbeat ''b'' (at_time 310) (foldl election_step sample_led (e # [CheckLeader (at_time 300)]))) = Inl x)"
    if "w = ''b''" for w
    by auto
  have "le_heartbeatTimeoutMs sample_led \<le> 200 - t0" "reads_time sample_led 200 (Heartbeat ''b'' (at_time 200))"
    using t0 by (auto simp: sample_led_def reads_time_def)
  then show ?thesis using gone [OF refl] by blast
qed

text \<open>
  Failover exactly at the timeout.  A check before the heartbeat timeout keeps the
  leader and the state; a check at or after it records the leader as failed and
  elects the first configured worker that has not failed (none when all have),
  whose own heartbeat period starts at the time of the check.
\<close>

theorem election_failover:
  assumes "election_reachable s" and "getLeader s = Some w"
  shows "\<exists>t'. le_lastHeartbeatAt s = Some t' \<and> checkLeader (at_time t) s =
    (if t - t' < le_heartbeatTimeoutMs s then (s, Inr (Some w))
     else (let next = find (\<lambda>x. x \<noteq> w \<and> x \<notin> set (le_failedWorkers s)) (le_configuredWorkers s)
           in (s\<lparr>le_failedWorkers := w # le_failedWorkers s, le_leaderId := next,
                 le_lastHeartbeatAt := (if next = None then None else Some t)\<rparr>, Inr next)))"
proof -
  obtain k where k: "in_term k s" using election_reachable_term [OF assms(1)] by blast
  then obtain t' where "le_lastHeartbeatAt s = Some t'"
    using assms(2) by (auto simp: in_term_def getLeader_def)
  moreover have "w \<notin> set (le_failedWorkers s)"
    using in_term_leader_not_failed [OF k] assms(2) by (simp add: getLeader_def)
  ultimately show ?thesis using assms(2)
    by (simp add: checkLeader_def replaceExpiredLeader_def electLeaderAt_def Let_def getLeader_def
        silence_def)
qed

theorem election_failover_witness:
  "checkLeader (at_time 199) sample_led = (sample_led, Inr (Some ''b''))
    \<and> snd (checkLeader (at_time 200) sample_led) = Inr (Some ''c'')"
proof -
  have led: "getLeader sample_led = Some ''b''" "le_lastHeartbeatAt sample_led = Some 100"
    "le_heartbeatTimeoutMs sample_led = 100" "le_failedWorkers sample_led = [''a'']"
    "le_configuredWorkers sample_led = [''a'', ''b'', ''c'']"
    by (simp_all add: sample_led_def getLeader_def)
  show ?thesis
    using election_failover [OF sample_led_reachable led(1), of 199]
      election_failover [OF sample_led_reachable led(1), of 200]
    by (simp add: led Let_def)
qed

end
