(* ===== verification/Replication.thy ===== *)
theory Replication
  imports Versioned_Store Leader_Election
begin

text \<open>
  The order replication of \<open>packages/concurrency/src/replication-simulation.js\<close>: a
  primary store, two replica stores and one list of pending updates per replica.
  Stored records are cloned on the way in and on the way out, so values suffice.
\<close>

section \<open>State and operations\<close>

record replication =
  or_replicaIds :: "string list"
  or_primary :: order_store
  or_replicaState :: "string \<rightharpoonup> order_store"
  or_pendingReplication :: "string \<rightharpoonup> jsval list"

definition validateReplicaIds :: "jsval \<Rightarrow> unit result" where
  "validateReplicaIds replicaIds =
     (if valid_ids (\<lambda>n. n = 2) replicaIds then Inr ()
      else Inl (type_error ''Replication simulation requires two distinct non-empty replica IDs''))"

definition validateReplicatedOrder :: "jsval \<Rightarrow> unit result" where
  "validateReplicatedOrder order =
     (if valid_order order then Inr ()
      else Inl (type_error ''Replicated order must have a non-empty string ID''))"

definition createOrderReplicationSimulation :: "jsval \<Rightarrow> replication result" where
  "createOrderReplicationSimulation replicaIds = (case validateReplicaIds replicaIds of
      Inl e \<Rightarrow> Inl e
    | Inr _ \<Rightarrow> Inr \<lparr>or_replicaIds = id_list replicaIds, or_primary = Map.empty,
        or_replicaState = map_of (map (\<lambda>r. (r, Map.empty)) (id_list replicaIds)),
        or_pendingReplication = map_of (map (\<lambda>r. (r, [])) (id_list replicaIds))\<rparr>)"

definition stateFor :: "string \<Rightarrow> replication \<Rightarrow> order_store result" where
  "stateFor replicaId s = (case or_replicaState s replicaId of
      None \<Rightarrow> Inl (range_error (''Unknown replica ID: '' @ replicaId))
    | Some state \<Rightarrow> Inr state)"

definition push_pending :: "jsval \<Rightarrow> string \<Rightarrow> (string \<rightharpoonup> jsval list) \<Rightarrow> (string \<rightharpoonup> jsval list)" where
  "push_pending r replicaId p = (case p replicaId of
      None \<Rightarrow> p | Some us \<Rightarrow> p(replicaId \<mapsto> us @ [r]))"

definition writePrimary :: "jsval \<Rightarrow> replication \<Rightarrow> replication \<times> jsval result" where
  "writePrimary order s = (case validateReplicatedOrder order of
      Inl e \<Rightarrow> (s, Inl e)
    | Inr _ \<Rightarrow> (case next_record (or_primary s) order of
          Inl e \<Rightarrow> (s, Inl e)
        | Inr r \<Rightarrow> (s\<lparr>or_primary := put_record r (or_primary s),
                     or_pendingReplication :=
                       fold (push_pending r) (or_replicaIds s) (or_pendingReplication s)\<rparr>,
                   Inr r)))"

definition readPrimary :: "string \<Rightarrow> replication \<Rightarrow> jsval option" where
  "readPrimary orderId s = or_primary s orderId"

definition readReplica :: "string \<Rightarrow> string \<Rightarrow> replication \<Rightarrow> jsval option result" where
  "readReplica replicaId orderId s = (case stateFor replicaId s of
      Inl e \<Rightarrow> Inl e | Inr state \<Rightarrow> Inr (state orderId))"

definition replicateNext :: "string \<Rightarrow> replication \<Rightarrow> replication \<times> jsval option result" where
  "replicateNext replicaId s = (case stateFor replicaId s of
      Inl e \<Rightarrow> (s, Inl e)
    | Inr state \<Rightarrow> (case or_pendingReplication s replicaId of
          Some (update # us) \<Rightarrow>
            (s\<lparr>or_pendingReplication := (or_pendingReplication s)(replicaId \<mapsto> us),
               or_replicaState := (or_replicaState s)(replicaId \<mapsto> put_record update state)\<rparr>,
             Inr (Some update))
        | _ \<Rightarrow> (s, Inr None)))"

datatype replication_event = WritePrimary jsval | ReplicateNext string

fun replication_step :: "replication \<Rightarrow> replication_event \<Rightarrow> replication" where
  "replication_step s (WritePrimary order) = fst (writePrimary order s)"
| "replication_step s (ReplicateNext r) = fst (replicateNext r s)"

inductive replication_reachable :: "replication \<Rightarrow> bool" where
  "createOrderReplicationSimulation ids = Inr s \<Longrightarrow> replication_reachable s"
| "replication_reachable s \<Longrightarrow> replication_reachable (replication_step s e)"

section \<open>Each replica follows the primary's log\<close>

definition replica_view :: "string \<Rightarrow> replication \<Rightarrow> order_store" where
  "replica_view r s = (case or_replicaState s r of Some m \<Rightarrow> m | None \<Rightarrow> Map.empty)"

definition replica_pending :: "string \<Rightarrow> replication \<Rightarrow> jsval list" where
  "replica_pending r s = (case or_pendingReplication s r of Some us \<Rightarrow> us | None \<Rightarrow> [])"

definition replication_inv :: "replication \<Rightarrow> bool" where
  "replication_inv s \<longleftrightarrow> distinct (or_replicaIds s)
     \<and> dom (or_replicaState s) = set (or_replicaIds s)
     \<and> dom (or_pendingReplication s) = set (or_replicaIds s)
     \<and> (\<exists>hist. log_ok hist \<and> or_primary s = store_of hist
          \<and> (\<forall>r\<in>set (or_replicaIds s). \<exists>applied.
               hist = applied @ replica_pending r s \<and> replica_view r s = store_of applied))"

lemma fold_push_pending:
  assumes "distinct ids" and "set ids \<subseteq> dom p"
  shows "fold (push_pending x) ids p
    = (\<lambda>r. if r \<in> set ids then map_option (\<lambda>us. us @ [x]) (p r) else p r)"
  using assms
proof (induction ids arbitrary: p)
  case (Cons i ids)
  then obtain us where us: "p i = Some us" by auto
  then have "push_pending x i p = p(i \<mapsto> us @ [x])" by (simp add: push_pending_def)
  moreover have "distinct ids" "set ids \<subseteq> dom (p(i \<mapsto> us @ [x]))" using Cons.prems by auto
  note Cons.IH [OF this]
  ultimately have "fold (push_pending x) (i # ids) p = (\<lambda>r. if r \<in> set ids
      then map_option (\<lambda>us. us @ [x]) ((p(i \<mapsto> us @ [x])) r) else (p(i \<mapsto> us @ [x])) r)"
    by (simp only: fold_Cons comp_apply)
  then show ?case using Cons.prems(1) us by (simp only:) (rule ext, auto)
qed auto

lemma replication_inv_created:
  assumes "createOrderReplicationSimulation ids = Inr s"
  shows "replication_inv s"
proof -
  have ids: "distinct (id_list ids)" and s: "or_replicaIds s = id_list ids" "or_primary s = Map.empty"
    "or_replicaState s = map_of (map (\<lambda>r. (r, Map.empty)) (id_list ids))"
    "or_pendingReplication s = map_of (map (\<lambda>r. (r, [])) (id_list ids))"
    using assms by (auto simp: createOrderReplicationSimulation_def validateReplicaIds_def valid_ids_def
        id_list_def split: if_splits jsval.splits)
  have "replica_pending r s = []" "replica_view r s = Map.empty" for r
    by (auto simp: replica_pending_def replica_view_def s map_of_map_restrict restrict_map_def
        split: option.splits)
  then show ?thesis
    using ids by (auto simp: replication_inv_def s dom_map_of_conv_image_fst image_image intro!: exI [of _ "[]"])
qed

lemma replication_inv_write:
  assumes inv: "replication_inv s"
  shows "replication_inv (fst (writePrimary order s))"
proof (cases "valid_order order \<and> (\<exists>x. next_record (or_primary s) order = Inr x)")
  case True
  then obtain x where valid: "valid_order order" and x: "next_record (or_primary s) order = Inr x"
    by blast
  obtain hist where hist: "log_ok hist" "or_primary s = store_of hist"
    "\<forall>r\<in>set (or_replicaIds s). \<exists>applied.
       hist = applied @ replica_pending r s \<and> replica_view r s = store_of applied"
    using inv by (auto simp: replication_inv_def)
  let ?p = "fold (push_pending x) (or_replicaIds s) (or_pendingReplication s)"
  have p: "?p = (\<lambda>r. if r \<in> set (or_replicaIds s)
      then map_option (\<lambda>us. us @ [x]) (or_pendingReplication s r) else or_pendingReplication s r)"
    using fold_push_pending inv by (simp add: replication_inv_def)
  let ?s = "s\<lparr>or_primary := put_record x (or_primary s), or_pendingReplication := ?p\<rparr>"
  have step: "fst (writePrimary order s) = ?s"
    using valid x by (simp add: writePrimary_def validateReplicatedOrder_def)
  have pend: "replica_pending r ?s = replica_pending r s @ [x]" if "r \<in> set (or_replicaIds s)" for r
    using that inv by (auto simp: replica_pending_def p replication_inv_def dom_def split: option.splits)
  have "log_ok (hist @ [x])" using log_ok_next [OF hist(1) valid] x hist(2) by simp
  moreover have "\<forall>r\<in>set (or_replicaIds ?s). \<exists>applied.
      hist @ [x] = applied @ replica_pending r ?s \<and> replica_view r ?s = store_of applied"
    using hist(3) pend by (fastforce simp: replica_view_def)
  moreover have "dom ?p = set (or_replicaIds s)"
    using inv unfolding p replication_inv_def by (auto simp: dom_def)
  ultimately show ?thesis
    unfolding step using inv hist(2)
    by (auto simp: replication_inv_def intro!: exI [of _ "hist @ [x]"])
next
  case False
  then show ?thesis using inv
    by (auto simp: writePrimary_def validateReplicatedOrder_def split: sum.splits)
qed

lemma replicateNext_cases:
  assumes "replication_inv s"
  obtains (unknown) "r \<notin> set (or_replicaIds s)" "fst (replicateNext r s) = s"
  | (idle) "r \<in> set (or_replicaIds s)" "replica_pending r s = []" "fst (replicateNext r s) = s"
  | (update) x us where "r \<in> set (or_replicaIds s)" "replica_pending r s = x # us"
      "or_replicaIds (fst (replicateNext r s)) = or_replicaIds s"
      "or_primary (fst (replicateNext r s)) = or_primary s"
      "or_pendingReplication (fst (replicateNext r s)) = (or_pendingReplication s)(r \<mapsto> us)"
      "or_replicaState (fst (replicateNext r s))
         = (or_replicaState s)(r \<mapsto> put_record x (replica_view r s))"
proof (cases "r \<in> set (or_replicaIds s)")
  case False
  then have "or_replicaState s r = None" using assms by (auto simp: replication_inv_def)
  then show ?thesis using unknown False by (simp add: replicateNext_def stateFor_def)
next
  case True
  then obtain m us where "or_replicaState s r = Some m" "or_pendingReplication s r = Some us"
    using assms by (fastforce simp: replication_inv_def)
  then show ?thesis
    using True idle update by (cases us) (simp_all add: replicateNext_def stateFor_def
        replica_pending_def replica_view_def)
qed

lemma replication_inv_replicate:
  assumes inv: "replication_inv s"
  shows "replication_inv (fst (replicateNext r s))"
  using inv
proof (cases rule: replicateNext_cases [where r = r])
  case (update x us)
  obtain hist where hist: "log_ok hist" "or_primary s = store_of hist"
    "\<forall>q\<in>set (or_replicaIds s). \<exists>applied.
       hist = applied @ replica_pending q s \<and> replica_view q s = store_of applied"
    using inv by (auto simp: replication_inv_def)
  let ?s = "fst (replicateNext r s)"
  have "\<exists>applied. hist = applied @ replica_pending q ?s \<and> replica_view q ?s = store_of applied"
    if q: "q \<in> set (or_replicaIds s)" for q
  proof (cases "q = r")
    case True
    obtain applied where "hist = applied @ x # us" "replica_view r s = store_of applied"
      using hist(3) update(1,2) by force
    then have "hist = (applied @ [x]) @ replica_pending q ?s \<and> replica_view q ?s = store_of (applied @ [x])"
      using True update(5,6) by (simp add: replica_pending_def replica_view_def)
    then show ?thesis by blast
  next
    case False
    then show ?thesis using hist(3) q update(5,6) by (simp add: replica_pending_def replica_view_def)
  qed
  moreover have "dom (or_replicaState ?s) = set (or_replicaIds s)"
    "dom (or_pendingReplication ?s) = set (or_replicaIds s)"
    using inv update by (auto simp: replication_inv_def)
  ultimately show ?thesis
    using inv hist(1,2) update(3,4) by (auto simp: replication_inv_def)
qed (use inv in simp_all)

lemma replication_reachable_inv: "replication_reachable s \<Longrightarrow> replication_inv s"
proof (induction rule: replication_reachable.induct)
  case (2 s e)
  then show ?case
    by (cases e) (auto intro: replication_inv_write replication_inv_replicate)
qed (rule replication_inv_created)

definition replica_wf :: "string \<Rightarrow> replication \<Rightarrow> bool" where
  "replica_wf r s \<longleftrightarrow> replication_inv s \<and> r \<in> set (or_replicaIds s)"

interpretation replica: log_follower or_primary "replica_view r" "replica_pending r"
  "\<lambda>s. fst (replicateNext r s)" "replica_wf r" for r
proof unfold_locales
  fix s
  assume wf: "replica_wf r s"
  then have inv: "replication_inv s" by (simp add: replica_wf_def)
  then obtain hist where "log_ok hist" "or_primary s = store_of hist"
    "\<forall>q\<in>set (or_replicaIds s). \<exists>applied.
       hist = applied @ replica_pending q s \<and> replica_view q s = store_of applied"
    unfolding replication_inv_def by blast
  then show "\<exists>applied. log_ok (applied @ replica_pending r s)
      \<and> or_primary s = store_of (applied @ replica_pending r s) \<and> replica_view r s = store_of applied"
    using wf unfolding replica_wf_def by metis
  have ids: "or_replicaIds (fst (replicateNext r s)) = or_replicaIds s"
    by (rule replicateNext_cases [OF inv, of r]) simp_all
  then show "replica_wf r (fst (replicateNext r s))"
    using wf replication_inv_replicate [OF inv] by (simp add: replica_wf_def)
  show "or_primary (fst (replicateNext r s)) = or_primary s"
    by (rule replicateNext_cases [OF inv, of r]) simp_all
  show "replica_pending r (fst (replicateNext r s)) = tl (replica_pending r s)"
    by (rule replicateNext_cases [OF inv, of r])
      (use wf in \<open>auto simp: replica_pending_def replica_wf_def\<close>)
qed

lemma readReplica_view:
  assumes "replica_wf r s"
  shows "readReplica r i s = Inr (replica_view r s i)"
proof -
  have "r \<in> dom (or_replicaState s)" using assms by (simp add: replica_wf_def replication_inv_def)
  then show ?thesis by (auto simp: readReplica_def stateFor_def replica_view_def)
qed

lemma replicateNext_other: "q \<noteq> r \<Longrightarrow> readReplica q i (fst (replicateNext r s)) = readReplica q i s"
  by (auto simp: replicateNext_def readReplica_def stateFor_def split: option.splits list.splits)

lemma replicateNext_other_pow:
  "q \<noteq> r \<Longrightarrow> readReplica q i (((\<lambda>s. fst (replicateNext r s)) ^^ n) s) = readReplica q i s"
  by (induction n) (simp_all add: replicateNext_other)

section \<open>Properties\<close>

definition sample_order :: jsval where
  "sample_order = JObj [(''id'', JStr ''o1''), (''status'', JStr ''PENDING'')]"

definition sample_replicas :: jsval where
  "sample_replicas = JArr [JStr ''east'', JStr ''west'']"

definition sample_empty_replication :: replication where
  "sample_empty_replication = \<lparr>or_replicaIds = [''east'', ''west''], or_primary = Map.empty,
     or_replicaState = [''east'' \<mapsto> Map.empty, ''west'' \<mapsto> Map.empty],
     or_pendingReplication = [''east'' \<mapsto> [], ''west'' \<mapsto> []]\<rparr>"

definition sample_replication :: replication where
  "sample_replication = replication_step (replication_step sample_empty_replication
     (WritePrimary sample_order)) (WritePrimary sample_order)"

lemma sample_empty_replication_reachable: "replication_reachable sample_empty_replication"
  by (rule replication_reachable.intros(1) [of sample_replicas])
    (simp add: createOrderReplicationSimulation_def validateReplicaIds_def valid_ids_def id_list_def
      sample_replicas_def sample_empty_replication_def typeof_string_def fun_upd_twist)

lemma sample_replication_reachable: "replication_reachable sample_replication"
  unfolding sample_replication_def
  by (intro replication_reachable.intros(2) sample_empty_replication_reachable)

lemma sample_order_valid: "valid_order sample_order" "\<not> has_function sample_order"
  by (simp_all add: sample_order_def valid_order_def typeof_string_def order_key_def)

lemma sample_replication_ids: "or_replicaIds sample_replication = [''east'', ''west'']"
  by (simp add: sample_replication_def sample_empty_replication_def writePrimary_def split: sum.split)

text \<open>
  Replicas lag, they never diverge.  In every reachable state the version a
  replica serves for an order plus the updates it still has pending for that order
  is the primary's version, so a replica never serves a version the primary has
  not written; and where nothing is pending it serves the primary's own record.
\<close>

theorem replication_lag:
  assumes "replication_reachable s" and "r \<in> set (or_replicaIds s)"
  shows "\<exists>view. readReplica r i s = Inr (view i)
    \<and> version_in view i + int (writes i (replica_pending r s)) = version_in (or_primary s) i
    \<and> (writes i (replica_pending r s) = 0 \<longrightarrow> view i = readPrimary i s)"
proof -
  have wf: "replica_wf r s"
    using replication_reachable_inv [OF assms(1)] assms(2) by (simp add: replica_wf_def)
  show ?thesis
    using readReplica_view [OF wf] replica.version_lag [OF wf, of i] replica.current_when_idle [OF wf, of i]
    by (auto simp: readPrimary_def)
qed

theorem replication_lag_witness:
  "\<exists>view. readReplica ''west'' ''o1'' sample_replication = Inr (view ''o1'')
    \<and> version_in view ''o1'' + int (writes ''o1'' (replica_pending ''west'' sample_replication))
        = version_in (or_primary sample_replication) ''o1''
    \<and> (writes ''o1'' (replica_pending ''west'' sample_replication) = 0
        \<longrightarrow> view ''o1'' = readPrimary ''o1'' sample_replication)"
  by (rule replication_lag [OF sample_replication_reachable]) (simp add: sample_replication_ids)

text \<open>
  Replicas converge.  Draining the pending updates of one replica makes every read
  of it equal to the read of the primary, and changes no read of the primary or of
  the other replica.
\<close>

theorem replication_converges:
  assumes "replication_reachable s" and "r \<in> set (or_replicaIds s)"
    and "length (replica_pending r s) \<le> n"
  shows "readReplica r i (((\<lambda>s. fst (replicateNext r s)) ^^ n) s) = Inr (readPrimary i s)
    \<and> readPrimary i (((\<lambda>s. fst (replicateNext r s)) ^^ n) s) = readPrimary i s
    \<and> (q \<noteq> r \<longrightarrow> readReplica q i (((\<lambda>s. fst (replicateNext r s)) ^^ n) s) = readReplica q i s)"
proof -
  have wf: "replica_wf r s"
    using replication_reachable_inv [OF assms(1)] assms(2) by (simp add: replica_wf_def)
  show ?thesis
    using replica.catches_up [OF wf assms(3)] replica.advance_all [OF wf, of n]
      readReplica_view [of r "((\<lambda>s. fst (replicateNext r s)) ^^ n) s" i]
      replicateNext_other_pow [of q r i n s]
    by (simp add: readPrimary_def)
qed

theorem replication_converges_witness:
  "readReplica ''east'' ''o1'' (((\<lambda>s. fst (replicateNext ''east'' s)) ^^ 2) sample_replication)
     = Inr (readPrimary ''o1'' sample_replication)"
proof -
  have "length (replica_pending ''east'' sample_replication) \<le> 2"
    using sample_order_valid
    by (simp add: sample_replication_def sample_empty_replication_def writePrimary_def
        validateReplicatedOrder_def next_record_def structuredClone_def replica_pending_def
        push_pending_def sample_order_def)
  with replication_converges [OF sample_replication_reachable, of "''east''" 2 "''o1''"] show ?thesis
    by (simp add: sample_replication_ids)
qed

text \<open>
  Writes are versioned and asynchronous.  A valid order written to the primary gets
  the next version of its id and is what the primary serves at once; no replica
  serves anything new until it replicates.
\<close>

theorem replication_write:
  assumes "valid_order order" and "\<not> has_function order"
  shows "\<exists>s' r. writePrimary order s = (s', Inr r) \<and> order_key r = order_key order
    \<and> record_version r = version_in (or_primary s) (order_key order) + 1
    \<and> readPrimary (order_key order) s' = Some r
    \<and> (\<forall>i. i \<noteq> order_key order \<longrightarrow> readPrimary i s' = readPrimary i s)
    \<and> (\<forall>q i. readReplica q i s' = readReplica q i s)"
proof -
  have "\<exists>x. next_record (or_primary s) order = Inr x" by (rule next_record_ok [OF assms])
  then obtain x where x: "next_record (or_primary s) order = Inr x" ..
  then show ?thesis
    using assms(1) next_record_fields [OF x assms(1)]
    by (auto simp: writePrimary_def validateReplicatedOrder_def readPrimary_def put_record_def
        readReplica_def stateFor_def)
qed

theorem replication_write_witness:
  "\<exists>s' r. writePrimary sample_order sample_replication = (s', Inr r)
    \<and> order_key r = order_key sample_order
    \<and> record_version r = version_in (or_primary sample_replication) (order_key sample_order) + 1
    \<and> readPrimary (order_key sample_order) s' = Some r"
  using replication_write [OF sample_order_valid, of sample_replication] by blast

end
