(* ===== verification/Consistency.thy ===== *)
theory Consistency
  imports Versioned_Store
begin

text \<open>
  The session consistency of \<open>packages/concurrency/src/consistency-simulation.js\<close>:
  an authoritative store, a read model that is updated later from a queue of
  updates, and session tokens that carry the version of a client's own write.
\<close>

section \<open>State and operations\<close>

record consistency =
  oc_source :: order_store
  oc_readModel :: order_store
  oc_pendingUpdates :: "jsval list"

definition createOrderConsistencySimulation :: consistency where
  "createOrderConsistencySimulation =
     \<lparr>oc_source = Map.empty, oc_readModel = Map.empty, oc_pendingUpdates = []\<rparr>"

definition validateOrder :: "jsval \<Rightarrow> unit result" where
  "validateOrder order =
     (if valid_order order then Inr () else Inl (type_error ''Order must have a non-empty string ID''))"

definition validateSessionToken :: "jsval \<Rightarrow> unit result" where
  "validateSessionToken token =
     (if \<not> is_plain_object token \<or> \<not> typeof_string (get_prop token ''orderId'')
         \<or> js_str (get_prop token ''orderId'') = []
         \<or> \<not> is_nonneg_integer (get_prop token ''minimumVersion'')
      then Inl (type_error
        ''Session token must contain an order ID and non-negative integer minimum version'')
      else Inr ())"

definition session_token :: "string \<Rightarrow> int \<Rightarrow> jsval" where
  "session_token orderId minimumVersion =
     JObj [(''orderId'', JStr orderId), (''minimumVersion'', JInt minimumVersion)]"

definition writeOrder :: "jsval \<Rightarrow> consistency \<Rightarrow> consistency \<times> (jsval \<times> jsval) result" where
  "writeOrder order s = (case validateOrder order of
      Inl e \<Rightarrow> (s, Inl e)
    | Inr _ \<Rightarrow> (case next_record (oc_source s) order of
          Inl e \<Rightarrow> (s, Inl e)
        | Inr r \<Rightarrow> (s\<lparr>oc_source := put_record r (oc_source s),
                     oc_pendingUpdates := oc_pendingUpdates s @ [r]\<rparr>,
                   Inr (r, session_token (order_key order)
                             (version_in (oc_source s) (order_key order) + 1)))))"

definition readSource :: "string \<Rightarrow> consistency \<Rightarrow> jsval option" where
  "readSource orderId s = oc_source s orderId"

definition readModel :: "string \<Rightarrow> consistency \<Rightarrow> jsval option" where
  "readModel orderId s = oc_readModel s orderId"

definition readForSession :: "jsval \<Rightarrow> consistency \<Rightarrow> jsval option result" where
  "readForSession token s = (case validateSessionToken token of
      Inl e \<Rightarrow> Inl e
    | Inr _ \<Rightarrow>
        (let orderId = js_str (get_prop token ''orderId'');
             minimumVersion = int_of_js (get_prop token ''minimumVersion'');
             authoritative = (case oc_source s orderId of
                 Some a \<Rightarrow> if minimumVersion \<le> record_version a then Some a else None
               | None \<Rightarrow> None)
         in case oc_readModel s orderId of
              Some projected \<Rightarrow>
                if minimumVersion \<le> record_version projected then Inr (Some projected)
                else Inr authoritative
            | None \<Rightarrow> Inr authoritative))"

definition applyNextReadModelUpdate :: "consistency \<Rightarrow> consistency \<times> jsval option" where
  "applyNextReadModelUpdate s = (case oc_pendingUpdates s of
      [] \<Rightarrow> (s, None)
    | update # us \<Rightarrow> (s\<lparr>oc_pendingUpdates := us,
                        oc_readModel := put_record update (oc_readModel s)\<rparr>, Some update))"

datatype consistency_event = WriteOrder jsval | ApplyNext

fun consistency_step :: "consistency \<Rightarrow> consistency_event \<Rightarrow> consistency" where
  "consistency_step s (WriteOrder order) = fst (writeOrder order s)"
| "consistency_step s ApplyNext = fst (applyNextReadModelUpdate s)"

inductive consistency_reachable :: "consistency \<Rightarrow> bool" where
  "consistency_reachable createOrderConsistencySimulation"
| "consistency_reachable s \<Longrightarrow> consistency_reachable (consistency_step s e)"

section \<open>The read model follows the source\<close>

definition consistency_inv :: "consistency \<Rightarrow> bool" where
  "consistency_inv s \<longleftrightarrow> (\<exists>applied. log_ok (applied @ oc_pendingUpdates s)
     \<and> oc_source s = store_of (applied @ oc_pendingUpdates s) \<and> oc_readModel s = store_of applied)"

lemma consistency_inv_write:
  assumes "consistency_inv s"
  shows "consistency_inv (fst (writeOrder order s))"
proof (cases "valid_order order \<and> (\<exists>x. next_record (oc_source s) order = Inr x)")
  case True
  then obtain x where x: "valid_order order" "next_record (oc_source s) order = Inr x" by blast
  obtain applied where a: "log_ok (applied @ oc_pendingUpdates s)"
    "oc_source s = store_of (applied @ oc_pendingUpdates s)" "oc_readModel s = store_of applied"
    using assms by (auto simp: consistency_inv_def)
  have "log_ok ((applied @ oc_pendingUpdates s) @ [x])"
    by (rule log_ok_next [OF a(1) x(1)]) (use x(2) a(2) in simp)
  moreover have "store_of ((applied @ oc_pendingUpdates s) @ [x]) = put_record x (oc_source s)"
    unfolding a(2) by (rule store_of_simps(2))
  ultimately have "log_ok (applied @ oc_pendingUpdates s @ [x])
      \<and> put_record x (oc_source s) = store_of (applied @ oc_pendingUpdates s @ [x])"
    by simp
  then show ?thesis
    using x a(3) by (auto simp: consistency_inv_def writeOrder_def validateOrder_def)
next
  case False
  then show ?thesis using assms by (auto simp: writeOrder_def validateOrder_def split: sum.splits)
qed

lemma consistency_inv_apply:
  assumes "consistency_inv s"
  shows "consistency_inv (fst (applyNextReadModelUpdate s))"
proof (cases "oc_pendingUpdates s")
  case (Cons u us)
  obtain applied where a: "log_ok (applied @ u # us)" "oc_source s = store_of (applied @ u # us)"
    "oc_readModel s = store_of applied"
    using assms Cons by (auto simp: consistency_inv_def)
  have "log_ok ((applied @ [u]) @ us) \<and> oc_source s = store_of ((applied @ [u]) @ us)
      \<and> put_record u (oc_readModel s) = store_of (applied @ [u])"
    using a by simp
  then show ?thesis
    unfolding consistency_inv_def applyNextReadModelUpdate_def Cons
    by (intro exI [of _ "applied @ [u]"]) simp
qed (use assms in \<open>simp add: applyNextReadModelUpdate_def\<close>)

lemma consistency_reachable_inv: "consistency_reachable s \<Longrightarrow> consistency_inv s"
proof (induction rule: consistency_reachable.induct)
  case 1
  show ?case
    unfolding consistency_inv_def createOrderConsistencySimulation_def
    by (intro exI [of _ "[]"]) simp
next
  case (2 s e)
  then show ?case by (cases e) (simp_all add: consistency_inv_write consistency_inv_apply)
qed

interpretation read_model: log_follower oc_source oc_readModel oc_pendingUpdates
  "\<lambda>s. fst (applyNextReadModelUpdate s)" consistency_inv
proof unfold_locales
  fix s
  assume inv: "consistency_inv s"
  then show "\<exists>applied. log_ok (applied @ oc_pendingUpdates s)
      \<and> oc_source s = store_of (applied @ oc_pendingUpdates s) \<and> oc_readModel s = store_of applied"
    by (simp add: consistency_inv_def)
  show "consistency_inv (fst (applyNextReadModelUpdate s))" by (rule consistency_inv_apply [OF inv])
  show "oc_source (fst (applyNextReadModelUpdate s)) = oc_source s"
    and "oc_pendingUpdates (fst (applyNextReadModelUpdate s)) = tl (oc_pendingUpdates s)"
    by (auto simp: applyNextReadModelUpdate_def split: list.splits)
qed

lemma consistency_step_version:
  "version_in (oc_source s) i \<le> version_in (oc_source (consistency_step s e)) i"
proof (cases e)
  case (WriteOrder order)
  show ?thesis
  proof (cases "valid_order order \<and> (\<exists>x. next_record (oc_source s) order = Inr x)")
    case True
    then obtain x where x: "valid_order order" "next_record (oc_source s) order = Inr x" by blast
    then show ?thesis
      using WriteOrder next_record_fields [OF x(2,1)]
      by (auto simp: writeOrder_def validateOrder_def put_record_def version_in_def)
  next
    case False
    then show ?thesis using WriteOrder by (auto simp: writeOrder_def validateOrder_def split: sum.splits)
  qed
next
  case ApplyNext
  then show ?thesis by (auto simp: applyNextReadModelUpdate_def split: list.splits)
qed

lemma consistency_run_version:
  "version_in (oc_source s) i \<le> version_in (oc_source (foldl consistency_step s es)) i"
  by (induction es arbitrary: s) (auto intro: order_trans consistency_step_version)

lemma consistency_run_reachable:
  "consistency_reachable s \<Longrightarrow> consistency_reachable (foldl consistency_step s es)"
  by (induction es arbitrary: s) (auto intro: consistency_reachable.intros)

lemma validateSessionToken_session:
  "i \<noteq> [] \<Longrightarrow> 0 \<le> v \<Longrightarrow> validateSessionToken (session_token i v) = Inr ()"
  by (simp add: validateSessionToken_def session_token_def typeof_string_def is_nonneg_integer_def)

text \<open>A session read is answered iff the source has reached the version, and then in time.\<close>

lemma readForSession_token:
  assumes "consistency_inv s" and "i \<noteq> []" and "0 < v"
  shows "version_in (oc_source s) i < v \<Longrightarrow> readForSession (session_token i v) s = Inr None"
    and "v \<le> version_in (oc_source s) i \<Longrightarrow> \<exists>r. readForSession (session_token i v) s = Inr (Some r)
      \<and> v \<le> record_version r \<and> order_key r = i
      \<and> (oc_readModel s i = Some r \<or> oc_source s i = Some r)"
proof -
  have lag: "version_in (oc_readModel s) i \<le> version_in (oc_source s) i"
    by (rule read_model.never_ahead [OF assms(1)])
  have read: "readForSession (session_token i v) s =
      (let authoritative = (case oc_source s i of
             Some a \<Rightarrow> if v \<le> record_version a then Some a else None | None \<Rightarrow> None)
       in case oc_readModel s i of
            Some p \<Rightarrow> if v \<le> record_version p then Inr (Some p) else Inr authoritative
          | None \<Rightarrow> Inr authoritative)"
    using validateSessionToken_session [OF assms(2), of v] assms(3)
    by (simp add: readForSession_def) (simp add: session_token_def)
  show "version_in (oc_source s) i < v \<Longrightarrow> readForSession (session_token i v) s = Inr None"
    using lag unfolding read by (auto simp: version_in_def split: option.splits)
  obtain applied where src: "oc_source s = store_of (applied @ oc_pendingUpdates s)"
    and view: "oc_readModel s = store_of applied"
    using assms(1) by (auto simp: consistency_inv_def)
  show "v \<le> version_in (oc_source s) i \<Longrightarrow> \<exists>r. readForSession (session_token i v) s = Inr (Some r)
      \<and> v \<le> record_version r \<and> order_key r = i
      \<and> (oc_readModel s i = Some r \<or> oc_source s i = Some r)"
    unfolding read using assms(3) store_of_key [of applied i] store_of_key [of "applied @ oc_pendingUpdates s" i]
    by (auto simp: version_in_def src view Let_def split: option.splits)
qed

section \<open>Properties\<close>

definition consistency_order :: jsval where
  "consistency_order = JObj [(''id'', JStr ''o1''), (''status'', JStr ''PENDING'')]"

definition sample_consistency :: consistency where
  "sample_consistency = fst (writeOrder consistency_order createOrderConsistencySimulation)"

text \<open>
  C35. Read your writes.  The token that a write returns is honoured in every later
  state: whatever writes and read-model updates happen in between, a session read
  with it returns a record of that order at least as new as the write, from the
  read model when it is fresh enough and from the source otherwise.
\<close>

theorem session_reads_own_writes:
  assumes "consistency_reachable s" and "writeOrder order s = (s', Inr (r, token))"
  shows "\<exists>r'. readForSession token (foldl consistency_step s' es) = Inr (Some r')
    \<and> order_key r' = order_key order \<and> record_version r \<le> record_version r'
    \<and> (oc_readModel (foldl consistency_step s' es) (order_key order) = Some r'
       \<or> oc_source (foldl consistency_step s' es) (order_key order) = Some r')"
proof -
  let ?i = "order_key order"
  let ?v = "version_in (oc_source s) ?i + 1"
  let ?t = "foldl consistency_step s' es"
  have valid: "valid_order order" and next_r: "next_record (oc_source s) order = Inr r"
    and token: "token = session_token ?i ?v"
    and s': "s' = s\<lparr>oc_source := put_record r (oc_source s), oc_pendingUpdates := oc_pendingUpdates s @ [r]\<rparr>"
    using assms(2) by (auto simp: writeOrder_def validateOrder_def split: sum.splits if_splits)
  note fields = next_record_fields [OF next_r valid]
  have "s' = consistency_step s (WriteOrder order)" using assms(2) by simp
  then have inv: "consistency_inv ?t"
    using consistency_reachable_inv consistency_run_reachable consistency_reachable.intros(2) [OF assms(1)]
    by blast
  have "0 \<le> version_in (oc_source s) ?i"
    using read_model.follows [OF consistency_reachable_inv [OF assms(1)]] version_in_store_of by fastforce
  moreover have "?v = version_in (oc_source s') ?i"
    using fields by (simp add: s' put_record_def version_in_def)
  then have "?v \<le> version_in (oc_source ?t) ?i" using consistency_run_version by metis
  moreover have "?i \<noteq> []" using valid by (simp add: valid_order_def)
  ultimately show ?thesis
    using readForSession_token(2) [OF inv, of ?i ?v] fields by (auto simp: token)
qed

theorem session_reads_own_writes_witness:
  "\<exists>s' r token r'. writeOrder consistency_order sample_consistency = (s', Inr (r, token))
    \<and> readForSession token (foldl consistency_step s' [ApplyNext, WriteOrder consistency_order])
        = Inr (Some r') \<and> record_version r \<le> record_version r'"
proof -
  have "consistency_step createOrderConsistencySimulation (WriteOrder consistency_order)
      = sample_consistency"
    by (simp add: sample_consistency_def)
  then have reach: "consistency_reachable sample_consistency"
    by (metis consistency_reachable.intros)
  have "valid_order consistency_order" "\<not> has_function consistency_order"
    by (simp_all add: valid_order_def consistency_order_def typeof_string_def order_key_def)
  then obtain s' r token where w: "writeOrder consistency_order sample_consistency = (s', Inr (r, token))"
    using next_record_ok [of consistency_order "oc_source sample_consistency"]
    by (auto simp: writeOrder_def validateOrder_def)
  from session_reads_own_writes [OF reach w, of "[ApplyNext, WriteOrder consistency_order]"]
  show ?thesis using w by blast
qed

text \<open>
  Session reads never go back.  For any token that names an order and a positive
  version, a reachable state answers \<open>null\<close> exactly when the source itself has not
  reached that version, and otherwise a record of that order no older than it; and
  applying every pending update makes the read model answer as the source does.
\<close>

theorem session_reads_are_bounded:
  assumes "consistency_reachable s" and "i \<noteq> []" and "0 < v"
  shows "(readForSession (session_token i v) s = Inr None \<longleftrightarrow> version_in (oc_source s) i < v)
    \<and> (\<forall>r. readForSession (session_token i v) s = Inr (Some r) \<longrightarrow>
         v \<le> record_version r \<and> order_key r = i)
    \<and> readModel i (((\<lambda>s. fst (applyNextReadModelUpdate s)) ^^ length (oc_pendingUpdates s)) s)
        = readSource i s"
proof -
  have inv: "consistency_inv s" by (rule consistency_reachable_inv [OF assms(1)])
  have drained: "readModel i (((\<lambda>s. fst (applyNextReadModelUpdate s)) ^^ length (oc_pendingUpdates s)) s)
      = readSource i s"
    using read_model.catches_up [OF inv order_refl] by (simp add: readModel_def readSource_def)
  show ?thesis
  proof (cases "version_in (oc_source s) i < v")
    case True
    then show ?thesis using readForSession_token(1) [OF inv assms(2,3)] drained by simp
  next
    case False
    then show ?thesis using readForSession_token(2) [OF inv assms(2,3)] drained by auto
  qed
qed

theorem session_reads_are_bounded_witness:
  "readForSession (session_token ''o1'' 7) createOrderConsistencySimulation = Inr None"
  using session_reads_are_bounded [OF consistency_reachable.intros(1), of "''o1''" 7]
  by (simp add: createOrderConsistencySimulation_def version_in_def)

end
