(* ===== verification/Sharding.thy ===== *)
theory Sharding
  imports Leader_Election "HOL-Library.Word"
begin

unbundle bit_operations_syntax

text \<open>
  The partition router of \<open>packages/concurrency/src/sharding-simulation.js\<close>.  The
  hash is written with the 32-bit operators of the language: \<open>^\<close> and \<open>Math.imul\<close>
  yield signed 32-bit integers, \<open>>>> 0\<close> reads the bits as an unsigned one.
\<close>

section \<open>The 32-bit operators\<close>

definition to_int32 :: "int \<Rightarrow> int" where
  "to_int32 x = sint (word_of_int x :: 32 word)"

definition js_xor :: "int \<Rightarrow> int \<Rightarrow> int" where
  "js_xor x y = sint ((word_of_int x :: 32 word) XOR word_of_int y)"

definition js_imul :: "int \<Rightarrow> int \<Rightarrow> int" where
  "js_imul x y = to_int32 (to_int32 x * to_int32 y)"

definition js_ushr0 :: "int \<Rightarrow> int" where
  "js_ushr0 x = uint (word_of_int x :: 32 word)"

section \<open>Hash and router\<close>

definition FNV_OFFSET_BASIS :: int where
  "FNV_OFFSET_BASIS = 2166136261"

definition FNV_PRIME :: int where
  "FNV_PRIME = 16777619"

definition char_code :: "char \<Rightarrow> int" where
  "char_code c = of_char c"

fun hash_from :: "int \<Rightarrow> string \<Rightarrow> int" where
  "hash_from result [] = result"
| "hash_from result (c # cs) =
     hash_from (js_ushr0 (js_imul (js_xor result (char_code c)) FNV_PRIME)) cs"

definition hash :: "string \<Rightarrow> int" where
  "hash value = hash_from FNV_OFFSET_BASIS value"

definition validatePartitionIds :: "jsval \<Rightarrow> unit result" where
  "validatePartitionIds partitionIds =
     (if valid_ids (\<lambda>n. 2 \<le> n) partitionIds then Inr ()
      else Inl (type_error
        ''Partition router requires at least two distinct non-empty partition IDs''))"

definition createOrderPartitionRouter :: "jsval \<Rightarrow> string list result" where
  "createOrderPartitionRouter partitionIds = (case validatePartitionIds partitionIds of
      Inl e \<Rightarrow> Inl e | Inr _ \<Rightarrow> Inr (id_list partitionIds))"

definition route :: "string list \<Rightarrow> jsval \<Rightarrow> string result" where
  "route configuredPartitions order =
     (if \<not> is_plain_object order \<or> \<not> typeof_string (get_prop order ''customerId'')
         \<or> js_str (get_prop order ''customerId'') = []
      then Inl (type_error ''Order must have a non-empty string customer ID'')
      else Inr (configuredPartitions
             ! nat (hash (js_str (get_prop order ''customerId'')) mod int (length configuredPartitions))))"

section \<open>The hash as FNV-1a on words\<close>

definition fnv1a :: "32 word \<Rightarrow> string \<Rightarrow> 32 word" where
  "fnv1a h s = foldl (\<lambda>h c. (h XOR of_char c) * 16777619) h s"

lemma js_step:
  "js_ushr0 (js_imul (js_xor (uint (h :: 32 word)) (char_code c)) FNV_PRIME)
     = uint ((h XOR of_char c) * 16777619)"
proof -
  have "word_of_int (char_code c) = (of_char c :: 32 word)"
    by (simp add: char_code_def of_char_def)
  then have x: "js_xor (uint h) (char_code c) = sint (h XOR of_char c)"
    by (simp add: js_xor_def)
  show ?thesis
    unfolding x js_imul_def js_ushr0_def to_int32_def FNV_PRIME_def
    by (simp add: wi_hom_mult [symmetric])
qed

lemma hash_from_word: "hash_from (uint h) s = uint (fnv1a h s)"
proof (induction s arbitrary: h)
  case (Cons c s)
  then show ?case by (simp only: hash_from.simps js_step) (simp add: fnv1a_def)
qed (simp add: fnv1a_def)

lemma hash_word: "hash s = uint (fnv1a 2166136261 s)"
  using hash_from_word [of 2166136261 s] by (simp add: hash_def FNV_OFFSET_BASIS_def)

lemma fnv1a_append: "fnv1a h (s @ t) = fnv1a (fnv1a h s) t"
  by (simp add: fnv1a_def)

text \<open>The prime is odd, so each step is a bijection of the state.\<close>

lemma prime_cancel:
  fixes x y :: "32 word"
  shows "x * 16777619 = y * 16777619 \<longleftrightarrow> x = y"
proof
  assume "x * 16777619 = y * 16777619"
  then have "x * (16777619 * 899433627) = y * (16777619 * 899433627)"
    by (simp only: mult.assoc [symmetric])
  moreover have "(16777619 :: 32 word) * 899433627 = 1" by simp
  ultimately show "x = y" by (simp only: mult_1_right)
qed simp

lemma word_xor_cancel:
  fixes x y z :: "'a::len word"
  shows "x XOR z = y XOR z \<longleftrightarrow> x = y" "z XOR x = z XOR y \<longleftrightarrow> x = y"
proof -
  have "(x XOR z) XOR z = x" "(y XOR z) XOR z = y" "z XOR (z XOR x) = x" "z XOR (z XOR y) = y"
    by (simp_all only: xor.assoc xor.left_neutral xor.right_neutral bit.xor_self bit.xor_left_self)
  then show "x XOR z = y XOR z \<longleftrightarrow> x = y" "z XOR x = z XOR y \<longleftrightarrow> x = y" by metis+
qed

lemma fnv1a_inject: "fnv1a h s = fnv1a g s \<longleftrightarrow> h = g"
proof (induction s arbitrary: h g)
  case (Cons c s)
  then show ?case by (simp add: fnv1a_def prime_cancel word_xor_cancel)
qed (simp add: fnv1a_def)

lemma of_char_32_inject: "(of_char c :: 32 word) = of_char d \<longleftrightarrow> c = d"
proof
  assume eq: "(of_char c :: 32 word) = of_char d"
  have "unat (of_char c :: 32 word) = of_char c" for c
  proof -
    have "(of_char c :: nat) < 256" by simp
    moreover have "(of_char c :: 32 word) = of_nat (of_char c)" by (simp add: of_char_def)
    ultimately show ?thesis by (simp add: unat_of_nat mod_less [of _ 4294967296] less_trans [of _ 256 4294967296])
  qed
  then have "(of_char c :: nat) = of_char d" using eq by metis
  then show "c = d" by simp
qed simp

section \<open>Properties\<close>

text \<open>
  The hash is FNV-1a.  Through the signed 32-bit operators of the language the
  result is the unsigned value of the textbook recurrence on 32-bit words, for
  every text; it is an integer from 0 up to \<open>2 ^ 32 - 1\<close>, and two texts that differ
  in exactly one character never collide.
\<close>

theorem hash_is_fnv1a:
  "hash s = uint (foldl (\<lambda>h c. (h XOR of_char c) * 16777619) (2166136261 :: 32 word) s)
    \<and> 0 \<le> hash s \<and> hash s < 2 ^ 32
    \<and> (hash (p @ c # t) = hash (p @ d # t) \<longleftrightarrow> c = d)"
proof -
  have "hash s < 2 ^ 32"
    using uint_bounded [of "fnv1a 2166136261 s"] by (simp add: hash_word)
  moreover have "fnv1a h (p @ c # t) = fnv1a h (p @ d # t) \<longleftrightarrow> c = d" for h
    unfolding fnv1a_append [of h p]
    by (simp add: fnv1a_def prime_cancel word_xor_cancel of_char_32_inject
        fnv1a_inject [unfolded fnv1a_def])
  then have "hash (p @ c # t) = hash (p @ d # t) \<longleftrightarrow> c = d"
    by (simp add: hash_word flip: word_uint_eq_iff)
  ultimately show ?thesis by (simp add: hash_word) (simp add: fnv1a_def)
qed

text \<open>
  Routing is total and sticky.  A router built from accepted partition ids sends
  every order with a non-empty customer id to one of its partitions, the same one
  for all orders of that customer whatever their other fields, and refuses every
  other value.
\<close>

theorem routing_is_sticky:
  assumes "createOrderPartitionRouter ids = Inr partitions"
  shows "(is_plain_object order \<and> get_prop order ''customerId'' = JStr c \<and> c \<noteq> [] \<longrightarrow>
       (\<exists>p \<in> set partitions. route partitions order = Inr p
          \<and> route partitions (JObj [(''customerId'', JStr c)]) = Inr p))
    \<and> (\<not> (\<exists>c. is_plain_object order \<and> get_prop order ''customerId'' = JStr c \<and> c \<noteq> []) \<longrightarrow>
       route partitions order
         = Inl (type_error ''Order must have a non-empty string customer ID''))"
proof -
  obtain vs where "2 \<le> length vs" "partitions = map js_str vs"
    using assms by (auto simp: createOrderPartitionRouter_def validatePartitionIds_def valid_ids_def
        id_list_def split: if_splits jsval.splits)
  then have "0 < length partitions" by auto
  then have "nat (hash c mod int (length partitions)) < length partitions" for c
    by (simp add: nat_less_iff)
  then have "partitions ! nat (hash c mod int (length partitions)) \<in> set partitions" for c
    by (rule nth_mem)
  then show ?thesis
    by (auto simp: route_def typeof_string_iff)
qed

theorem routing_is_sticky_witness:
  "\<exists>p \<in> {''p0'', ''p1''}.
     route [''p0'', ''p1''] (JObj [(''id'', JStr ''o1''), (''customerId'', JStr ''c1'')]) = Inr p
     \<and> route [''p0'', ''p1''] (JObj [(''customerId'', JStr ''c1'')]) = Inr p"
proof -
  have "createOrderPartitionRouter (JArr [JStr ''p0'', JStr ''p1'']) = Inr [''p0'', ''p1'']"
    by (simp add: createOrderPartitionRouter_def validatePartitionIds_def valid_ids_def id_list_def
        typeof_string_def)
  from routing_is_sticky [OF this, of "JObj [(''id'', JStr ''o1''), (''customerId'', JStr ''c1'')]" "''c1''"]
  show ?thesis by simp
qed

end
