(* ===== verification/Database.thy ===== *)
theory Database
  imports Errors
begin

text \<open>
  The repositories of \<open>packages/database/src\<close> and the tables of
  \<open>packages/database/migrations\<close>.  A repository method is a function of the
  \<open>queryable\<close> it was given, which takes a statement and the connection state and
  returns the new state with the rows or a thrown error.  The statements are the
  SQL texts of the repositories with their parameters; \<open>exec_statement\<close> is what
  they say on the tables and constraints that the migrations create, for one
  statement at a time.  The conversion of texts to the \<open>uuid\<close> type and the server's
  clock are parameters of it.
\<close>

section \<open>Rows\<close>

record product_row =
  pr_id :: string
  pr_name :: string
  pr_stock :: int
  pr_version :: int

record order_row =
  or_id :: string
  or_customer_id :: string
  or_product_id :: string
  or_quantity :: int
  or_amount :: int
  or_status :: string
  or_version :: int
  or_idempotency_key :: string
  or_request_fingerprint :: "string option"
  or_created_at :: int
  or_updated_at :: int

record processing_row =
  op_order_id :: string
  op_status :: string
  op_created_at :: int
  op_updated_at :: int

record processed_row =
  pm_message_id :: string
  pm_processed_at :: int

datatype sql_row =
    ProductRow product_row | OrderRow order_row | ProcessingRow processing_row
  | ProcessedRow processed_row

section \<open>Mapped objects (\<open>mappers.js\<close>)\<close>

record product =
  p_id :: string
  p_name :: string
  p_stock :: int
  p_version :: int

definition mapProduct :: "product_row \<Rightarrow> product" where
  "mapProduct row = \<lparr>p_id = pr_id row, p_name = pr_name row, p_stock = pr_stock row,
     p_version = pr_version row\<rparr>"

definition mapOrder :: "order_row \<Rightarrow> order" where
  "mapOrder row = \<lparr>ord_id = or_id row, ord_customerId = or_customer_id row,
     ord_productId = or_product_id row, ord_quantity = or_quantity row, ord_amount = or_amount row,
     ord_status = or_status row, ord_version = or_version row,
     ord_idempotencyKey = or_idempotency_key row, ord_createdAt = or_created_at row,
     ord_updatedAt = or_updated_at row\<rparr>"

record order_processing =
  opr_orderId :: string
  opr_status :: string
  opr_createdAt :: int
  opr_updatedAt :: int

definition mapOrderProcessing :: "processing_row \<Rightarrow> order_processing" where
  "mapOrderProcessing row = \<lparr>opr_orderId = op_order_id row, opr_status = op_status row,
     opr_createdAt = op_created_at row, opr_updatedAt = op_updated_at row\<rparr>"

record processed_message =
  pmsg_messageId :: string
  pmsg_processedAt :: int

definition mapProcessedMessage :: "processed_row \<Rightarrow> processed_message" where
  "mapProcessedMessage row =
     \<lparr>pmsg_messageId = pm_message_id row, pmsg_processedAt = pm_processed_at row\<rparr>"

section \<open>Statements\<close>

record new_order =
  no_id :: string
  no_customerId :: string
  no_productId :: string
  no_quantity :: int
  no_amount :: int
  no_status :: string
  no_version :: int
  no_idempotencyKey :: string

datatype sql_statement =
    InsertProduct string string int int
  | SelectProduct string
  | SelectProductForUpdate string
  | UpdateReserveLocked string int
  | UpdateReserveWithVersion string int int
  | InsertOrder new_order
  | InsertOrderIdempotent new_order "string option"
  | SelectOrderByKey string
  | InsertProcessing string string
  | SelectProcessing string
  | InsertProcessedMessage string
  | SelectProcessedMessage string

type_synonym 's queryable = "sql_statement \<Rightarrow> 's \<Rightarrow> 's \<times> sql_row list result"
type_synonym ('s, 'a) action = "'s \<Rightarrow> 's \<times> 'a result"

definition then_do :: "('s, 'a) action \<Rightarrow> ('a \<Rightarrow> ('s, 'b) action) \<Rightarrow> ('s, 'b) action" where
  "then_do m f s = (case m s of (s', Inl e) \<Rightarrow> (s', Inl e) | (s', Inr x) \<Rightarrow> f x s')"

definition finish_with :: "'a result \<Rightarrow> ('s, 'a) action" where
  "finish_with r s = (s, r)"

lemma then_do_simps [simp]:
  "m s = (s', Inl e) \<Longrightarrow> then_do m f s = (s', Inl e)"
  "m s = (s', Inr x) \<Longrightarrow> then_do m f s = f x s'"
  by (simp_all add: then_do_def)

lemma finish_with_apply [simp]: "finish_with r s = (s, r)"
  by (simp add: finish_with_def)

definition runQuery :: "'s queryable \<Rightarrow> sql_statement \<Rightarrow> ('s, sql_row list) action" where
  "runQuery queryable stmt s = (case queryable stmt s of
      (s', Inl e) \<Rightarrow>
        (s', Inl (if isDatabaseUnavailable e then DatabaseUnavailableError (Some e) else e))
    | (s', Inr rows) \<Rightarrow> (s', Inr rows))"

text \<open>Reading a property of \<open>rows[0]\<close> when there is no such row throws a \<open>TypeError\<close>.\<close>

definition no_row :: exn where
  "no_row = type_error ''Cannot read properties of undefined''"

fun first_product :: "sql_row list \<Rightarrow> product result" where
  "first_product (ProductRow r # _) = Inr (mapProduct r)"
| "first_product _ = Inl no_row"

fun first_processing :: "sql_row list \<Rightarrow> order_processing result" where
  "first_processing (ProcessingRow r # _) = Inr (mapOrderProcessing r)"
| "first_processing _ = Inl no_row"

fun first_processed :: "sql_row list \<Rightarrow> processed_message result" where
  "first_processed (ProcessedRow r # _) = Inr (mapProcessedMessage r)"
| "first_processed _ = Inl no_row"

fun first_order :: "sql_row list \<Rightarrow> order_row result" where
  "first_order (OrderRow r # _) = Inr r"
| "first_order _ = Inl no_row"

text \<open>\<open>result.rowCount === 0 ? null : map(result.rows[0])\<close>\<close>

definition null_or :: "(sql_row list \<Rightarrow> 'a result) \<Rightarrow> sql_row list \<Rightarrow> 'a option result" where
  "null_or first rows = (if rows = [] then Inr None
     else (case first rows of Inl e \<Rightarrow> Inl e | Inr x \<Rightarrow> Inr (Some x)))"

section \<open>Products (\<open>product-repository.js\<close>)\<close>

definition createProduct ::
  "'s queryable \<Rightarrow> string \<Rightarrow> string \<Rightarrow> int \<Rightarrow> int option \<Rightarrow> ('s, product) action" where
  "createProduct q i name stock version =
     then_do (runQuery q (InsertProduct i name stock (case version of None \<Rightarrow> 1 | Some v \<Rightarrow> v)))
       (\<lambda>rows. finish_with (first_product rows))"

definition findById :: "'s queryable \<Rightarrow> string \<Rightarrow> ('s, product option) action" where
  "findById q i = then_do (runQuery q (SelectProduct i)) (\<lambda>rows. finish_with (null_or first_product rows))"

definition findByIdForUpdate :: "'s queryable \<Rightarrow> string \<Rightarrow> ('s, product option) action" where
  "findByIdForUpdate q i =
     then_do (runQuery q (SelectProductForUpdate i)) (\<lambda>rows. finish_with (null_or first_product rows))"

definition quantity_error :: exn where
  "quantity_error = range_error ''quantity must be a positive integer''"

definition reserveLocked :: "'s queryable \<Rightarrow> string \<Rightarrow> jsval \<Rightarrow> ('s, product option) action" where
  "reserveLocked q productId quantity =
     (if \<not> is_positive_integer quantity then finish_with (Inl quantity_error)
      else then_do (runQuery q (UpdateReserveLocked productId (int_of_js quantity)))
             (\<lambda>rows. finish_with (null_or first_product rows)))"

definition reserveWithVersion ::
  "'s queryable \<Rightarrow> string \<Rightarrow> jsval \<Rightarrow> int \<Rightarrow> ('s, product option) action" where
  "reserveWithVersion q productId quantity expectedVersion =
     (if \<not> is_positive_integer quantity then finish_with (Inl quantity_error)
      else then_do (runQuery q (UpdateReserveWithVersion productId (int_of_js quantity) expectedVersion))
             (\<lambda>rows. finish_with (null_or first_product rows)))"

section \<open>Orders (\<open>order-repository.js\<close>)\<close>

record idempotency_record =
  ir_created :: bool
  ir_order :: order
  ir_requestFingerprint :: "string option"

definition mapIdempotencyRecord :: "order_row \<Rightarrow> bool \<Rightarrow> idempotency_record" where
  "mapIdempotencyRecord row created = \<lparr>ir_created = created, ir_order = mapOrder row,
     ir_requestFingerprint = or_request_fingerprint row\<rparr>"

definition findByIdempotencyKey :: "'s queryable \<Rightarrow> string \<Rightarrow> ('s, idempotency_record option) action" where
  "findByIdempotencyKey q key =
     then_do (runQuery q (SelectOrderByKey key)) (\<lambda>rows. finish_with
       (null_or (\<lambda>rs. case first_order rs of
            Inl e \<Rightarrow> Inl e | Inr r \<Rightarrow> Inr (mapIdempotencyRecord r False)) rows))"

definition createOrder :: "'s queryable \<Rightarrow> new_order \<Rightarrow> ('s, order) action" where
  "createOrder q order =
     then_do (runQuery q (InsertOrder order)) (\<lambda>rows. finish_with
       (case first_order rows of Inl e \<Rightarrow> Inl e | Inr r \<Rightarrow> Inr (mapOrder r)))"

definition createIdempotent ::
  "'s queryable \<Rightarrow> new_order \<Rightarrow> string option \<Rightarrow> ('s, idempotency_record option) action" where
  "createIdempotent q order requestFingerprint =
     then_do (runQuery q (InsertOrderIdempotent order requestFingerprint)) (\<lambda>rows.
       if length rows = 1 then finish_with
         (case first_order rows of Inl e \<Rightarrow> Inl e | Inr r \<Rightarrow> Inr (Some (mapIdempotencyRecord r True)))
       else findByIdempotencyKey q (no_idempotencyKey order))"

section \<open>Processing state and processed messages\<close>

definition createOrderProcessing ::
  "'s queryable \<Rightarrow> string \<Rightarrow> string option \<Rightarrow> ('s, order_processing) action" where
  "createOrderProcessing q orderId status =
     then_do (runQuery q (InsertProcessing orderId (case status of None \<Rightarrow> ''PENDING'' | Some x \<Rightarrow> x)))
       (\<lambda>rows. finish_with (first_processing rows))"

definition findByOrderId :: "'s queryable \<Rightarrow> string \<Rightarrow> ('s, order_processing option) action" where
  "findByOrderId q orderId =
     then_do (runQuery q (SelectProcessing orderId)) (\<lambda>rows. finish_with (null_or first_processing rows))"

definition tryCreate :: "'s queryable \<Rightarrow> string \<Rightarrow> ('s, processed_message option) action" where
  "tryCreate q messageId =
     then_do (runQuery q (InsertProcessedMessage messageId))
       (\<lambda>rows. finish_with (null_or first_processed rows))"

definition findByMessageId :: "'s queryable \<Rightarrow> string \<Rightarrow> ('s, processed_message option) action" where
  "findByMessageId q messageId =
     then_do (runQuery q (SelectProcessedMessage messageId))
       (\<lambda>rows. finish_with (null_or first_processed rows))"

end
