(* ===== verification/Tables.thy ===== *)
theory Tables
  imports Database
begin

text \<open>
  The tables of \<open>packages/database/migrations\<close> with their constraints, and the
  effect of each statement of the repositories on them.  A statement is atomic:
  it returns rows, or it throws an error with the SQLSTATE of the violated rule
  and changes nothing.
\<close>

section \<open>Tables\<close>

record tables =
  tb_products :: "string \<rightharpoonup> product_row"
  tb_orders :: "order_row list"
  tb_order_processing :: "string \<rightharpoonup> processing_row"
  tb_processed_messages :: "string \<rightharpoonup> processed_row"

text \<open>Text to \<open>uuid\<close> conversion (\<open>None\<close>: not a uuid) and the clock of \<open>now()\<close>.\<close>

record pg =
  pg_uuid :: "string \<Rightarrow> string option"
  pg_now :: int

definition in_int4 :: "int \<Rightarrow> bool" where
  "in_int4 x = (- 2147483648 \<le> x \<and> x \<le> 2147483647)"

definition sql_error :: "string \<Rightarrow> string \<Rightarrow> exn" where
  "sql_error m code = ErrorObj ''error'' m (Some code)"

definition invalid_uuid :: exn where
  "invalid_uuid = sql_error ''invalid input syntax for type uuid'' ''22P02''"

definition integer_out_of_range :: exn where
  "integer_out_of_range = sql_error ''integer out of range'' ''22003''"

definition check_violation :: "string \<Rightarrow> exn" where
  "check_violation c = sql_error (''check constraint '' @ c) ''23514''"

definition unique_violation :: "string \<Rightarrow> exn" where
  "unique_violation c = sql_error (''unique constraint '' @ c) ''23505''"

definition foreign_key_violation :: exn where
  "foreign_key_violation = sql_error ''foreign key constraint'' ''23503''"

text \<open>The first failing rule of a list, in the order given.\<close>

fun first_violation :: "(bool \<times> exn) list \<Rightarrow> exn option" where
  "first_violation [] = None"
| "first_violation ((ok, e) # rules) = (if ok then first_violation rules else Some e)"

definition STATUSES :: "string list" where
  "STATUSES = [''PENDING'', ''PROCESSING'', ''COMPLETED'', ''FAILED'']"

definition hex_char :: "char \<Rightarrow> bool" where
  "hex_char c = (48 \<le> (of_char c :: nat) \<and> of_char c \<le> (57 :: nat)
     \<or> 97 \<le> (of_char c :: nat) \<and> of_char c \<le> (102 :: nat))"

definition sha256_text :: "string \<Rightarrow> bool" where
  "sha256_text s = (length s = 64 \<and> list_all hex_char s)"

definition product_rules :: "product_row \<Rightarrow> (bool \<times> exn) list" where
  "product_rules r =
     [(in_int4 (pr_stock r), integer_out_of_range), (in_int4 (pr_version r), integer_out_of_range),
      (0 \<le> pr_stock r, check_violation ''products_stock_nonnegative''),
      (1 \<le> pr_version r, check_violation ''products_version_positive'')]"

definition order_rules :: "order_row \<Rightarrow> (bool \<times> exn) list" where
  "order_rules r =
     [(in_int4 (or_quantity r), integer_out_of_range), (in_int4 (or_amount r), integer_out_of_range),
      (in_int4 (or_version r), integer_out_of_range),
      (0 < or_amount r, check_violation ''orders_amount_positive''),
      (0 < or_quantity r, check_violation ''orders_quantity_positive''),
      ((case or_request_fingerprint r of None \<Rightarrow> True | Some f \<Rightarrow> sha256_text f),
         check_violation ''orders_request_fingerprint_sha256''),
      (or_status r \<in> set STATUSES, check_violation ''orders_status_valid''),
      (1 \<le> or_version r, check_violation ''orders_version_positive'')]"

definition processing_rules :: "processing_row \<Rightarrow> (bool \<times> exn) list" where
  "processing_rules r =
     [(op_status r \<in> set STATUSES, check_violation ''order_processing_status_valid'')]"

section \<open>Statements\<close>

definition insert_product :: "pg \<Rightarrow> string \<Rightarrow> string \<Rightarrow> int \<Rightarrow> int \<Rightarrow> (tables, sql_row list) action" where
  "insert_product pg i name stock version t = (case pg_uuid pg i of
      None \<Rightarrow> (t, Inl invalid_uuid)
    | Some u \<Rightarrow>
        (let r = \<lparr>pr_id = u, pr_name = name, pr_stock = stock, pr_version = version\<rparr>
         in case first_violation (product_rules r
                @ [(tb_products t u = None, unique_violation ''products_pkey'')]) of
              Some e \<Rightarrow> (t, Inl e)
            | None \<Rightarrow> (t\<lparr>tb_products := (tb_products t)(u \<mapsto> r)\<rparr>, Inr [ProductRow r])))"

definition select_product :: "pg \<Rightarrow> string \<Rightarrow> (tables, sql_row list) action" where
  "select_product pg i t = (case pg_uuid pg i of
      None \<Rightarrow> (t, Inl invalid_uuid)
    | Some u \<Rightarrow> (t, Inr (case tb_products t u of None \<Rightarrow> [] | Some r \<Rightarrow> [ProductRow r])))"

text \<open>
  \<open>UPDATE products SET stock = stock - $2, version = version + 1 WHERE id = $1 AND
  stock >= $2\<close>, with the further condition of \<open>reserveWithVersion\<close> as \<open>extra\<close>.
\<close>

definition update_reserve ::
  "pg \<Rightarrow> (product_row \<Rightarrow> bool) \<Rightarrow> string \<Rightarrow> int \<Rightarrow> (tables, sql_row list) action" where
  "update_reserve pg extra i quantity t = (case pg_uuid pg i of
      None \<Rightarrow> (t, Inl invalid_uuid)
    | Some u \<Rightarrow>
        if \<not> in_int4 quantity then (t, Inl integer_out_of_range)
        else (case tb_products t u of
            None \<Rightarrow> (t, Inr [])
          | Some r \<Rightarrow>
              if \<not> (quantity \<le> pr_stock r \<and> extra r) then (t, Inr [])
              else (let r' = r\<lparr>pr_stock := pr_stock r - quantity, pr_version := pr_version r + 1\<rparr>
                    in case first_violation (product_rules r') of
                         Some e \<Rightarrow> (t, Inl e)
                       | None \<Rightarrow> (t\<lparr>tb_products := (tb_products t)(u \<mapsto> r')\<rparr>, Inr [ProductRow r']))))"

definition order_row_of :: "pg \<Rightarrow> new_order \<Rightarrow> string option \<Rightarrow> order_row option" where
  "order_row_of pg o' fp = (case (pg_uuid pg (no_id o'), pg_uuid pg (no_customerId o'),
        pg_uuid pg (no_productId o')) of
      (Some i, Some c, Some p) \<Rightarrow> Some
        \<lparr>or_id = i, or_customer_id = c, or_product_id = p, or_quantity = no_quantity o',
         or_amount = no_amount o', or_status = no_status o', or_version = no_version o',
         or_idempotency_key = no_idempotencyKey o', or_request_fingerprint = fp,
         or_created_at = pg_now pg, or_updated_at = pg_now pg\<rparr>
    | _ \<Rightarrow> None)"

definition key_row :: "tables \<Rightarrow> string \<Rightarrow> order_row option" where
  "key_row t key = find (\<lambda>r. or_idempotency_key r = key) (tb_orders t)"

definition order_id_free :: "tables \<Rightarrow> order_row \<Rightarrow> bool" where
  "order_id_free t r = list_all (\<lambda>r'. or_id r' \<noteq> or_id r) (tb_orders t)"

text \<open>\<open>on_conflict\<close>: whether the statement has \<open>ON CONFLICT (idempotency_key) DO NOTHING\<close>.\<close>

definition insert_order :: "pg \<Rightarrow> bool \<Rightarrow> new_order \<Rightarrow> string option \<Rightarrow> (tables, sql_row list) action" where
  "insert_order pg on_conflict o' fp t = (case order_row_of pg o' fp of
      None \<Rightarrow> (t, Inl invalid_uuid)
    | Some r \<Rightarrow> (case first_violation (order_rules r) of
          Some e \<Rightarrow> (t, Inl e)
        | None \<Rightarrow>
            if on_conflict \<and> key_row t (or_idempotency_key r) \<noteq> None then (t, Inr [])
            else (case first_violation
                [(order_id_free t r, unique_violation ''orders_pkey''),
                 (key_row t (or_idempotency_key r) = None,
                    unique_violation ''orders_idempotency_key_unique''),
                 (tb_products t (or_product_id r) \<noteq> None, foreign_key_violation)] of
                Some e \<Rightarrow> (t, Inl e)
              | None \<Rightarrow> (t\<lparr>tb_orders := tb_orders t @ [r]\<rparr>, Inr [OrderRow r]))))"

definition select_order_by_key :: "string \<Rightarrow> (tables, sql_row list) action" where
  "select_order_by_key key t =
     (t, Inr (case key_row t key of None \<Rightarrow> [] | Some r \<Rightarrow> [OrderRow r]))"

definition insert_processing :: "pg \<Rightarrow> string \<Rightarrow> string \<Rightarrow> (tables, sql_row list) action" where
  "insert_processing pg orderId status t = (case pg_uuid pg orderId of
      None \<Rightarrow> (t, Inl invalid_uuid)
    | Some u \<Rightarrow>
        (let r = \<lparr>op_order_id = u, op_status = status, op_created_at = pg_now pg,
                  op_updated_at = pg_now pg\<rparr>
         in case first_violation (processing_rules r
                @ [(tb_order_processing t u = None, unique_violation ''order_processing_pkey''),
                   (u \<in> set (map or_id (tb_orders t)), foreign_key_violation)]) of
              Some e \<Rightarrow> (t, Inl e)
            | None \<Rightarrow> (t\<lparr>tb_order_processing := (tb_order_processing t)(u \<mapsto> r)\<rparr>,
                       Inr [ProcessingRow r])))"

definition select_processing :: "pg \<Rightarrow> string \<Rightarrow> (tables, sql_row list) action" where
  "select_processing pg orderId t = (case pg_uuid pg orderId of
      None \<Rightarrow> (t, Inl invalid_uuid)
    | Some u \<Rightarrow> (t, Inr (case tb_order_processing t u of None \<Rightarrow> [] | Some r \<Rightarrow> [ProcessingRow r])))"

definition insert_processed_message :: "pg \<Rightarrow> string \<Rightarrow> (tables, sql_row list) action" where
  "insert_processed_message pg m t = (case tb_processed_messages t m of
      Some _ \<Rightarrow> (t, Inr [])
    | None \<Rightarrow> (let r = \<lparr>pm_message_id = m, pm_processed_at = pg_now pg\<rparr>
              in (t\<lparr>tb_processed_messages := (tb_processed_messages t)(m \<mapsto> r)\<rparr>, Inr [ProcessedRow r])))"

definition select_processed_message :: "string \<Rightarrow> (tables, sql_row list) action" where
  "select_processed_message m t =
     (t, Inr (case tb_processed_messages t m of None \<Rightarrow> [] | Some r \<Rightarrow> [ProcessedRow r]))"

fun exec_statement :: "pg \<Rightarrow> tables queryable" where
  "exec_statement pg (InsertProduct i name stock version) = insert_product pg i name stock version"
| "exec_statement pg (SelectProduct i) = select_product pg i"
| "exec_statement pg (SelectProductForUpdate i) = select_product pg i"
| "exec_statement pg (UpdateReserveLocked i quantity) = update_reserve pg (\<lambda>_. True) i quantity"
| "exec_statement pg (UpdateReserveWithVersion i quantity expected) =
     (\<lambda>t. if pg_uuid pg i \<noteq> None \<and> \<not> in_int4 expected then (t, Inl integer_out_of_range)
          else update_reserve pg (\<lambda>r. pr_version r = expected) i quantity t)"
| "exec_statement pg (InsertOrder o') = insert_order pg False o' None"
| "exec_statement pg (InsertOrderIdempotent o' fp) = insert_order pg True o' fp"
| "exec_statement pg (SelectOrderByKey key) = select_order_by_key key"
| "exec_statement pg (InsertProcessing orderId status) = insert_processing pg orderId status"
| "exec_statement pg (SelectProcessing orderId) = select_processing pg orderId"
| "exec_statement pg (InsertProcessedMessage m) = insert_processed_message pg m"
| "exec_statement pg (SelectProcessedMessage m) = select_processed_message m"

section \<open>The constraints hold\<close>

lemma first_violation_None: "first_violation rules = None \<longleftrightarrow> list_all fst rules"
  by (induction rules rule: first_violation.induct) auto

definition product_ok :: "product_row \<Rightarrow> bool" where
  "product_ok r \<longleftrightarrow> 0 \<le> pr_stock r \<and> 1 \<le> pr_version r \<and> in_int4 (pr_stock r) \<and> in_int4 (pr_version r)"

definition order_ok :: "order_row \<Rightarrow> bool" where
  "order_ok r \<longleftrightarrow> 0 < or_quantity r \<and> 0 < or_amount r \<and> or_status r \<in> set STATUSES \<and> 1 \<le> or_version r
     \<and> in_int4 (or_quantity r) \<and> in_int4 (or_amount r) \<and> in_int4 (or_version r)
     \<and> (case or_request_fingerprint r of None \<Rightarrow> True | Some f \<Rightarrow> sha256_text f)"

definition tables_ok :: "tables \<Rightarrow> bool" where
  "tables_ok t \<longleftrightarrow>
     (\<forall>u r. tb_products t u = Some r \<longrightarrow> pr_id r = u \<and> product_ok r)
   \<and> (\<forall>r\<in>set (tb_orders t). order_ok r \<and> tb_products t (or_product_id r) \<noteq> None)
   \<and> distinct (map or_id (tb_orders t)) \<and> distinct (map or_idempotency_key (tb_orders t))
   \<and> (\<forall>u r. tb_order_processing t u = Some r \<longrightarrow> op_order_id r = u \<and> op_status r \<in> set STATUSES
        \<and> u \<in> set (map or_id (tb_orders t)))
   \<and> (\<forall>m r. tb_processed_messages t m = Some r \<longrightarrow> pm_message_id r = m)"

lemma product_rules_None: "first_violation (product_rules r) = None \<longleftrightarrow> product_ok r"
  by (auto simp: first_violation_None product_rules_def product_ok_def)

lemma order_rules_None: "first_violation (order_rules r) = None \<Longrightarrow> order_ok r"
  by (auto simp: first_violation_None order_rules_def order_ok_def split: if_splits)

lemma key_row_None: "key_row t key = None \<longleftrightarrow> key \<notin> or_idempotency_key ` set (tb_orders t)"
  by (auto simp: key_row_def find_None_iff)

lemma key_row_Some: "key_row t key = Some r \<Longrightarrow> r \<in> set (tb_orders t) \<and> or_idempotency_key r = key"
  by (auto simp: key_row_def find_Some_iff)

lemma insert_product_ok: "tables_ok t \<Longrightarrow> tables_ok (fst (insert_product pg i n st v t))"
  by (auto simp: insert_product_def Let_def tables_ok_def first_violation_None product_rules_def
      product_ok_def split: option.splits)

lemma update_reserve_ok:
  assumes "tables_ok t"
  shows "tables_ok (fst (update_reserve pg extra i q t))"
proof -
  have "tables_ok (t\<lparr>tb_products := (tb_products t)(u \<mapsto> r\<lparr>pr_stock := x, pr_version := y\<rparr>)\<rparr>)"
    if "tb_products t u = Some r" "product_ok (r\<lparr>pr_stock := x, pr_version := y\<rparr>)" for u r x y
    using assms that by (auto simp: tables_ok_def)
  then show ?thesis
    using assms by (auto simp: update_reserve_def Let_def product_rules_None split: option.splits)
qed

lemma insert_order_ok:
  assumes "tables_ok t"
  shows "tables_ok (fst (insert_order pg b o' fp t))"
proof -
  have "tables_ok (t\<lparr>tb_orders := tb_orders t @ [r]\<rparr>)"
    if "first_violation (order_rules r) = None" "order_id_free t r"
      "key_row t (or_idempotency_key r) = None" "tb_products t (or_product_id r) \<noteq> None" for r
    using assms order_rules_None [OF that(1)] that(2-)
    by (auto simp: tables_ok_def order_id_free_def list_all_iff key_row_None)
  then show ?thesis
    using assms by (auto simp: insert_order_def first_violation_None split: option.splits)
qed

lemma insert_processing_ok: "tables_ok t \<Longrightarrow> tables_ok (fst (insert_processing pg i st t))"
  by (auto simp: insert_processing_def Let_def tables_ok_def first_violation_None processing_rules_def
      split: option.splits)

lemma insert_processed_message_ok: "tables_ok t \<Longrightarrow> tables_ok (fst (insert_processed_message pg m t))"
  by (auto simp: insert_processed_message_def Let_def tables_ok_def split: option.splits)

lemma select_unchanged [simp]:
  "fst (select_product pg i t) = t" "fst (select_order_by_key k t) = t"
  "fst (select_processing pg i t) = t" "fst (select_processed_message m t) = t"
  by (simp_all add: select_product_def select_order_by_key_def select_processing_def
      select_processed_message_def split: option.split)

lemma exec_statement_ok: "tables_ok t \<Longrightarrow> tables_ok (fst (exec_statement pg st t))"
  by (cases st) (simp_all add: insert_product_ok update_reserve_ok insert_order_ok
      insert_processing_ok insert_processed_message_ok)

lemma exec_statement_error_unchanged: "exec_statement pg st t = (t', Inl e) \<Longrightarrow> t' = t"
  by (cases st) (auto simp: insert_product_def select_product_def update_reserve_def insert_order_def
      select_order_by_key_def insert_processing_def select_processing_def insert_processed_message_def
      select_processed_message_def Let_def split: option.splits if_splits)

end
