(* ===== verification/Transactions.thy ===== *)
theory Transactions
  imports Tables
begin

text \<open>
  \<open>withTransaction\<close> of \<open>packages/database/src/transaction.js\<close>.  The pool and its
  client are functions of a connection state; the result carries the trace of the
  calls made on them.  The locale \<open>transactional\<close> states what a database promises
  about the three commands; it is interpreted on a server that holds the tables
  and may fail any call.
\<close>

section \<open>Commands and error translation\<close>

definition ISOLATION_LEVELS :: "string list" where
  "ISOLATION_LEVELS = [''READ COMMITTED'', ''REPEATABLE READ'', ''SERIALIZABLE'']"

definition beginCommand :: "string option \<Rightarrow> string result" where
  "beginCommand isolationLevel = (case isolationLevel of
      None \<Rightarrow> Inr ''BEGIN''
    | Some l \<Rightarrow> if l \<notin> set ISOLATION_LEVELS
        then Inl (range_error (''Unsupported transaction isolation level: '' @ l))
        else Inr (''BEGIN ISOLATION LEVEL '' @ l))"

fun is_unavailable_wrapper :: "exn \<Rightarrow> bool" where
  "is_unavailable_wrapper (DatabaseUnavailableError c) = True"
| "is_unavailable_wrapper _ = False"

definition translateAvailabilityError :: "exn \<Rightarrow> exn" where
  "translateAvailabilityError e =
     (if is_unavailable_wrapper e then e
      else if isDatabaseUnavailable e then DatabaseUnavailableError (Some e) else e)"

fun wrapped_cause :: "exn \<Rightarrow> exn" where
  "wrapped_cause (DatabaseUnavailableError (Some c)) = c"
| "wrapped_cause e = e"

definition connectionFailure :: "exn \<Rightarrow> exn option" where
  "connectionFailure e =
     (if is_unavailable_wrapper e then Some (wrapped_cause e)
      else if isDatabaseUnavailable e then Some e else None)"

text \<open>A thrown \<open>undefined\<close> or \<open>null\<close> leaves \<open>discardError\<close> nullish.\<close>

definition nullish :: "exn \<Rightarrow> exn option" where
  "nullish e = (if e = Thrown JUndefined \<or> e = Thrown JNull then None else Some e)"

section \<open>The transaction\<close>

record 's tx_client =
  tx_connect :: "('s, unit) action"
  tx_command :: "string \<Rightarrow> ('s, unit) action"
  tx_release :: "exn option \<Rightarrow> 's \<Rightarrow> 's"

datatype tx_call = Connect | Command string | Operation | Release "exn option"

definition run_transaction ::
  "'s tx_client \<Rightarrow> string \<Rightarrow> ('s, 'a) action \<Rightarrow> 's \<Rightarrow> 's \<times> tx_call list \<times> exn option \<times> 'a result" where
  "run_transaction c begin operation s =
     (case tx_command c begin s of
        (s1, Inl e) \<Rightarrow> (s1, [Command begin], connectionFailure e, Inl (translateAvailabilityError e))
      | (s1, Inr _) \<Rightarrow>
          (let (s2, calls, r) = (case operation s1 of
                 (s2, Inl e) \<Rightarrow> (s2, [Operation], Inl e)
               | (s2, Inr v) \<Rightarrow> (case tx_command c ''COMMIT'' s2 of
                     (s3, Inl e) \<Rightarrow> (s3, [Operation, Command ''COMMIT''], Inl e)
                   | (s3, Inr _) \<Rightarrow> (s3, [Operation, Command ''COMMIT''], Inr v)))
           in case r of
                Inr v \<Rightarrow> (s2, Command begin # calls, None, Inr v)
              | Inl primaryError \<Rightarrow>
                  (let (s3, rollback) = tx_command c ''ROLLBACK'' s2;
                       discardError = (case rollback of Inl e \<Rightarrow> nullish e | Inr _ \<Rightarrow> None)
                   in (s3, Command begin # calls @ [Command ''ROLLBACK''],
                       (if discardError = None then connectionFailure primaryError else discardError),
                       Inl (translateAvailabilityError primaryError)))))"

definition withTransaction ::
  "'s tx_client \<Rightarrow> ('s, 'a) action \<Rightarrow> string option \<Rightarrow> 's \<Rightarrow> 's \<times> tx_call list \<times> 'a result" where
  "withTransaction c operation isolationLevel s = (case beginCommand isolationLevel of
      Inl e \<Rightarrow> (s, [], Inl e)
    | Inr begin \<Rightarrow> (case tx_connect c s of
          (s1, Inl e) \<Rightarrow> (s1, [Connect], Inl (translateAvailabilityError e))
        | (s1, Inr _) \<Rightarrow>
            (let (s2, calls, discardError, r) = run_transaction c begin operation s1
             in (tx_release c discardError s2, Connect # calls @ [Release discardError], r))))"

section \<open>What a database promises\<close>

text \<open>An operation that works on the open transaction and does not end it.\<close>

definition operation_inside ::
  "('s \<Rightarrow> 'd) \<Rightarrow> ('s \<Rightarrow> 'd option) \<Rightarrow> ('s, 'a) action \<Rightarrow> bool" where
  "operation_inside committed working operation \<longleftrightarrow> (\<forall>s d. working s = Some d \<longrightarrow>
     committed (fst (operation s)) = committed s
     \<and> (\<forall>v. snd (operation s) = Inr v \<longrightarrow> (\<exists>d'. working (fst (operation s)) = Some d')))"

locale transactional =
  fixes client :: "'s tx_client" and committed :: "'s \<Rightarrow> 'd" and working :: "'s \<Rightarrow> 'd option"
  assumes connect_committed: "committed (fst (tx_connect client s)) = committed s"
    and release_committed: "committed (tx_release client discard s) = committed s"
    and begin_ok: "cmd \<noteq> ''COMMIT'' \<Longrightarrow> cmd \<noteq> ''ROLLBACK'' \<Longrightarrow> tx_command client cmd s = (s', r) \<Longrightarrow>
        committed s' = committed s \<and> (\<forall>u. r = Inr u \<longrightarrow> working s' = Some (committed s))"
    and rollback_committed: "committed (fst (tx_command client ''ROLLBACK'' s)) = committed s"
    and commit_ok: "tx_command client ''COMMIT'' s = (s', Inr u) \<Longrightarrow> working s = Some d \<Longrightarrow> committed s' = d"
    and commit_failed: "tx_command client ''COMMIT'' s = (s', Inl e) \<Longrightarrow>
        committed s' = committed s \<or> working s = Some (committed s')"
begin

text \<open>A returned result is committed work; a thrown error leaves the data alone, or
  the acknowledgement of \<open>COMMIT\<close> was lost and the work is either absent or complete.\<close>

lemma run_transaction_atomic:
  assumes run: "run_transaction client begin operation s = (s', calls, discard, r)"
    and cmd: "begin \<noteq> ''COMMIT''" "begin \<noteq> ''ROLLBACK''"
    and op: "operation_inside committed working operation"
  shows "case r of
      Inr v \<Rightarrow> \<exists>s1 s2. working s1 = Some (committed s) \<and> operation s1 = (s2, Inr v)
        \<and> working s2 = Some (committed s')
    | Inl e \<Rightarrow> committed s' = committed s
        \<or> (\<exists>s1 s2 v. working s1 = Some (committed s) \<and> operation s1 = (s2, Inr v)
             \<and> working s2 = Some (committed s') \<and> Command ''COMMIT'' \<in> set calls)"
proof -
  obtain s1 b where b: "tx_command client begin s = (s1, b)" by force
  show ?thesis
  proof (cases b)
    case (Inl e)
    then show ?thesis using run b begin_ok [OF cmd b] by (auto simp: run_transaction_def)
  next
    case (Inr u)
    then have s1: "committed s1 = committed s" "working s1 = Some (committed s)"
      using begin_ok [OF cmd b] by auto
    obtain s2 o1 where o1: "operation s1 = (s2, o1)" by force
    have s2: "committed s2 = committed s" "\<And>v. o1 = Inr v \<Longrightarrow> \<exists>d. working s2 = Some d"
      using op s1 o1 unfolding operation_inside_def by (metis fst_conv snd_conv)+
    obtain s3 rb where rb: "tx_command client ''ROLLBACK'' s2 = (s3, rb)" by force
    have s3: "committed s3 = committed s" using rollback_committed [of s2] rb s2 by simp
    show ?thesis
    proof (cases o1)
      case (Inl e)
      then show ?thesis using run b Inr o1 rb s3 by (auto simp: run_transaction_def Let_def)
    next
      case o1v: (Inr v)
      obtain s4 c where c: "tx_command client ''COMMIT'' s2 = (s4, c)" by force
      obtain s5 rb' where rb': "tx_command client ''ROLLBACK'' s4 = (s5, rb')" by force
      have s5: "committed s5 = committed s4" using rollback_committed [of s4] rb' by simp
      show ?thesis
      proof (cases c)
        case (Inl e)
        then have "committed s4 = committed s2 \<or> working s2 = Some (committed s4)"
          using commit_failed c by blast
        then have "committed s' = committed s \<or> working s2 = Some (committed s')"
          and "r = Inl (translateAvailabilityError e)" and "Command ''COMMIT'' \<in> set calls"
          using run b \<open>b = Inr u\<close> o1 o1v c Inl rb' s5 s2
          by (auto simp: run_transaction_def Let_def)
        then show ?thesis using s1(2) o1 o1v by auto
      next
        case cv: (Inr u')
        then have "working s2 = Some (committed s4)" using s2(2) [OF o1v] commit_ok c by blast
        moreover have "r = Inr v" "s' = s4"
          using run b \<open>b = Inr u\<close> o1 o1v c cv by (simp_all add: run_transaction_def Let_def)
        ultimately show ?thesis using s1(2) o1 o1v by auto
      qed
    qed
  qed
qed

lemma withTransaction_atomic:
  assumes run: "withTransaction client operation level s = (s', calls, r)"
    and op: "operation_inside committed working operation"
  shows "case r of
      Inr v \<Rightarrow> \<exists>s1 s2. working s1 = Some (committed s) \<and> operation s1 = (s2, Inr v)
        \<and> working s2 = Some (committed s')
    | Inl e \<Rightarrow> committed s' = committed s
        \<or> (\<exists>s1 s2 v. working s1 = Some (committed s) \<and> operation s1 = (s2, Inr v)
             \<and> working s2 = Some (committed s') \<and> Command ''COMMIT'' \<in> set calls)"
proof (cases "beginCommand level")
  case (Inl e)
  then show ?thesis using run by (auto simp: withTransaction_def)
next
  case (Inr cmd0)
  have cmd: "cmd0 \<noteq> ''COMMIT''" "cmd0 \<noteq> ''ROLLBACK''"
    using Inr by (auto simp: beginCommand_def split: option.splits if_splits)
  obtain s1 k where k: "tx_connect client s = (s1, k)" by force
  have s1: "committed s1 = committed s" using connect_committed [of s] k by simp
  show ?thesis
  proof (cases k)
    case Inl
    then show ?thesis using run Inr k s1 by (auto simp: withTransaction_def)
  next
    case ku: (Inr u)
    obtain s2 calls' discard r' where t: "run_transaction client cmd0 operation s1 = (s2, calls', discard, r')"
      by (metis prod_cases4)
    have out: "s' = tx_release client discard s2" "r = r'" "calls = Connect # calls' @ [Release discard]"
      using run Inr k ku t by (auto simp: withTransaction_def)
    have "committed s' = committed s2" by (simp add: out release_committed)
    then show ?thesis
      using run_transaction_atomic [OF t cmd op] s1 by (cases r') (auto simp: out)
  qed
qed

end

section \<open>A server holding the tables\<close>

text \<open>
  One connection to a server.  A transaction works on a copy of the committed
  tables; a statement that throws inside one aborts it, after which only \<open>ROLLBACK\<close>
  or a \<open>COMMIT\<close> that commits nothing ends it.  The \<open>n\<close>-th call may fail with an error
  of the connection; a failing \<open>COMMIT\<close> may still have taken effect.
\<close>

datatype tx_status = NoTransaction | Active tables | Aborted

record server =
  sv_committed :: tables
  sv_status :: tx_status
  sv_calls :: nat

record failures =
  fl_error :: "nat \<Rightarrow> exn option"
  fl_took_effect :: "nat \<Rightarrow> bool"

definition in_failed_transaction :: exn where
  "in_failed_transaction = sql_error ''current transaction is aborted'' ''25P02''"

definition counted :: "server \<Rightarrow> server" where
  "counted s = s\<lparr>sv_calls := sv_calls s + 1\<rparr>"

definition working_tables :: "server \<Rightarrow> tables option" where
  "working_tables s = (case sv_status s of Active t \<Rightarrow> Some t | _ \<Rightarrow> None)"

definition commit_work :: "server \<Rightarrow> server" where
  "commit_work s = (case sv_status s of
      Active t \<Rightarrow> s\<lparr>sv_committed := t, sv_status := NoTransaction\<rparr>
    | _ \<Rightarrow> s\<lparr>sv_status := NoTransaction\<rparr>)"

definition server_command :: "failures \<Rightarrow> string \<Rightarrow> (server, unit) action" where
  "server_command fl cmd s = (case fl_error fl (sv_calls s) of
      Some e \<Rightarrow> (if cmd = ''COMMIT'' \<and> fl_took_effect fl (sv_calls s) then commit_work (counted s)
                 else counted s, Inl e)
    | None \<Rightarrow> (if cmd = ''COMMIT'' then commit_work (counted s)
               else if cmd = ''ROLLBACK'' then (counted s)\<lparr>sv_status := NoTransaction\<rparr>
               else (counted s)\<lparr>sv_status := Active (sv_committed s)\<rparr>, Inr ()))"

definition server_client :: "failures \<Rightarrow> server tx_client" where
  "server_client fl = \<lparr>
     tx_connect = (\<lambda>s. (counted s, case fl_error fl (sv_calls s) of Some e \<Rightarrow> Inl e | None \<Rightarrow> Inr ())),
     tx_command = server_command fl,
     tx_release = (\<lambda>discard s. s\<lparr>sv_status := NoTransaction\<rparr>)\<rparr>"

definition server_query :: "failures \<Rightarrow> pg \<Rightarrow> server queryable" where
  "server_query fl pg st s = (case fl_error fl (sv_calls s) of
      Some e \<Rightarrow> (counted s, Inl e)
    | None \<Rightarrow> (case sv_status s of
          Aborted \<Rightarrow> (counted s, Inl in_failed_transaction)
        | Active t \<Rightarrow> (case exec_statement pg st t of
              (_, Inl e) \<Rightarrow> ((counted s)\<lparr>sv_status := Aborted\<rparr>, Inl e)
            | (t', Inr rows) \<Rightarrow> ((counted s)\<lparr>sv_status := Active t'\<rparr>, Inr rows))
        | NoTransaction \<Rightarrow> (case exec_statement pg st (sv_committed s) of
              (_, Inl e) \<Rightarrow> (counted s, Inl e)
            | (t', Inr rows) \<Rightarrow> ((counted s)\<lparr>sv_committed := t'\<rparr>, Inr rows))))"

interpretation pg_server: transactional "server_client fl" sv_committed working_tables for fl
  by unfold_locales
    (auto simp: server_client_def server_command_def counted_def commit_work_def working_tables_def
      split: option.splits tx_status.splits if_splits)

section \<open>The protocol of calls\<close>

lemma run_transaction_calls:
  assumes "run_transaction c cmd operation s = (s', calls, d, r)"
  shows "(\<exists>e. calls = [Command cmd] \<and> r = Inl e)
    \<or> (\<exists>e. calls = [Command cmd, Operation, Command ''ROLLBACK''] \<and> r = Inl e)
    \<or> (\<exists>e. calls = [Command cmd, Operation, Command ''COMMIT'', Command ''ROLLBACK''] \<and> r = Inl e)
    \<or> (\<exists>v. calls = [Command cmd, Operation, Command ''COMMIT''] \<and> d = None \<and> r = Inr v)"
proof -
  obtain s1 b where b: "tx_command c cmd s = (s1, b)" by force
  obtain s2 o1 where o1: "operation s1 = (s2, o1)" by force
  obtain s3 rb where rb: "tx_command c ''ROLLBACK'' s2 = (s3, rb)" by force
  obtain s4 cm where cm: "tx_command c ''COMMIT'' s2 = (s4, cm)" by force
  obtain s5 rb' where rb': "tx_command c ''ROLLBACK'' s4 = (s5, rb')" by force
  note run = assms [unfolded run_transaction_def b prod.case]
  show ?thesis
  proof (cases b)
    case (Inl e)
    then show ?thesis using run by auto
  next
    case b': (Inr u)
    show ?thesis
    proof (cases o1)
      case (Inl e)
      then show ?thesis using run b' o1 rb by (clarsimp simp: Let_def)
    next
      case o1': (Inr v)
      show ?thesis using run b' o1 o1' cm rb' by (cases cm) (clarsimp simp: Let_def)+
    qed
  qed
qed

lemma withTransaction_calls:
  assumes "withTransaction c operation level s = (s', calls, r)"
  obtains (unsupported) e where "beginCommand level = Inl e" "s' = s" "calls = []" "r = Inl e"
  | (no_connection) e where "calls = [Connect]" "r = Inl (translateAvailabilityError e)"
      "snd (tx_connect c s) = Inl e"
  | (ran) cmd mid d where "beginCommand level = Inr cmd" "snd (tx_connect c s) = Inr ()"
      "calls = Connect # Command cmd # mid @ [Release d]"
      "(\<exists>e. r = Inl e) \<and> mid \<in> {[], [Operation, Command ''ROLLBACK''],
          [Operation, Command ''COMMIT'', Command ''ROLLBACK'']}
       \<or> (\<exists>v. r = Inr v) \<and> mid = [Operation, Command ''COMMIT''] \<and> d = None"
proof (cases "beginCommand level")
  case (Inl e)
  then show thesis using assms unsupported by (simp add: withTransaction_def)
next
  case (Inr cmd)
  obtain s1 k where k: "tx_connect c s = (s1, k)" by force
  show thesis
  proof (cases k)
    case (Inl e)
    then have "calls = [Connect]" "r = Inl (translateAvailabilityError e)"
      using assms \<open>beginCommand level = Inr cmd\<close> k by (simp_all add: withTransaction_def)
    then show thesis using no_connection k Inl by simp
  next
    case (Inr u)
    obtain s2 calls' d r' where t: "run_transaction c cmd operation s1 = (s2, calls', d, r')"
      by (metis prod_cases4)
    have "calls = Connect # calls' @ [Release d]" "r = r'"
      using assms \<open>beginCommand level = Inr cmd\<close> k Inr t by (auto simp: withTransaction_def)
    then show thesis
      using run_transaction_calls [OF t] ran [OF \<open>beginCommand level = Inr cmd\<close>] k Inr by auto
  qed
qed

section \<open>Repositories inside a transaction\<close>

abbreviation inside_server :: "(server, 'a) action \<Rightarrow> bool" where
  "inside_server \<equiv> operation_inside sv_committed working_tables"

lemma inside_then_do [intro]:
  assumes "inside_server m" and "\<And>x. inside_server (f x)"
  shows "inside_server (then_do m f)"
  unfolding operation_inside_def
proof (intro allI impI)
  fix s t
  assume t: "working_tables s = Some t"
  obtain s1 r where m: "m s = (s1, r)" by force
  have c: "sv_committed s1 = sv_committed s" "\<And>v. r = Inr v \<Longrightarrow> \<exists>t'. working_tables s1 = Some t'"
    using assms(1) t m unfolding operation_inside_def by (metis fst_conv snd_conv)+
  show "sv_committed (fst (then_do m f s)) = sv_committed s
      \<and> (\<forall>v. snd (then_do m f s) = Inr v \<longrightarrow> (\<exists>t'. working_tables (fst (then_do m f s)) = Some t'))"
  proof (cases r)
    case (Inr x)
    with c obtain t' where "working_tables s1 = Some t'" by blast
    then show ?thesis using assms(2) [of x] m Inr c(1) by (simp add: operation_inside_def)
  qed (use m c in simp)
qed

lemma inside_finish_with [intro]: "inside_server (finish_with r)"
  by (auto simp: operation_inside_def)

lemma inside_runQuery [intro]: "inside_server (runQuery (server_query fl pg) st)"
  by (auto simp: operation_inside_def runQuery_def server_query_def working_tables_def counted_def
      split: option.splits tx_status.splits prod.splits sum.splits)

lemma inside_if [intro]: "inside_server m \<Longrightarrow> inside_server m' \<Longrightarrow> inside_server (if b then m else m')"
  by simp

lemma repositories_inside [intro]:
  "inside_server (findById (server_query fl pg) i)"
  "inside_server (findByIdForUpdate (server_query fl pg) i)"
  "inside_server (reserveLocked (server_query fl pg) i q)"
  "inside_server (reserveWithVersion (server_query fl pg) i q v)"
  "inside_server (findByIdempotencyKey (server_query fl pg) k)"
  "inside_server (createIdempotent (server_query fl pg) o' fp)"
  "inside_server (createOrderProcessing (server_query fl pg) i st)"
  unfolding findById_def findByIdForUpdate_def reserveLocked_def reserveWithVersion_def
    findByIdempotencyKey_def createIdempotent_def createOrderProcessing_def
  by (intro inside_then_do inside_runQuery inside_finish_with inside_if)+

section \<open>Properties\<close>

definition no_failures :: failures where
  "no_failures = \<lparr>fl_error = (\<lambda>_. None), fl_took_effect = (\<lambda>_. False)\<rparr>"

definition sample_pg :: pg where
  "sample_pg = \<lparr>pg_uuid = (\<lambda>s. if s = [] then None else Some s), pg_now = 1000\<rparr>"

definition empty_tables :: tables where
  "empty_tables = \<lparr>tb_products = Map.empty, tb_orders = [], tb_order_processing = Map.empty,
     tb_processed_messages = Map.empty\<rparr>"

definition sample_tables :: tables where
  "sample_tables = empty_tables\<lparr>tb_products := [''p'' \<mapsto>
     \<lparr>pr_id = ''p'', pr_name = ''Keyboard'', pr_stock = 10, pr_version = 1\<rparr>]\<rparr>"

definition sample_server :: server where
  "sample_server = \<lparr>sv_committed = sample_tables, sv_status = NoTransaction, sv_calls = 0\<rparr>"

text \<open>
  C7. The client is released exactly once.  Whatever the pool, the client and the
  operation do, an unsupported isolation level makes no call, a failed \<open>connect\<close>
  releases nothing, and otherwise the calls are \<open>BEGIN\<close>, the operation, then \<open>COMMIT\<close>
  only after it succeeded and \<open>ROLLBACK\<close> exactly when the operation or \<open>COMMIT\<close> failed,
  and one final release; a result is returned exactly when \<open>COMMIT\<close> succeeded, and
  then the connection goes back to the pool intact.
\<close>

theorem transaction_protocol:
  "case withTransaction c operation level s of (s', calls, r) \<Rightarrow>
     (case (beginCommand level, snd (tx_connect c s)) of
        (Inl e, _) \<Rightarrow> calls = [] \<and> r = Inl e \<and> s' = s
      | (Inr cmd, Inl e) \<Rightarrow> calls = [Connect] \<and> r = Inl (translateAvailabilityError e)
      | (Inr cmd, Inr _) \<Rightarrow> (\<exists>mid d. calls = Connect # Command cmd # mid @ [Release d]
          \<and> (if (\<exists>v. r = Inr v) then mid = [Operation, Command ''COMMIT''] \<and> d = None
             else mid \<in> {[], [Operation, Command ''ROLLBACK''],
               [Operation, Command ''COMMIT'', Command ''ROLLBACK'']})))"
proof -
  obtain s' calls r where run: "withTransaction c operation level s = (s', calls, r)"
    by (metis prod_cases3)
  from run show ?thesis
  proof (cases rule: withTransaction_calls)
    case (unsupported e)
    then show ?thesis using run by simp
  next
    case (no_connection e)
    obtain cmd where "beginCommand level = Inr cmd"
      using run no_connection(1) by (cases "beginCommand level") (auto simp: withTransaction_def)
    then show ?thesis using run no_connection by simp
  next
    case (ran cmd mid d)
    then show ?thesis using run by (simp add: ran(1,2)) (auto simp: ran(3))
  qed
qed

text \<open>
  C6. Transactions are atomic.  On a server whose calls may fail at any point, when
  \<open>withTransaction\<close> returns a result the committed tables are exactly what the
  operation produced from a copy of the previously committed ones; when it throws,
  the committed tables are unchanged, unless the acknowledgement of a sent \<open>COMMIT\<close>
  was lost and the operation's complete work is there.  The operation is any that works on the open transaction
  (\<open>operation_inside\<close>): it issues no \<open>BEGIN\<close>, \<open>COMMIT\<close> or \<open>ROLLBACK\<close> of its own, and it does not return after it has
  caught the error of a statement that aborted the transaction, since the \<open>COMMIT\<close> that follows would then store
  nothing.  The rules above show it of \<open>runQuery\<close> and of whatever is composed from it, that is, of every method of
  the repositories.
\<close>

theorem transaction_atomic:
  assumes "withTransaction (server_client fl) operation level s = (s', calls, r)"
    and "operation_inside sv_committed working_tables operation"
  shows "case r of
      Inr v \<Rightarrow> \<exists>s1 s2. working_tables s1 = Some (sv_committed s) \<and> operation s1 = (s2, Inr v)
        \<and> working_tables s2 = Some (sv_committed s')
    | Inl e \<Rightarrow> sv_committed s' = sv_committed s
        \<or> (\<exists>s1 s2 v. working_tables s1 = Some (sv_committed s) \<and> operation s1 = (s2, Inr v)
             \<and> working_tables s2 = Some (sv_committed s') \<and> Command ''COMMIT'' \<in> set calls)"
  by (rule pg_server.withTransaction_atomic [OF assms])

lemma sample_reserve_run:
  "\<exists>s' calls. withTransaction (server_client no_failures)
      (reserveLocked (server_query no_failures sample_pg) ''p'' (JInt 3)) None sample_server
    = (s', calls, Inr (Some \<lparr>p_id = ''p'', p_name = ''Keyboard'', p_stock = 7, p_version = 2\<rparr>))
    \<and> map_option pr_stock (tb_products (sv_committed s') ''p'') = Some 7"
  by (simp add: withTransaction_def beginCommand_def server_client_def no_failures_def sample_server_def
      counted_def run_transaction_def server_command_def reserveLocked_def then_do_def runQuery_def
      server_query_def sample_pg_def update_reserve_def in_int4_def sample_tables_def empty_tables_def
      Let_def product_rules_def null_or_def mapProduct_def commit_work_def int_of_js_def)

theorem transaction_atomic_witness:
  "\<exists>s' calls v. withTransaction (server_client no_failures)
      (reserveLocked (server_query no_failures sample_pg) ''p'' (JInt 3)) None sample_server
        = (s', calls, Inr v)
    \<and> map_option pr_stock (tb_products (sv_committed s') ''p'') = Some 7
    \<and> (\<exists>s1 s2. working_tables s1 = Some (sv_committed sample_server)
        \<and> reserveLocked (server_query no_failures sample_pg) ''p'' (JInt 3) s1 = (s2, Inr v)
        \<and> working_tables s2 = Some (sv_committed s'))"
proof -
  obtain s' calls v where run: "withTransaction (server_client no_failures)
      (reserveLocked (server_query no_failures sample_pg) ''p'' (JInt 3)) None sample_server
        = (s', calls, Inr v)"
    and stock: "map_option pr_stock (tb_products (sv_committed s') ''p'') = Some 7"
    using sample_reserve_run by blast
  have "inside_server (reserveLocked (server_query no_failures sample_pg) ''p'' (JInt 3))" by blast
  from transaction_atomic [OF run this] show ?thesis using run stock by auto
qed

end
