(* ===== verification/Store_Interfaces.thy ===== *)
theory Store_Interfaces
  imports Database
begin

text \<open>
  What the clients of the repositories rely on.  \<open>versioned_product\<close> is the view of
  one product that the inventory reservations need; \<open>idempotent_store\<close> is the view of
  the orders table that the order services need.  Both are interpreted on the
  repositories over the tables in \<open>Repositories\<close>.
\<close>

section \<open>One product\<close>

text \<open>The product after a reservation of \<open>q\<close>.\<close>

definition reserved_product :: "int \<Rightarrow> product \<Rightarrow> product" where
  "reserved_product q p = p\<lparr>p_stock := p_stock p - q, p_version := p_version p + 1\<rparr>"

locale versioned_product =
  fixes find :: "('s, product option) action"
    and reserve :: "int \<Rightarrow> int \<Rightarrow> ('s, product option) action"
    and item :: "'s \<Rightarrow> product option"
    and ok :: "'s \<Rightarrow> bool"
  assumes find_reads: "ok s \<Longrightarrow> find s = (s', r) \<Longrightarrow>
      ok s' \<and> item s' = item s \<and> (\<forall>x. r = Inr x \<longrightarrow> x = item s)"
    and reserve_ok: "ok s \<Longrightarrow> 0 < q \<Longrightarrow> ok (fst (reserve q v s))"
    and reserve_some: "ok s \<Longrightarrow> 0 < q \<Longrightarrow> reserve q v s = (s', Inr (Some p')) \<Longrightarrow>
      \<exists>p. item s = Some p \<and> q \<le> p_stock p \<and> p_version p = v
        \<and> p' = reserved_product q p \<and> item s' = Some p'"
    and reserve_none: "ok s \<Longrightarrow> 0 < q \<Longrightarrow> reserve q v s = (s', Inr None) \<Longrightarrow>
      item s' = item s \<and> \<not> (\<exists>p. item s = Some p \<and> q \<le> p_stock p \<and> p_version p = v)"
    and reserve_error: "ok s \<Longrightarrow> 0 < q \<Longrightarrow> reserve q v s = (s', Inl e) \<Longrightarrow> item s' = item s"
begin

text \<open>The version names the state of the stock: what a successful reservation read is current.\<close>

lemma reserve_cases:
  assumes "ok s" and "0 < q" and "reserve q v s = (s', r)"
  obtains (reserved) p where "r = Inr (Some (reserved_product q p))" "item s = Some p"
      "q \<le> p_stock p" "p_version p = v" "item s' = Some (reserved_product q p)"
  | (unchanged) "item s' = item s" "\<forall>p. r \<noteq> Inr (Some p)"
proof (cases r)
  case (Inl e)
  then show thesis using unchanged reserve_error [OF assms(1,2)] assms(3) by simp
next
  case (Inr x)
  then show thesis
  proof (cases x)
    case None
    then show thesis using unchanged reserve_none [OF assms(1,2)] assms(3) Inr by simp
  next
    case (Some p')
    then show thesis using reserved reserve_some [OF assms(1,2)] assms(3) Inr by blast
  qed
qed

end

section \<open>The orders by idempotency key\<close>

type_synonym stored_order = "order \<times> string option"

definition record_of :: "bool \<Rightarrow> stored_order \<Rightarrow> idempotency_record" where
  "record_of created so = \<lparr>ir_created = created, ir_order = fst so, ir_requestFingerprint = snd so\<rparr>"

text \<open>The stored order carries the business fields of the request.\<close>

definition stores_request :: "new_order \<Rightarrow> order \<Rightarrow> bool" where
  "stores_request o' ord \<longleftrightarrow> ord_quantity ord = no_quantity o' \<and> ord_amount ord = no_amount o'
     \<and> ord_status ord = no_status o' \<and> ord_version ord = no_version o'
     \<and> ord_idempotencyKey ord = no_idempotencyKey o'"

locale idempotent_store =
  fixes find_key :: "string \<Rightarrow> ('s, idempotency_record option) action"
    and create_key :: "new_order \<Rightarrow> string option \<Rightarrow> ('s, idempotency_record option) action"
    and stored :: "'s \<Rightarrow> string \<Rightarrow> stored_order option"
    and ok :: "'s \<Rightarrow> bool"
  assumes find_key_reads: "ok s \<Longrightarrow> find_key k s = (s', r) \<Longrightarrow>
      s' = s \<and> (\<forall>x. r = Inr x \<longrightarrow> x = map_option (record_of False) (stored s k))"
    and create_ok: "ok s \<Longrightarrow> ok (fst (create_key o' fp s))"
    and create_returns: "ok s \<Longrightarrow> create_key o' fp s = (s', Inr x) \<Longrightarrow>
      (case stored s (no_idempotencyKey o') of
         Some so \<Rightarrow> x = Some (record_of False so) \<and> s' = s
       | None \<Rightarrow> \<exists>ord. x = Some (record_of True (ord, fp)) \<and> stores_request o' ord
           \<and> stored s' = (stored s)(no_idempotencyKey o' \<mapsto> (ord, fp)))"
    and create_throws: "ok s \<Longrightarrow> create_key o' fp s = (s', Inl e) \<Longrightarrow> s' = s"
begin

text \<open>An order, once stored under a key, is never replaced.\<close>

lemma create_keeps:
  assumes "ok s" and "stored s k = Some so"
  shows "stored (fst (create_key o' fp s)) k = Some so"
proof -
  obtain s' r where run: "create_key o' fp s = (s', r)" by force
  show ?thesis
  proof (cases r)
    case (Inl e)
    then have "s' = s" using create_throws [OF assms(1)] run by blast
    then show ?thesis using run assms(2) by simp
  next
    case (Inr x)
    then show ?thesis
      using create_returns [OF assms(1), of o' fp s' x] run assms(2)
      by (auto split: option.splits)
  qed
qed

end

end
