(* ===== verification/Repositories.thy ===== *)
theory Repositories
  imports Transactions Store_Interfaces
begin

text \<open>
  The repositories over the tables: what each method returns, the interpretation
  of the store contracts, and the properties of the repositories.
\<close>

section \<open>Methods on the tables\<close>

lemma not_unavailable [simp]:
  "\<not> isDatabaseUnavailable invalid_uuid" "\<not> isDatabaseUnavailable integer_out_of_range"
  "\<not> isDatabaseUnavailable (check_violation c)" "\<not> isDatabaseUnavailable (unique_violation c)"
  "\<not> isDatabaseUnavailable foreign_key_violation"
  by (simp_all add: isDatabaseUnavailable_def NODE_CONNECTION_CODES_def invalid_uuid_def
      integer_out_of_range_def check_violation_def unique_violation_def foreign_key_violation_def
      sql_error_def)

lemma first_violation_in: "first_violation rules = Some e \<Longrightarrow> e \<in> snd ` set rules"
  by (induction rules rule: first_violation.induct) (auto split: if_splits)

lemma sql_rule_errors:
  "first_violation (product_rules r) = Some e \<Longrightarrow> \<not> isDatabaseUnavailable e"
  "first_violation (order_rules o') = Some e \<Longrightarrow> \<not> isDatabaseUnavailable e"
  using first_violation_in [of "product_rules r" e] first_violation_in [of "order_rules o'" e]
  by (auto simp: product_rules_def order_rules_def)

lemma exec_statement_error:
  assumes "exec_statement pg st t = (t', Inl e)"
  shows "\<not> isDatabaseUnavailable e"
  using assms
  by (cases st) (auto simp: insert_product_def select_product_def update_reserve_def insert_order_def
      select_order_by_key_def insert_processing_def select_processing_def insert_processed_message_def
      select_processed_message_def Let_def product_rules_def order_rules_def processing_rules_def
      split: option.splits if_splits dest!: first_violation_in)

lemma runQuery_exec [simp]: "runQuery (exec_statement pg) st t = exec_statement pg st t"
proof -
  obtain t' r where run: "exec_statement pg st t = (t', r)" by force
  then show ?thesis
    using exec_statement_error [of pg st t t'] by (cases r) (simp_all add: runQuery_def)
qed

definition product_at :: "pg \<Rightarrow> string \<Rightarrow> tables \<Rightarrow> product option" where
  "product_at pg i t = (case pg_uuid pg i of
      None \<Rightarrow> None | Some u \<Rightarrow> map_option mapProduct (tb_products t u))"

lemma findById_exec:
  "findById (exec_statement pg) i t =
     (t, if pg_uuid pg i = None then Inl invalid_uuid else Inr (product_at pg i t))"
  "findByIdForUpdate (exec_statement pg) i t =
     (t, if pg_uuid pg i = None then Inl invalid_uuid else Inr (product_at pg i t))"
  by (auto simp: findById_def findByIdForUpdate_def then_do_def select_product_def product_at_def
      null_or_def split: option.split)

lemma reserve_exec:
  assumes "0 < q"
  shows "reserveWithVersion (exec_statement pg) i (JInt q) v t = (t', r) \<Longrightarrow>
    (case r of
       Inr (Some p') \<Rightarrow> \<exists>u row. pg_uuid pg i = Some u \<and> tb_products t u = Some row
         \<and> q \<le> pr_stock row \<and> pr_version row = v \<and> p' = reserved_product q (mapProduct row)
         \<and> t' = t\<lparr>tb_products := (tb_products t)(u \<mapsto>
             row\<lparr>pr_stock := pr_stock row - q, pr_version := pr_version row + 1\<rparr>)\<rparr>
     | Inr None \<Rightarrow> t' = t \<and> (\<forall>row u. pg_uuid pg i = Some u \<longrightarrow> tb_products t u = Some row \<longrightarrow>
         \<not> (q \<le> pr_stock row \<and> pr_version row = v))
     | Inl e \<Rightarrow> t' = t)"
    and "reserveLocked (exec_statement pg) i (JInt q) t = (t', r) \<Longrightarrow>
    (case r of
       Inr (Some p') \<Rightarrow> \<exists>u row. pg_uuid pg i = Some u \<and> tb_products t u = Some row
         \<and> q \<le> pr_stock row \<and> p' = reserved_product q (mapProduct row)
         \<and> t' = t\<lparr>tb_products := (tb_products t)(u \<mapsto>
             row\<lparr>pr_stock := pr_stock row - q, pr_version := pr_version row + 1\<rparr>)\<rparr>
     | Inr None \<Rightarrow> t' = t \<and> (\<forall>row u. pg_uuid pg i = Some u \<longrightarrow> tb_products t u = Some row \<longrightarrow>
         \<not> q \<le> pr_stock row)
     | Inl e \<Rightarrow> t' = t)"
  using assms
  by (auto simp: reserveWithVersion_def reserveLocked_def then_do_def update_reserve_def Let_def
      null_or_def reserved_product_def mapProduct_def
      split: option.splits if_splits sum.splits prod.splits)

lemma product_at_update:
  assumes "pg_uuid pg i = Some u"
  shows "product_at pg i (t\<lparr>tb_products := (tb_products t)(u \<mapsto> row)\<rparr>) = Some (mapProduct row)"
  using assms by (simp add: product_at_def)

text \<open>An action that keeps a predicate of the state, however it ends.\<close>

definition preserves :: "('s \<Rightarrow> bool) \<Rightarrow> ('s, 'a) action \<Rightarrow> bool" where
  "preserves P m \<longleftrightarrow> (\<forall>s. P s \<longrightarrow> P (fst (m s)))"

lemma preserves_then_do [intro]:
  assumes "preserves P m" and "\<And>x. preserves P (f x)"
  shows "preserves P (then_do m f)"
  unfolding preserves_def
proof (intro allI impI)
  fix s
  assume "P s"
  then have "P (fst (m s))" using assms(1) by (simp add: preserves_def)
  then show "P (fst (then_do m f s))"
    using assms(2) by (auto simp: then_do_def preserves_def split: prod.split sum.split)
qed

lemma preserves_basic [intro]:
  "preserves P (finish_with r)"
  "preserves P m \<Longrightarrow> preserves P m' \<Longrightarrow> preserves P (if b then m else m')"
  "preserves tables_ok (runQuery (exec_statement pg) st)"
  using exec_statement_ok by (auto simp: preserves_def simp del: exec_statement.simps)

lemma preserves_repositories [intro]:
  "preserves tables_ok (reserveWithVersion (exec_statement pg) i q v)"
  "preserves tables_ok (reserveLocked (exec_statement pg) i q)"
  "preserves tables_ok (createIdempotent (exec_statement pg) o' fp)"
  "preserves tables_ok (createOrderProcessing (exec_statement pg) oid st)"
  unfolding reserveWithVersion_def reserveLocked_def createIdempotent_def findByIdempotencyKey_def
    createOrderProcessing_def
  by (intro preserves_then_do preserves_basic)+

lemma action_tables_ok:
  "tables_ok t \<Longrightarrow> tables_ok (fst (reserveWithVersion (exec_statement pg) i q v t))"
  "tables_ok t \<Longrightarrow> tables_ok (fst (reserveLocked (exec_statement pg) i q t))"
  "tables_ok t \<Longrightarrow> tables_ok (fst (createIdempotent (exec_statement pg) o' fp t))"
  using preserves_repositories unfolding preserves_def by blast+

interpretation pg_product: versioned_product "findById (exec_statement pg) i"
  "\<lambda>q. reserveWithVersion (exec_statement pg) i (JInt q)" "product_at pg i" tables_ok for pg i
proof unfold_locales
  fix s s' r q v
  show "findById (exec_statement pg) i s = (s', r) \<Longrightarrow> tables_ok s \<Longrightarrow>
      tables_ok s' \<and> product_at pg i s' = product_at pg i s \<and> (\<forall>x. r = Inr x \<longrightarrow> x = product_at pg i s)"
    by (auto simp: findById_exec split: if_splits)
  show "tables_ok s \<Longrightarrow> tables_ok (fst (reserveWithVersion (exec_statement pg) i (JInt q) v s))"
    by (rule action_tables_ok(1))
next
  fix s q v s' p'
  assume q: "0 < q" and run: "reserveWithVersion (exec_statement pg) i (JInt q) v s = (s', Inr (Some p'))"
  then obtain u row where u: "pg_uuid pg i = Some u" "tb_products s u = Some row" "q \<le> pr_stock row"
    "pr_version row = v" "p' = reserved_product q (mapProduct row)"
    "s' = s\<lparr>tb_products := (tb_products s)(u \<mapsto>
      row\<lparr>pr_stock := pr_stock row - q, pr_version := pr_version row + 1\<rparr>)\<rparr>"
    using reserve_exec(1) [OF q run] by auto
  then show "\<exists>p. product_at pg i s = Some p \<and> q \<le> p_stock p \<and> p_version p = v
      \<and> p' = reserved_product q p \<and> product_at pg i s' = Some p'"
    by (intro exI [of _ "mapProduct row"]) (simp add: product_at_def mapProduct_def reserved_product_def)
next
  fix s q v s'
  assume q: "0 < q" and run: "reserveWithVersion (exec_statement pg) i (JInt q) v s = (s', Inr None)"
  then show "product_at pg i s' = product_at pg i s
      \<and> \<not> (\<exists>p. product_at pg i s = Some p \<and> q \<le> p_stock p \<and> p_version p = v)"
    using reserve_exec(1) [OF q run] by (auto simp: product_at_def mapProduct_def split: option.splits)
next
  fix s q v s' e
  assume q: "0 < q" and run: "reserveWithVersion (exec_statement pg) i (JInt q) v s = (s', Inl e)"
  then show "product_at pg i s' = product_at pg i s" using reserve_exec(1) [OF q run] by simp
qed

section \<open>Orders\<close>

definition stored_at :: "tables \<Rightarrow> string \<Rightarrow> stored_order option" where
  "stored_at t k = map_option (\<lambda>r. (mapOrder r, or_request_fingerprint r)) (key_row t k)"

lemma mapIdempotencyRecord_record: "mapIdempotencyRecord r b = record_of b (mapOrder r, or_request_fingerprint r)"
  by (simp add: mapIdempotencyRecord_def record_of_def)

lemma findByIdempotencyKey_exec:
  "findByIdempotencyKey (exec_statement pg) k t = (t, Inr (map_option (record_of False) (stored_at t k)))"
  by (auto simp: findByIdempotencyKey_def then_do_def select_order_by_key_def null_or_def stored_at_def
      mapIdempotencyRecord_record split: option.split)

lemma key_row_append: "key_row (t\<lparr>tb_orders := tb_orders t @ [r]\<rparr>) k =
    (case key_row t k of Some r' \<Rightarrow> Some r' | None \<Rightarrow> if or_idempotency_key r = k then Some r else None)"
proof -
  have "find P (xs @ [r]) = (case find P xs of Some x \<Rightarrow> Some x | None \<Rightarrow> if P r then Some r else None)"
    for P and xs :: "order_row list"
    by (induction xs) auto
  then show ?thesis by (simp add: key_row_def)
qed

lemma insert_order_cases:
  assumes "insert_order pg True o' fp t = (t', r)"
  obtains (error) e where "r = Inl e" "t' = t"
  | (conflict) "r = Inr []" "t' = t" "key_row t (no_idempotencyKey o') \<noteq> None"
  | (inserted) row where "r = Inr [OrderRow row]" "t' = t\<lparr>tb_orders := tb_orders t @ [row]\<rparr>"
      "order_row_of pg o' fp = Some row" "key_row t (no_idempotencyKey o') = None"
proof (cases "order_row_of pg o' fp")
  case None
  then show thesis using assms error by (auto simp: insert_order_def)
next
  case (Some row)
  have key: "or_idempotency_key row = no_idempotencyKey o'"
    using Some by (auto simp: order_row_of_def split: option.splits)
  show thesis
    using assms Some key error conflict inserted
    by (auto simp: insert_order_def split: option.splits if_splits)
qed

lemma createIdempotent_exec:
  assumes "createIdempotent (exec_statement pg) o' fp t = (t', Inr x)"
  shows "case stored_at t (no_idempotencyKey o') of
      Some so \<Rightarrow> x = Some (record_of False so) \<and> t' = t
    | None \<Rightarrow> \<exists>row. order_row_of pg o' fp = Some row \<and> t' = t\<lparr>tb_orders := tb_orders t @ [row]\<rparr>
        \<and> x = Some (record_of True (mapOrder row, fp))"
proof -
  obtain t1 r where run: "insert_order pg True o' fp t = (t1, r)" by force
  from run show ?thesis
  proof (cases rule: insert_order_cases)
    case (error e)
    then show ?thesis using assms run by (simp add: createIdempotent_def then_do_def)
  next
    case conflict
    then show ?thesis
      using assms run findByIdempotencyKey_exec [of pg "no_idempotencyKey o'" t]
      by (auto simp: createIdempotent_def then_do_def stored_at_def)
  next
    case (inserted row)
    then have "or_request_fingerprint row = fp"
      by (auto simp: order_row_of_def split: option.splits)
    then show ?thesis
      using inserted assms run
      by (auto simp: createIdempotent_def then_do_def stored_at_def mapIdempotencyRecord_record)
  qed
qed

lemma createIdempotent_throws:
  assumes "createIdempotent (exec_statement pg) o' fp t = (t', Inl e)"
  shows "t' = t"
proof -
  obtain t1 r where run: "insert_order pg True o' fp t = (t1, r)" by force
  from run show ?thesis
    by (cases rule: insert_order_cases)
      (use assms run findByIdempotencyKey_exec [of pg "no_idempotencyKey o'" t] in
        \<open>auto simp: createIdempotent_def then_do_def\<close>)
qed

lemma order_row_of_fields:
  assumes "order_row_of pg o' fp = Some row"
  shows "stores_request o' (mapOrder row)" "or_idempotency_key row = no_idempotencyKey o'"
    "or_request_fingerprint row = fp" "pg_uuid pg (no_productId o') = Some (or_product_id row)"
    "pg_uuid pg (no_id o') = Some (or_id row)"
    "pg_uuid pg (no_customerId o') = Some (or_customer_id row)"
    "or_quantity row = no_quantity o'" "or_amount row = no_amount o'"
  using assms by (auto simp: order_row_of_def stores_request_def mapOrder_def split: option.splits)

lemma stored_at_append:
  assumes "key_row t (or_idempotency_key r) = None"
  shows "stored_at (t\<lparr>tb_orders := tb_orders t @ [r]\<rparr>)
    = (stored_at t)(or_idempotency_key r \<mapsto> (mapOrder r, or_request_fingerprint r))"
  using assms by (auto simp: stored_at_def key_row_append fun_eq_iff split: option.split)

interpretation pg_orders: idempotent_store "findByIdempotencyKey (exec_statement pg)"
  "createIdempotent (exec_statement pg)" stored_at tables_ok for pg
proof unfold_locales
  fix s k s' r
  show "findByIdempotencyKey (exec_statement pg) k s = (s', r) \<Longrightarrow>
      s' = s \<and> (\<forall>x. r = Inr x \<longrightarrow> x = map_option (record_of False) (stored_at s k))"
    by (auto simp: findByIdempotencyKey_exec)
next
  fix s o' fp
  show "tables_ok s \<Longrightarrow> tables_ok (fst (createIdempotent (exec_statement pg) o' fp s))"
    by (rule action_tables_ok(3))
next
  fix s o' fp s' x
  assume run: "createIdempotent (exec_statement pg) o' fp s = (s', Inr x)"
  show "case stored_at s (no_idempotencyKey o') of
         Some so \<Rightarrow> x = Some (record_of False so) \<and> s' = s
       | None \<Rightarrow> \<exists>ord. x = Some (record_of True (ord, fp)) \<and> stores_request o' ord
           \<and> stored_at s' = (stored_at s)(no_idempotencyKey o' \<mapsto> (ord, fp))"
  proof (cases "stored_at s (no_idempotencyKey o')")
    case None
    then obtain row where row: "order_row_of pg o' fp = Some row"
      "s' = s\<lparr>tb_orders := tb_orders s @ [row]\<rparr>" "x = Some (record_of True (mapOrder row, fp))"
      using createIdempotent_exec [OF run] by auto
    then show ?thesis
      using None order_row_of_fields [OF row(1)] stored_at_append [of s row]
      by (auto simp: stored_at_def)
  qed (use createIdempotent_exec [OF run] in simp)
next
  fix s o' fp s' e
  show "createIdempotent (exec_statement pg) o' fp s = (s', Inl e) \<Longrightarrow> s' = s"
    by (rule createIdempotent_throws)
qed

section \<open>The same methods inside a transaction\<close>

text \<open>
  A successful action on the server's open transaction does to its working tables
  what the action on plain tables does, whatever calls fail along the way.
\<close>

definition simulates :: "(server, 'a) action \<Rightarrow> (tables, 'a) action \<Rightarrow> bool" where
  "simulates m m' \<longleftrightarrow> (\<forall>s t s' x. working_tables s = Some t \<longrightarrow> m s = (s', Inr x) \<longrightarrow>
     (\<exists>t'. m' t = (t', Inr x) \<and> working_tables s' = Some t'))"

lemma simulatesD:
  assumes "simulates m m'" and "working_tables s = Some t" and "m s = (s', Inr x)"
  obtains t' where "m' t = (t', Inr x)" and "working_tables s' = Some t'"
  using assms unfolding simulates_def by blast

lemma simulates_then_do [intro]:
  assumes m: "simulates m m'" and f: "\<And>x. simulates (f x) (f' x)"
  shows "simulates (then_do m f) (then_do m' f')"
  unfolding simulates_def
proof (intro allI impI)
  fix s t s' y
  assume t: "working_tables s = Some t" and run: "then_do m f s = (s', Inr y)"
  obtain s1 r where m1: "m s = (s1, r)" by force
  then obtain x where x: "r = Inr x" using run by (cases r) auto
  obtain t1 where t1: "m' t = (t1, Inr x)" "working_tables s1 = Some t1"
    using simulatesD [OF m t] m1 x by blast
  have "f x s1 = (s', Inr y)" using run m1 x by simp
  then obtain t' where "f' x t1 = (t', Inr y)" "working_tables s' = Some t'"
    using simulatesD [OF f t1(2)] by blast
  then show "\<exists>t'. then_do m' f' t = (t', Inr y) \<and> working_tables s' = Some t'"
    using t1 by simp
qed

lemma simulates_basic [intro]:
  "simulates (finish_with r) (finish_with r)"
  "simulates m m' \<Longrightarrow> simulates n n' \<Longrightarrow> simulates (if b then m else n) (if b then m' else n')"
  by (auto simp: simulates_def)

lemma simulates_runQuery [intro]:
  "simulates (runQuery (server_query fl pg) st) (runQuery (exec_statement pg) st)"
  by (auto simp: simulates_def runQuery_def server_query_def working_tables_def counted_def
      simp del: runQuery_exec split: option.splits tx_status.splits prod.splits sum.splits)

lemma simulates_repositories [intro]:
  "simulates (findById (server_query fl pg) i) (findById (exec_statement pg) i)"
  "simulates (findByIdForUpdate (server_query fl pg) i) (findByIdForUpdate (exec_statement pg) i)"
  "simulates (reserveLocked (server_query fl pg) i q) (reserveLocked (exec_statement pg) i q)"
  "simulates (findByIdempotencyKey (server_query fl pg) k) (findByIdempotencyKey (exec_statement pg) k)"
  "simulates (createIdempotent (server_query fl pg) o' fp) (createIdempotent (exec_statement pg) o' fp)"
  "simulates (createOrderProcessing (server_query fl pg) oid st)
     (createOrderProcessing (exec_statement pg) oid st)"
  unfolding findById_def findByIdForUpdate_def reserveLocked_def findByIdempotencyKey_def
    createIdempotent_def createOrderProcessing_def
  by (intro simulates_then_do simulates_basic simulates_runQuery)+

lemma case_option_rules [intro]:
  "simulates n n' \<Longrightarrow> (\<And>x. simulates (f x) (f' x)) \<Longrightarrow>
     simulates (case v of None \<Rightarrow> n | Some x \<Rightarrow> f x) (case v of None \<Rightarrow> n' | Some x \<Rightarrow> f' x)"
  "inside_server n \<Longrightarrow> (\<And>x. inside_server (f x)) \<Longrightarrow>
     inside_server (case v of None \<Rightarrow> n | Some x \<Rightarrow> f x)"
  by (auto split: option.split)

text \<open>An operation built from the methods, under \<open>withTransaction\<close>.\<close>

lemma transaction_outcome:
  assumes run: "withTransaction (server_client fl) m level s = (s', calls, r)"
    and inside: "inside_server m" and sim: "simulates m m'"
  shows "case r of
      Inr x \<Rightarrow> m' (sv_committed s) = (sv_committed s', Inr x)
    | Inl e \<Rightarrow> sv_committed s' = sv_committed s
        \<or> (\<exists>x. m' (sv_committed s) = (sv_committed s', Inr x) \<and> Command ''COMMIT'' \<in> set calls)"
proof -
  have work: "m' (sv_committed s) = (t', Inr x)"
    if "working_tables s1 = Some (sv_committed s)" "m s1 = (s2, Inr x)" "working_tables s2 = Some t'"
    for s1 s2 t' x
    using simulatesD [OF sim that(1,2)] that(3) by force
  note atomic = pg_server.withTransaction_atomic [OF run inside]
  show ?thesis
  proof (cases r)
    case (Inl e)
    then show ?thesis using atomic work by (simp only: sum.case) blast
  next
    case (Inr x)
    then show ?thesis using atomic work by (simp only: sum.case) blast
  qed
qed

section \<open>Properties\<close>

lemma sample_tables_ok: "tables_ok sample_tables"
  by (simp add: tables_ok_def sample_tables_def empty_tables_def product_ok_def in_int4_def)

definition sample_new_order :: new_order where
  "sample_new_order = \<lparr>no_id = ''o1'', no_customerId = ''c'', no_productId = ''p'', no_quantity = 3,
     no_amount = 5, no_status = ''PENDING'', no_version = 1, no_idempotencyKey = ''k1''\<rparr>"

text \<open>
  C27. The constraints of the migrations are invariants.  Every statement of the
  repositories keeps stock nonnegative and within 32 bits, versions and quantities
  positive, statuses and fingerprints well formed, order ids and idempotency keys
  unique, and every order and processing row attached to its parent; a statement
  that throws changes nothing.
\<close>

theorem statements_keep_constraints:
  assumes "tables_ok t"
  shows "tables_ok (fst (exec_statement pg st t))
    \<and> (\<forall>t' e. exec_statement pg st t = (t', Inl e) \<longrightarrow> t' = t)"
  using exec_statement_ok [OF assms] exec_statement_error_unchanged by blast

lemma sample_insert_run:
  "\<exists>t r e. exec_statement sample_pg (InsertOrder sample_new_order) sample_tables = (t, Inr [OrderRow r])
    \<and> tb_orders t = [r] \<and> snd (exec_statement sample_pg (InsertOrder sample_new_order) t) = Inl e"
  by (simp add: insert_order_def sample_pg_def sample_new_order_def order_row_of_def order_rules_def in_int4_def STATUSES_def
      sample_tables_def empty_tables_def key_row_def order_id_free_def)

theorem statements_keep_constraints_witness:
  "\<exists>t r e. exec_statement sample_pg (InsertOrder sample_new_order) sample_tables = (t, Inr [OrderRow r])
    \<and> tb_orders t = [r] \<and> tables_ok t
    \<and> exec_statement sample_pg (InsertOrder sample_new_order) t = (t, Inl e)"
proof -
  obtain t r e where run: "exec_statement sample_pg (InsertOrder sample_new_order) sample_tables = (t, Inr [OrderRow r])"
    "tb_orders t = [r]" "snd (exec_statement sample_pg (InsertOrder sample_new_order) t) = Inl e"
    using sample_insert_run by blast
  have "tables_ok t"
    using statements_keep_constraints [OF sample_tables_ok, of sample_pg "InsertOrder sample_new_order"] run(1) by simp
  from statements_keep_constraints [OF this, of sample_pg "InsertOrder sample_new_order"] this show ?thesis
    using run by (metis prod.collapse)
qed


lemma sample_create_run:
  "\<exists>t' x. createIdempotent (exec_statement sample_pg) sample_new_order None sample_tables = (t', Inr x)"
  by (simp add: createIdempotent_def then_do_def insert_order_def sample_pg_def sample_new_order_def
      order_row_of_def order_rules_def in_int4_def STATUSES_def sample_tables_def empty_tables_def
      key_row_def order_id_free_def)


text \<open>
  Versioned reservation is compare-and-set.  For a stored product whose next version
  is still a 32-bit integer, \<open>reserveWithVersion\<close> with a positive quantity takes the
  quantity off the stock and increments the version, in one statement, exactly when
  the stock suffices and the expected version is the current one; otherwise it
  returns \<open>null\<close> and changes nothing.  No other product is touched.
\<close>

theorem reserve_with_version_cas:
  assumes "tables_ok t" and "pg_uuid pg i = Some u" and "tb_products t u = Some row"
    and "0 < q" and "q \<le> 2147483647" and "in_int4 v" and "pr_version row < 2147483647"
  shows "reserveWithVersion (exec_statement pg) i (JInt q) v t =
    (if q \<le> pr_stock row \<and> pr_version row = v
     then (t\<lparr>tb_products := (tb_products t)(u \<mapsto>
              row\<lparr>pr_stock := pr_stock row - q, pr_version := pr_version row + 1\<rparr>)\<rparr>,
           Inr (Some (reserved_product q (mapProduct row))))
     else (t, Inr None))"
proof -
  have row: "product_ok row" using assms(1,3) by (simp add: tables_ok_def)
  have q: "in_int4 q" using assms(4,5) by (simp add: in_int4_def)
  show ?thesis
  proof (cases "q \<le> pr_stock row \<and> pr_version row = v")
    case True
    have "product_ok (row\<lparr>pr_stock := pr_stock row - q, pr_version := pr_version row + 1\<rparr>)"
      using row assms(4,7) True by (simp add: product_ok_def in_int4_def)
    then have "first_violation (product_rules
        (row\<lparr>pr_stock := pr_stock row - q, pr_version := pr_version row + 1\<rparr>)) = None"
      by (rule product_rules_None [THEN iffD2])
    then show ?thesis using True q assms(2-4,6)
      by (simp add: reserveWithVersion_def then_do_def update_reserve_def Let_def
          null_or_def mapProduct_def reserved_product_def)
  next
    case False
    then show ?thesis using q assms(2-4,6)
      by (simp add: reserveWithVersion_def then_do_def update_reserve_def null_or_def)
  qed
qed

theorem reserve_with_version_cas_witness:
  "snd (reserveWithVersion (exec_statement sample_pg) ''p'' (JInt 3) 1 sample_tables)
     = Inr (Some \<lparr>p_id = ''p'', p_name = ''Keyboard'', p_stock = 7, p_version = 2\<rparr>)
    \<and> reserveWithVersion (exec_statement sample_pg) ''p'' (JInt 3) 2 sample_tables = (sample_tables, Inr None)"
proof -
  have p: "pg_uuid sample_pg ''p'' = Some ''p''" "tb_products sample_tables ''p''
      = Some \<lparr>pr_id = ''p'', pr_name = ''Keyboard'', pr_stock = 10, pr_version = 1\<rparr>"
    by (simp_all add: sample_pg_def sample_tables_def)
  show ?thesis
    using reserve_with_version_cas [OF sample_tables_ok p, of 3 1]
      reserve_with_version_cas [OF sample_tables_ok p, of 3 2]
    by (simp add: in_int4_def reserved_product_def mapProduct_def)
qed

end
