(* ===== verification/Inventory.thy ===== *)
theory Inventory
  imports Repositories "HOL-Library.Multiset"
begin

text \<open>
  The inventory reservations of \<open>packages/concurrency/src/index.js\<close>: the unsafe
  read-then-write, the optimistic reservation with its bounded retries, the
  pessimistic one in a transaction, and the simulation of a partition.  The first
  two are also given as steps from one \<open>await\<close> to the next, so that any number of
  reservations can be interleaved on one store.
\<close>

section \<open>Read, then write\<close>

definition reserveInventoryUnsafe ::
  "('s, int) action \<Rightarrow> (int \<Rightarrow> ('s, unit) action) \<Rightarrow> int \<Rightarrow> ('s, bool) action" where
  "reserveInventoryUnsafe getStock updateStock quantity =
     then_do getStock (\<lambda>stock.
       if stock < quantity then finish_with (Inr False)
       else then_do (updateStock (stock - quantity)) (\<lambda>_. finish_with (Inr True)))"

datatype unsafe_pc = UStart | URead int | UDone bool

text \<open>One turn of the event loop of one reservation, on an inventory that cannot fail.\<close>

definition unsafe_step :: "int \<Rightarrow> unsafe_pc \<Rightarrow> int \<Rightarrow> int \<times> unsafe_pc" where
  "unsafe_step quantity pc stock = (case pc of
      UStart \<Rightarrow> (stock, if stock < quantity then UDone False else URead stock)
    | URead x \<Rightarrow> (x - quantity, UDone True)
    | UDone b \<Rightarrow> (stock, UDone b))"

fun unsafe_run :: "nat list \<Rightarrow> int \<times> (int \<times> unsafe_pc) list \<Rightarrow> int \<times> (int \<times> unsafe_pc) list" where
  "unsafe_run [] c = c"
| "unsafe_run (i # sched) (stock, ps) =
     (let (q, pc) = ps ! i; (stock', pc') = unsafe_step q pc stock
      in unsafe_run sched (stock', ps[i := (q, pc')]))"

text \<open>Left alone, two turns are the source's function.\<close>

lemma unsafe_alone:
  "reserveInventoryUnsafe (\<lambda>s. (s, Inr s)) (\<lambda>x s. (x, Inr ())) q stock
     = (case unsafe_run [0, 0] (stock, [(q, UStart)]) of
          (stock', (_, UDone b) # _) \<Rightarrow> (stock', Inr b) | (stock', _) \<Rightarrow> (stock', Inr False))"
  by (simp add: reserveInventoryUnsafe_def then_do_def unsafe_step_def)

section \<open>Optimistic reservation\<close>

definition createOptimisticInventoryReservation :: "jsval \<Rightarrow> nat result" where
  "createOptimisticInventoryReservation maxRetriesOption =
     (let maxRetries = (if maxRetriesOption = JUndefined then JInt 3 else maxRetriesOption)
      in if \<not> is_nonneg_integer maxRetries
         then Inl (range_error ''maxRetries must be a non-negative integer'')
         else Inr (nat (int_of_js maxRetries) + 1))"

text \<open>The \<open>for\<close> loop, from \<open>attempt\<close> on.\<close>

function reserve_attempts ::
  "('s, product option) action \<Rightarrow> (int \<Rightarrow> int \<Rightarrow> ('s, product option) action) \<Rightarrow> string \<Rightarrow> int
     \<Rightarrow> nat \<Rightarrow> nat \<Rightarrow> ('s, product) action" where
  "reserve_attempts find_product reserve productId quantity maxAttempts attempt =
     (if maxAttempts < attempt
      then finish_with (Inl (OptimisticRetriesExhaustedError productId maxAttempts))
      else then_do find_product (\<lambda>product. case product of
          None \<Rightarrow> finish_with (Inl (InventoryProductNotFoundError productId))
        | Some p \<Rightarrow>
            if p_stock p < quantity then finish_with (Inl (InsufficientInventoryError productId))
            else then_do (reserve quantity (p_version p)) (\<lambda>reserved. case reserved of
                Some r \<Rightarrow> finish_with (Inr r)
              | None \<Rightarrow> reserve_attempts find_product reserve productId quantity maxAttempts (attempt + 1))))"
  by pat_completeness auto
termination
  by (relation "measure (\<lambda>(f, r, p, q, m, a). Suc m - a)") auto

declare reserve_attempts.simps [simp del]

definition optimisticReserve ::
  "('s, product option) action \<Rightarrow> (int \<Rightarrow> int \<Rightarrow> ('s, product option) action) \<Rightarrow> nat \<Rightarrow> string \<Rightarrow> jsval
     \<Rightarrow> ('s, product) action" where
  "optimisticReserve find_product reserve maxAttempts productId quantity =
     (if \<not> is_positive_integer quantity
      then finish_with (Inl (InvalidInventoryQuantityError quantity))
      else reserve_attempts find_product reserve productId (int_of_js quantity) maxAttempts 1)"

subsection \<open>The same loop, one turn at a time\<close>

datatype opt_pc = AtFind nat | AtReserve nat int | Settled "product result"

definition optimistic_step ::
  "('s, product option) action \<Rightarrow> (int \<Rightarrow> int \<Rightarrow> ('s, product option) action) \<Rightarrow> string \<Rightarrow> nat
     \<Rightarrow> int \<Rightarrow> opt_pc \<Rightarrow> 's \<Rightarrow> 's \<times> opt_pc" where
  "optimistic_step find_product reserve productId maxAttempts quantity pc s = (case pc of
      AtFind attempt \<Rightarrow> (case find_product s of
          (s', Inl e) \<Rightarrow> (s', Settled (Inl e))
        | (s', Inr None) \<Rightarrow> (s', Settled (Inl (InventoryProductNotFoundError productId)))
        | (s', Inr (Some p)) \<Rightarrow>
            if p_stock p < quantity then (s', Settled (Inl (InsufficientInventoryError productId)))
            else (s', AtReserve attempt (p_version p)))
    | AtReserve attempt v \<Rightarrow> (case reserve quantity v s of
          (s', Inl e) \<Rightarrow> (s', Settled (Inl e))
        | (s', Inr (Some r)) \<Rightarrow> (s', Settled (Inr r))
        | (s', Inr None) \<Rightarrow>
            if attempt < maxAttempts then (s', AtFind (attempt + 1))
            else (s', Settled (Inl (OptimisticRetriesExhaustedError productId maxAttempts))))
    | Settled r \<Rightarrow> (s, Settled r))"

text \<open>The number of turns a reservation can still take.\<close>

fun turns_left :: "nat \<Rightarrow> opt_pc \<Rightarrow> nat" where
  "turns_left m (AtFind k) = 2 * (Suc m - k)"
| "turns_left m (AtReserve k v) = 2 * (Suc m - k) - 1"
| "turns_left m (Settled r) = 0"

fun attempts_bounded :: "nat \<Rightarrow> opt_pc \<Rightarrow> bool" where
  "attempts_bounded m (AtFind k) = (1 \<le> k \<and> k \<le> m)"
| "attempts_bounded m (AtReserve k v) = (1 \<le> k \<and> k \<le> m)"
| "attempts_bounded m (Settled r) = True"

lemma optimistic_step_turns:
  assumes "attempts_bounded m pc" and "optimistic_step find_product reserve i m q pc s = (s', pc')"
  shows "attempts_bounded m pc' \<and> turns_left m pc' \<le> turns_left m pc - 1"
  using assms
  by (cases pc) (auto simp: optimistic_step_def split: prod.splits sum.splits option.splits if_splits)

lemma turns_left_0: "attempts_bounded m pc \<Longrightarrow> turns_left m pc = 0 \<Longrightarrow> \<exists>r. pc = Settled r"
  by (cases pc) auto

text \<open>Run alone, the steps compute the loop.\<close>

fun optimistic_alone ::
  "('s, product option) action \<Rightarrow> (int \<Rightarrow> int \<Rightarrow> ('s, product option) action) \<Rightarrow> string \<Rightarrow> nat
     \<Rightarrow> int \<Rightarrow> nat \<Rightarrow> opt_pc \<Rightarrow> 's \<Rightarrow> 's \<times> opt_pc" where
  "optimistic_alone find_product reserve i m q 0 pc s = (s, pc)"
| "optimistic_alone find_product reserve i m q (Suc n) pc s =
     (let (s', pc') = optimistic_step find_product reserve i m q pc s
      in optimistic_alone find_product reserve i m q n pc' s')"

lemma optimistic_alone_settled [simp]:
  "optimistic_alone find_product reserve i m q n (Settled r) s = (s, Settled r)"
  by (induction n) (simp_all add: optimistic_step_def)

lemma reserve_attempts_alone:
  assumes "k \<le> m"
  shows "optimistic_alone find_product reserve i m q (2 * (Suc m - k)) (AtFind k) s
    = (let (s', r) = reserve_attempts find_product reserve i q m k s in (s', Settled r))"
  using assms
proof (induction "Suc m - k" arbitrary: k s)
  case (Suc n)
  then have n: "n = m - k" "2 * (Suc m - k) = Suc (Suc (2 * n))" by simp_all
  obtain s1 r1 where find_eq: "find_product s = (s1, r1)" by force
  show ?case
  proof (cases "\<exists>p. r1 = Inr (Some p) \<and> q \<le> p_stock p")
    case False
    then show ?thesis
      using find_eq Suc.prems
      by (auto simp: n(2) reserve_attempts.simps [of find_product reserve i q m k] optimistic_step_def
          then_do_def Let_def split: sum.split option.split)
  next
    case True
    then obtain p where p: "r1 = Inr (Some p)" "q \<le> p_stock p" by blast
    obtain s2 r2 where res: "reserve q (p_version p) s1 = (s2, r2)" by force
    show ?thesis
    proof (cases "r2 = Inr None \<and> k < m")
      case True
      then have "optimistic_alone find_product reserve i m q (2 * (Suc m - Suc k)) (AtFind (Suc k)) s2
          = (let (s', r) = reserve_attempts find_product reserve i q m (Suc k) s2 in (s', Settled r))"
        using Suc.hyps(1) [of "Suc k" s2] n(1) by simp
      then show ?thesis
        using find_eq p res True n Suc.prems
        by (simp add: reserve_attempts.simps [of find_product reserve i q m k] optimistic_step_def
            then_do_def Let_def)
    next
      case False
      then show ?thesis
        using find_eq p res Suc.prems
        by (auto simp: n(2) reserve_attempts.simps [of find_product reserve i q m k]
            reserve_attempts.simps [of find_product reserve i q m "Suc k"] optimistic_step_def
            then_do_def Let_def split: sum.split option.split)
    qed
  qed
qed simp

subsection \<open>Any interleaving of reservations of one product\<close>

type_synonym 's opt_system = "'s \<times> (int \<times> opt_pc) list"

fun opt_system_step ::
  "('s, product option) action \<Rightarrow> (int \<Rightarrow> int \<Rightarrow> ('s, product option) action) \<Rightarrow> string \<Rightarrow> nat
     \<Rightarrow> 's opt_system \<Rightarrow> nat \<Rightarrow> 's opt_system" where
  "opt_system_step find_product reserve i m (s, ps) n =
     (if n < length ps
      then (let (q, pc) = ps ! n; (s', pc') = optimistic_step find_product reserve i m q pc s
            in (s', ps[n := (q, pc')]))
      else (s, ps))"

definition opt_start :: "int list \<Rightarrow> (int \<times> opt_pc) list" where
  "opt_start qs = map (\<lambda>q. (q, AtFind 1)) qs"

definition taken_by :: "int \<times> opt_pc \<Rightarrow> int" where
  "taken_by p = (case snd p of Settled (Inr _) \<Rightarrow> fst p | _ \<Rightarrow> 0)"

definition won :: "int \<times> opt_pc \<Rightarrow> int" where
  "won p = (case snd p of Settled (Inr _) \<Rightarrow> 1 | _ \<Rightarrow> 0)"

definition taken :: "(int \<times> opt_pc) list \<Rightarrow> int" where
  "taken ps = sum_list (map taken_by ps)"

definition winners :: "(int \<times> opt_pc) list \<Rightarrow> int" where
  "winners ps = sum_list (map won ps)"

lemma sum_list_update_int:
  fixes f :: "'a \<Rightarrow> int"
  shows "n < length ps \<Longrightarrow> sum_list (map f (ps[n := x])) = sum_list (map f ps) - f (ps ! n) + f x"
  by (induction ps arbitrary: n) (auto split: nat.splits)

context versioned_product
begin

text \<open>The stock and the version account for exactly the successful reservations.\<close>

definition accounted :: "product \<Rightarrow> 's opt_system \<Rightarrow> bool" where
  "accounted p0 c \<longleftrightarrow> ok (fst c) \<and> list_all (\<lambda>x. 0 < fst x) (snd c)
     \<and> (\<exists>p. item (fst c) = Some p \<and> p_stock p = p_stock p0 - taken (snd c)
          \<and> p_version p = p_version p0 + winners (snd c) \<and> p_id p = p_id p0 \<and> p_name p = p_name p0)"

lemma step_accounted:
  assumes acc: "accounted p0 (s, ps)"
  shows "accounted p0 (opt_system_step find reserve i m (s, ps) n)"
proof (cases "n < length ps")
  case True
  obtain q pc where n: "ps ! n = (q, pc)" by force
  obtain s' pc' where step: "optimistic_step find reserve i m q pc s = (s', pc')" by force
  have q: "0 < q" using acc True n by (auto simp: accounted_def list_all_length)
  have "ok s" and "\<exists>p. item s = Some p"
    using acc by (auto simp: accounted_def)
  have quantities: "list_all (\<lambda>x. 0 < fst x) (ps[n := (q, pc')])"
    using acc q by (auto simp: accounted_def list_all_iff dest!: set_update_subset_insert [THEN subsetD])
  have sums: "taken (ps[n := (q, pc')]) = taken ps - taken_by (q, pc) + taken_by (q, pc')"
    "winners (ps[n := (q, pc')]) = winners ps - won (q, pc) + won (q, pc')"
    using sum_list_update_int [OF True] n by (simp_all add: taken_def winners_def)
  have "ok s' \<and> (item s' = item s \<and> taken_by (q, pc') = taken_by (q, pc) \<and> won (q, pc') = won (q, pc)
      \<or> (\<exists>p. item s = Some p \<and> item s' = Some (reserved_product q p)
           \<and> taken_by (q, pc') = taken_by (q, pc) + q \<and> won (q, pc') = won (q, pc) + 1))"
  proof (cases pc)
    case (AtFind k)
    then show ?thesis
      using step find_reads [OF \<open>ok s\<close>]
      by (auto simp: optimistic_step_def taken_by_def won_def
          split: prod.splits sum.splits option.splits if_splits)
  next
    case (AtReserve k v)
    obtain r where r: "reserve q v s = (s', r)"
      using step AtReserve by (auto simp: optimistic_step_def split: prod.splits sum.splits option.splits if_splits)
    have "ok s'" using reserve_ok [OF \<open>ok s\<close> q, of v] r by simp
    from \<open>ok s\<close> q r show ?thesis
    proof (cases rule: reserve_cases)
      case (reserved p)
      then show ?thesis
        using step AtReserve r \<open>ok s'\<close> by (auto simp: optimistic_step_def taken_by_def won_def)
    next
      case unchanged
      then show ?thesis
        using step AtReserve r \<open>ok s'\<close>
        by (auto simp: optimistic_step_def taken_by_def won_def split: sum.splits option.splits if_splits)
    qed
  next
    case (Settled r)
    then show ?thesis using step \<open>ok s\<close> by (simp add: optimistic_step_def)
  qed
  then show ?thesis
    using acc True n step quantities sums
    by (auto simp: accounted_def reserved_product_def)
qed (use acc in simp)

lemma run_accounted:
  "accounted p0 c \<Longrightarrow> accounted p0 (foldl (opt_system_step find reserve i m) c sched)"
proof (induction sched arbitrary: c)
  case (Cons n sched)
  then show ?case using step_accounted [of p0 "fst c" "snd c"] by simp
qed simp

lemma start_accounted:
  "ok s \<Longrightarrow> item s = Some p \<Longrightarrow> list_all (\<lambda>q. 0 < q) qs \<Longrightarrow> accounted p (s, opt_start qs)"
proof -
  assume "ok s" "item s = Some p" "list_all (\<lambda>q. 0 < q) qs"
  moreover have "taken (opt_start qs) = 0" "winners (opt_start qs) = 0"
    by (induction qs) (simp_all add: taken_def winners_def opt_start_def taken_by_def won_def)
  ultimately show ?thesis
    by (auto simp: accounted_def opt_start_def list_all_iff)
qed

end

section \<open>Pessimistic reservation\<close>

definition pessimistic_body :: "'s queryable \<Rightarrow> string \<Rightarrow> jsval \<Rightarrow> ('s, product) action" where
  "pessimistic_body client productId quantity =
     then_do (findByIdForUpdate client productId) (\<lambda>product. case product of
         None \<Rightarrow> finish_with (Inl (InventoryProductNotFoundError productId))
       | Some p \<Rightarrow>
           if p_stock p < int_of_js quantity
           then finish_with (Inl (InsufficientInventoryError productId))
           else then_do (reserveLocked client productId quantity) (\<lambda>reserved. case reserved of
               None \<Rightarrow> finish_with (Inl (InsufficientInventoryError productId))
             | Some r \<Rightarrow> finish_with (Inr r)))"

definition pessimisticReserve ::
  "'s tx_client \<Rightarrow> 's queryable \<Rightarrow> string \<Rightarrow> jsval \<Rightarrow> 's \<Rightarrow> 's \<times> tx_call list \<times> product result" where
  "pessimisticReserve pool client productId quantity s =
     (if \<not> is_positive_integer quantity
      then (s, [], Inl (InvalidInventoryQuantityError quantity))
      else withTransaction pool (pessimistic_body client productId quantity) None s)"

text \<open>The effect of one reservation on the tables.\<close>

definition stock_reserved :: "pg \<Rightarrow> string \<Rightarrow> int \<Rightarrow> tables \<Rightarrow> tables \<Rightarrow> product \<Rightarrow> bool" where
  "stock_reserved pg i q t t' p \<longleftrightarrow> (\<exists>u row. pg_uuid pg i = Some u \<and> tb_products t u = Some row
     \<and> q \<le> pr_stock row \<and> p = reserved_product q (mapProduct row)
     \<and> t' = t\<lparr>tb_products := (tb_products t)(u \<mapsto>
           row\<lparr>pr_stock := pr_stock row - q, pr_version := pr_version row + 1\<rparr>)\<rparr>)"

lemma pessimistic_body_exec:
  assumes "pessimistic_body (exec_statement pg) i (JInt q) t = (t', Inr p)" and "0 < q"
  shows "stock_reserved pg i q t t' p"
proof -
  obtain u where u: "pg_uuid pg i = Some u"
    using assms(1) by (auto simp: pessimistic_body_def then_do_def findById_exec split: if_splits)
  obtain t1 r where run: "reserveLocked (exec_statement pg) i (JInt q) t = (t1, r)" by force
  have "r = Inr (Some p) \<and> t' = t1"
    using assms(1) run u
    by (auto simp: pessimistic_body_def then_do_def findById_exec split: option.splits if_splits sum.splits)
  then show ?thesis
    using reserve_exec(2) [OF assms(2) run] by (auto simp: stock_reserved_def)
qed

lemma pessimistic_body_server:
  "inside_server (pessimistic_body (server_query fl pg) i q)"
  "simulates (pessimistic_body (server_query fl pg) i q) (pessimistic_body (exec_statement pg) i q)"
  unfolding pessimistic_body_def
  by (intro inside_then_do inside_finish_with inside_if case_option_rules repositories_inside)
    (intro simulates_then_do simulates_basic case_option_rules simulates_repositories)

section \<open>A partition\<close>

record partition_result =
  pt_policy :: string
  pt_acceptedOrderIds :: "jsval list"
  pt_rejectedOrderIds :: "jsval list"
  pt_replicaStock :: "(string \<times> int) list"
  pt_totalAcceptedQuantity :: int
  pt_availabilityPreserved :: bool
  pt_consistencyPreserved :: bool

definition nullish_value :: "jsval \<Rightarrow> bool" where
  "nullish_value v = (v = JUndefined \<or> v = JNull)"

definition reservation_quantity :: "jsval \<Rightarrow> int" where
  "reservation_quantity r = int_of_js (get_prop r ''quantity'')"

definition accepts :: "string \<Rightarrow> int \<Rightarrow> jsval \<Rightarrow> bool" where
  "accepts policy stock r = (policy = ''AP'' \<and> reservation_quantity r \<le> stock)"

definition simulatePartitionedInventory ::
  "jsval \<Rightarrow> jsval \<Rightarrow> jsval \<Rightarrow> partition_result result" where
  "simulatePartitionedInventory policy initialStock reservations =
     (if policy \<noteq> JStr ''CP'' \<and> policy \<noteq> JStr ''AP''
      then Inl (range_error ''Partition policy must be CP or AP'')
      else if \<not> is_nonneg_integer initialStock
      then Inl (range_error ''Initial stock must be a non-negative integer'')
      else (case reservations of
          JArr rs \<Rightarrow>
            if length rs \<noteq> 2
            then Inl (range_error ''Partition simulation requires exactly two reservations'')
            else if list_ex nullish_value rs
            then Inl (type_error ''Cannot destructure property'')
            else let replicas = map (\<lambda>r. get_prop r ''replica'') rs in
            if \<not> list_all (\<lambda>v. typeof_string v \<and> js_str v \<noteq> []) replicas \<or> \<not> distinct replicas
            then Inl (range_error ''Partition simulation requires two distinct replicas'')
            else if \<not> list_all (\<lambda>r. is_positive_integer (get_prop r ''quantity'')) rs
            then Inl (range_error ''Reservation quantities must be positive integers'')
            else let p = js_str policy; stock = int_of_js initialStock;
                     accepted = filter (accepts p stock) rs;
                     rejected = filter (\<lambda>r. \<not> accepts p stock r) rs;
                     total = sum_list (map reservation_quantity accepted)
              in Inr \<lparr>pt_policy = p,
                   pt_acceptedOrderIds = map (\<lambda>r. get_prop r ''orderId'') accepted,
                   pt_rejectedOrderIds = map (\<lambda>r. get_prop r ''orderId'') rejected,
                   pt_replicaStock = map (\<lambda>r. (js_str (get_prop r ''replica''),
                     if accepts p stock r then stock - reservation_quantity r else stock)) rs,
                   pt_totalAcceptedQuantity = total,
                   pt_availabilityPreserved = (p = ''AP''),
                   pt_consistencyPreserved = (total \<le> stock)\<rparr>
        | _ \<Rightarrow> Inl (range_error ''Partition simulation requires exactly two reservations'')))"

section \<open>Termination under interleaving\<close>

lemma opt_system_step_other:
  "n \<noteq> k \<Longrightarrow> snd (opt_system_step find_product reserve i m c k) ! n = snd c ! n"
  by (cases c) (auto simp: Let_def split: prod.split)

lemma opt_system_step_length [simp]:
  "length (snd (opt_system_step find_product reserve i m c k)) = length (snd c)"
  by (cases c) (auto simp: Let_def split: prod.split)

lemma opt_system_step_own:
  assumes "n < length (snd c)" and "attempts_bounded m (snd (snd c ! n))"
  shows "attempts_bounded m (snd (snd (opt_system_step find_product reserve i m c n) ! n))
    \<and> turns_left m (snd (snd (opt_system_step find_product reserve i m c n) ! n))
        \<le> turns_left m (snd (snd c ! n)) - 1"
proof -
  obtain s ps where c: "c = (s, ps)" by force
  obtain q pc where n: "ps ! n = (q, pc)" by force
  obtain s' pc' where step: "optimistic_step find_product reserve i m q pc s = (s', pc')" by force
  show ?thesis
    using optimistic_step_turns [OF _ step] assms step n by (simp add: c)
qed

lemma opt_run_turns:
  assumes "n < length (snd c)" and "attempts_bounded m (snd (snd c ! n))"
  shows "attempts_bounded m (snd (snd (foldl (opt_system_step find_product reserve i m) c sched) ! n))
    \<and> turns_left m (snd (snd (foldl (opt_system_step find_product reserve i m) c sched) ! n))
        \<le> turns_left m (snd (snd c ! n)) - count_list sched n"
  using assms
proof (induction sched arbitrary: c)
  case (Cons k sched)
  let ?c = "opt_system_step find_product reserve i m c k"
  show ?case
  proof (cases "k = n")
    case True
    then show ?thesis
      using Cons.IH [of ?c] opt_system_step_own [OF Cons.prems, of find_product reserve i] Cons.prems(1)
      by fastforce
  next
    case False
    then have "snd ?c ! n = snd c ! n" by (intro opt_system_step_other) simp
    then show ?thesis using Cons.IH [of ?c] Cons.prems False by simp
  qed
qed simp

section \<open>Properties\<close>

text \<open>
  The unsafe reservation loses updates.  When two reservations that each fit read
  the stock before either writes, both report success and the final stock accounts
  for the second only, so together they can take more than there was; one after
  the other, the second succeeds exactly when both fit.
\<close>

theorem unsafe_lost_update:
  assumes "0 \<le> q1" and "q1 \<le> stock" and "q2 \<le> stock"
  shows "unsafe_run [0, 1, 0, 1] (stock, [(q1, UStart), (q2, UStart)])
      = (stock - q2, [(q1, UDone True), (q2, UDone True)])
    \<and> unsafe_run [0, 0, 1, 1] (stock, [(q1, UStart), (q2, UStart)])
      = (if q1 + q2 \<le> stock then (stock - q1 - q2, [(q1, UDone True), (q2, UDone True)])
         else (stock - q1, [(q1, UDone True), (q2, UDone False)]))"
  using assms by (simp add: unsafe_step_def)

theorem unsafe_lost_update_witness:
  "unsafe_run [0, 1, 0, 1] (10, [(3, UStart), (3, UStart)]) = (7, [(3, UDone True), (3, UDone True)])"
  using unsafe_lost_update [of 3 10 3] by simp

text \<open>
  C8. Optimistic reservations never oversell.  However many reservations of one product
  run concurrently on the tables and in whatever order their turns interleave, at
  every moment the stock is the initial stock less exactly the quantities of the
  reservations that have succeeded, the version has grown by their number, and the
  stock is not negative.
\<close>

theorem optimistic_never_oversells:
  assumes "tables_ok t" and "product_at pg i t = Some p" and "list_all (\<lambda>q. 0 < q) qs"
    and "foldl (opt_system_step (findById (exec_statement pg) i)
        (\<lambda>q. reserveWithVersion (exec_statement pg) i (JInt q)) i m) (t, opt_start qs) sched = (t', ps)"
  shows "\<exists>p'. product_at pg i t' = Some p' \<and> p_stock p' = p_stock p - taken ps
    \<and> p_version p' = p_version p + winners ps \<and> 0 \<le> p_stock p' \<and> taken ps \<le> p_stock p"
proof -
  have "pg_product.accounted pg i p (t', ps)"
    using pg_product.run_accounted [OF pg_product.start_accounted [OF assms(1-3)], where i = i and m = m
      and sched = sched] assms(4)
    by simp
  then obtain p' where t': "tables_ok t'" and p': "product_at pg i t' = Some p'"
    "p_stock p' = p_stock p - taken ps" "p_version p' = p_version p + winners ps"
    by (auto simp: pg_product.accounted_def)
  from t' p'(1) have "0 \<le> p_stock p'"
    by (auto simp: product_at_def tables_ok_def product_ok_def mapProduct_def split: option.splits)
  with p' show ?thesis by auto
qed

lemma sample_product_at: "product_at sample_pg ''p'' sample_tables
    = Some \<lparr>p_id = ''p'', p_name = ''Keyboard'', p_stock = 10, p_version = 1\<rparr>"
  by (simp add: product_at_def sample_pg_def sample_tables_def mapProduct_def)

theorem optimistic_never_oversells_witness:
  "\<exists>t' ps p'. foldl (opt_system_step (findById (exec_statement sample_pg) ''p'')
        (\<lambda>q. reserveWithVersion (exec_statement sample_pg) ''p'' (JInt q)) ''p'' 4)
        (sample_tables, opt_start [6, 7]) [0, 1, 0, 1, 1] = (t', ps)
    \<and> product_at sample_pg ''p'' t' = Some p' \<and> p_stock p' = 10 - taken ps \<and> taken ps \<le> 10"
proof -
  obtain t' ps where run: "foldl (opt_system_step (findById (exec_statement sample_pg) ''p'')
      (\<lambda>q. reserveWithVersion (exec_statement sample_pg) ''p'' (JInt q)) ''p'' 4)
      (sample_tables, opt_start [6, 7]) [0, 1, 0, 1, 1] = (t', ps)"
    by (metis surj_pair)
  show ?thesis
    using optimistic_never_oversells [OF sample_tables_ok sample_product_at _ run] run by auto
qed

text \<open>
  Optimistic reservations terminate.  Run alone, a reservation computes the loop of
  the source; among any others, in any interleaving and on any store, it has
  settled once it has had two turns for each of its allowed attempts.
\<close>

theorem optimistic_terminates:
  assumes "n < length qs" and "1 \<le> m" and "2 * m \<le> count_list sched n"
  shows "(\<exists>r. snd (snd (foldl (opt_system_step find_product reserve i m) (s, opt_start qs) sched) ! n)
        = Settled r)
    \<and> optimistic_alone find_product reserve i m q (2 * m) (AtFind 1) s
        = (let (s', r) = reserve_attempts find_product reserve i q m 1 s in (s', Settled r))"
proof -
  have start: "n < length (snd (s, opt_start qs))" "snd (snd (s, opt_start qs) ! n) = AtFind 1"
    using assms(1) by (simp_all add: opt_start_def)
  then have "attempts_bounded m (snd (snd (s, opt_start qs) ! n))"
    and "turns_left m (snd (snd (s, opt_start qs) ! n)) = 2 * m"
    using assms(2) by simp_all
  then show ?thesis
    using opt_run_turns [OF start(1), where m = m and find_product = find_product and reserve = reserve
        and i = i and sched = sched] turns_left_0 assms(2,3)
      reserve_attempts_alone [OF assms(2), of find_product reserve i q s]
    by fastforce
qed

theorem optimistic_terminates_witness:
  "\<exists>r. snd (snd (foldl (opt_system_step (findById (exec_statement sample_pg) ''p'')
        (\<lambda>q. reserveWithVersion (exec_statement sample_pg) ''p'' (JInt q)) ''p'' 2)
        (sample_tables, opt_start [6, 7]) [0, 1, 0, 1, 1, 1, 0]) ! 1) = Settled r"
  by (rule conjunct1 [OF optimistic_terminates]) simp_all

text \<open>
  Pessimistic reservation is all or nothing.  On a server whose calls may fail
  anywhere, a positive quantity is taken off the stock with one version increment
  exactly when a product is returned; a thrown error leaves the committed tables
  alone, or the acknowledgement of \<open>COMMIT\<close> was lost and the one reservation is there.
\<close>

theorem pessimistic_all_or_nothing:
  assumes "0 < q"
    and "pessimisticReserve (server_client fl) (server_query fl pg) i (JInt q) s = (s', calls, r)"
  shows "case r of
      Inr p \<Rightarrow> stock_reserved pg i q (sv_committed s) (sv_committed s') p
    | Inl e \<Rightarrow> sv_committed s' = sv_committed s
        \<or> (\<exists>p. stock_reserved pg i q (sv_committed s) (sv_committed s') p
             \<and> Command ''COMMIT'' \<in> set calls)"
proof -
  have run: "withTransaction (server_client fl) (pessimistic_body (server_query fl pg) i (JInt q)) None s
      = (s', calls, r)"
    using assms by (simp add: pessimisticReserve_def)
  note outcome = transaction_outcome [OF run pessimistic_body_server]
  show ?thesis
    using outcome pessimistic_body_exec [OF _ assms(1)] by (cases r) (auto, blast)
qed

lemma sample_pessimistic_run:
  "\<exists>s' calls. pessimisticReserve (server_client no_failures) (server_query no_failures sample_pg)
      ''p'' (JInt 3) sample_server
    = (s', calls, Inr \<lparr>p_id = ''p'', p_name = ''Keyboard'', p_stock = 7, p_version = 2\<rparr>)"
  by (simp add: pessimisticReserve_def pessimistic_body_def findByIdForUpdate_def select_product_def
      withTransaction_def beginCommand_def server_client_def no_failures_def sample_server_def
      counted_def run_transaction_def server_command_def reserveLocked_def then_do_def runQuery_def
      server_query_def sample_pg_def update_reserve_def in_int4_def sample_tables_def empty_tables_def
      Let_def product_rules_def null_or_def mapProduct_def commit_work_def int_of_js_def)

theorem pessimistic_all_or_nothing_witness:
  "\<exists>s' calls p. pessimisticReserve (server_client no_failures) (server_query no_failures sample_pg)
      ''p'' (JInt 3) sample_server = (s', calls, Inr p)
    \<and> stock_reserved sample_pg ''p'' 3 (sv_committed sample_server) (sv_committed s') p"
proof -
  obtain s' calls p where run: "pessimisticReserve (server_client no_failures)
      (server_query no_failures sample_pg) ''p'' (JInt 3) sample_server = (s', calls, Inr p)"
    using sample_pessimistic_run by blast
  have "0 < (3 :: int)" by simp
  from pessimistic_all_or_nothing [OF this, of no_failures sample_pg "''p''" sample_server s' calls "Inr p"]
  show ?thesis using run by auto
qed

definition sample_reservation :: "string \<Rightarrow> int \<Rightarrow> jsval" where
  "sample_reservation r q = JObj [(''orderId'', JStr (''order-'' @ r)), (''replica'', JStr r),
     (''quantity'', JInt q)]"

text \<open>
  Partition trade-off.  An accepted simulation decides each of the two reservations
  exactly once.  Under CP nothing is accepted and no replica's stock moves; under AP
  a replica accepts what its own stock covers and stays nonnegative.  Consistency
  is reported exactly when the accepted total fits the initial stock, so when both
  fit alone but not together, AP gives it up and CP gives up availability.
\<close>

theorem partition_tradeoff:
  assumes "simulatePartitionedInventory policy stock (JArr [r1, r2]) = Inr res"
  shows "mset (pt_acceptedOrderIds res) + mset (pt_rejectedOrderIds res)
        = mset [get_prop r1 ''orderId'', get_prop r2 ''orderId'']
    \<and> (pt_policy res = ''CP'' \<and> pt_acceptedOrderIds res = [] \<and> pt_totalAcceptedQuantity res = 0
         \<and> map snd (pt_replicaStock res) = [int_of_js stock, int_of_js stock]
         \<and> \<not> pt_availabilityPreserved res \<and> pt_consistencyPreserved res
       \<or> pt_policy res = ''AP'' \<and> list_all (\<lambda>x. 0 \<le> snd x) (pt_replicaStock res)
         \<and> pt_totalAcceptedQuantity res = (\<Sum>r \<leftarrow> [r1, r2].
              if reservation_quantity r \<le> int_of_js stock then reservation_quantity r else 0)
         \<and> pt_availabilityPreserved res)
    \<and> (pt_consistencyPreserved res \<longleftrightarrow> pt_totalAcceptedQuantity res \<le> int_of_js stock)
    \<and> (reservation_quantity r1 \<le> int_of_js stock \<and> reservation_quantity r2 \<le> int_of_js stock
         \<and> int_of_js stock < reservation_quantity r1 + reservation_quantity r2
         \<longrightarrow> \<not> (pt_availabilityPreserved res \<and> pt_consistencyPreserved res))"
proof -
  have stock: "0 \<le> int_of_js stock"
    using assms by (auto simp: simulatePartitionedInventory_def is_nonneg_integer_def int_of_js_def
        split: if_splits jsval.splits jsnum.splits)
  obtain p where p: "policy = JStr p" "p = ''CP'' \<or> p = ''AP''"
    using assms by (auto simp: simulatePartitionedInventory_def split: if_splits)
  have res: "res = \<lparr>pt_policy = p,
      pt_acceptedOrderIds = map (\<lambda>r. get_prop r ''orderId'') (filter (accepts p (int_of_js stock)) [r1, r2]),
      pt_rejectedOrderIds = map (\<lambda>r. get_prop r ''orderId'')
        (filter (\<lambda>r. \<not> accepts p (int_of_js stock) r) [r1, r2]),
      pt_replicaStock = map (\<lambda>r. (js_str (get_prop r ''replica''),
        if accepts p (int_of_js stock) r then int_of_js stock - reservation_quantity r
        else int_of_js stock)) [r1, r2],
      pt_totalAcceptedQuantity
        = sum_list (map reservation_quantity (filter (accepts p (int_of_js stock)) [r1, r2])),
      pt_availabilityPreserved = (p = ''AP''),
      pt_consistencyPreserved
        = (sum_list (map reservation_quantity (filter (accepts p (int_of_js stock)) [r1, r2]))
            \<le> int_of_js stock)\<rparr>"
    using assms p(1) by (simp add: simulatePartitionedInventory_def Let_def split: if_splits)
  show ?thesis using p(2)
  proof
    assume "p = ''CP''"
    then show ?thesis using stock by (simp add: res accepts_def)
  next
    assume "p = ''AP''"
    then show ?thesis using stock by (auto simp: res accepts_def)
  qed
qed

theorem partition_tradeoff_witness:
  "\<exists>res. simulatePartitionedInventory (JStr ''AP'') (JInt 10)
        (JArr [sample_reservation ''a'' 6, sample_reservation ''b'' 7]) = Inr res
    \<and> \<not> (pt_availabilityPreserved res \<and> pt_consistencyPreserved res)"
proof -
  obtain res where run: "simulatePartitionedInventory (JStr ''AP'') (JInt 10)
      (JArr [sample_reservation ''a'' 6, sample_reservation ''b'' 7]) = Inr res"
    by (simp add: simulatePartitionedInventory_def is_nonneg_integer_def sample_reservation_def
        nullish_value_def typeof_string_def Let_def)
  show ?thesis
    using partition_tradeoff [OF run] run by (auto simp: reservation_quantity_def sample_reservation_def)
qed

end
