(* ===== verification/Order_Requests.thy ===== *)
theory Order_Requests
  imports Store_Interfaces
begin

text \<open>
  The order request and its identity: \<open>validateOrderInput\<close> of
  \<open>apps/api/src/create-order.js\<close> and the whole of
  \<open>apps/api/src/order-idempotency.js\<close>.  \<open>JSON.stringify\<close> is written out for the
  strings and integers that the canonical request holds (code units below 256,
  integers below \<open>10 ^ 21\<close>, above which the language prints an exponent); SHA-256 is
  the parameter \<open>sha256\<close>, from a text to its hexadecimal digest.
\<close>

section \<open>JSON texts\<close>

definition hex_digit :: "nat \<Rightarrow> char" where
  "hex_digit d = char_of (if d < 10 then 48 + d else 87 + d)"

definition escape_char :: "char \<Rightarrow> string" where
  "escape_char c =
     (if c = CHR 0x22 then [CHR 0x5C, CHR 0x22]
      else if c = CHR 0x5C then [CHR 0x5C, CHR 0x5C]
      else if c = CHR 0x08 then [CHR 0x5C, CHR ''b'']
      else if c = CHR 0x0C then [CHR 0x5C, CHR ''f'']
      else if c = CHR 0x0A then [CHR 0x5C, CHR ''n'']
      else if c = CHR 0x0D then [CHR 0x5C, CHR ''r'']
      else if c = CHR 0x09 then [CHR 0x5C, CHR ''t'']
      else if (of_char c :: nat) < 32
        then CHR 0x5C # ''u00'' @ [hex_digit (of_char c div 16), hex_digit (of_char c mod 16)]
      else [c])"

definition json_string :: "string \<Rightarrow> string" where
  "json_string s = CHR 0x22 # concat (map escape_char s) @ [CHR 0x22]"

text \<open>Reading a JSON string back, with the text after its closing quote.\<close>

definition hex_value :: "char \<Rightarrow> nat" where
  "hex_value c = (let n = of_char c in if n < 58 then n - 48 else n - 87)"

definition short_escape :: "char \<Rightarrow> char" where
  "short_escape e =
     (if e = CHR ''b'' then CHR 0x08 else if e = CHR ''f'' then CHR 0x0C
      else if e = CHR ''n'' then CHR 0x0A else if e = CHR ''r'' then CHR 0x0D
      else if e = CHR ''t'' then CHR 0x09 else e)"

definition read_char :: "char \<Rightarrow> (string \<times> string) option \<Rightarrow> (string \<times> string) option" where
  "read_char c r = map_option (\<lambda>(s, rest). (c # s, rest)) r"

function read_json_chars :: "string \<Rightarrow> (string \<times> string) option" where
  "read_json_chars [] = None"
| "read_json_chars (c # cs) =
     (if c = CHR 0x22 then Some ([], cs)
      else if c \<noteq> CHR 0x5C then read_char c (read_json_chars cs)
      else if cs = [] then None
      else if hd cs \<noteq> CHR ''u'' then read_char (short_escape (hd cs)) (read_json_chars (tl cs))
      else read_char (char_of (16 * hex_value (cs ! 3) + hex_value (cs ! 4)))
             (read_json_chars (drop 5 cs)))"
  by pat_completeness auto
termination
  by (relation "measure length") (auto simp: less_Suc_eq_le)

declare read_json_chars.simps(2) [simp del]

lemma hex_value_digit: "d < 16 \<Longrightarrow> hex_value (hex_digit d) = d"
  by (auto simp: hex_value_def hex_digit_def Let_def)

lemma read_plain_char:
  "c \<noteq> CHR 0x22 \<Longrightarrow> c \<noteq> CHR 0x5C \<Longrightarrow> read_json_chars (c # r) = read_char c (read_json_chars r)"
  by (simp add: read_json_chars.simps(2))

lemma read_short_escape:
  "e \<noteq> CHR ''u'' \<Longrightarrow> read_json_chars (CHR 0x5C # e # r) = read_char (short_escape e) (read_json_chars r)"
  by (simp add: read_json_chars.simps(2))

lemma read_unicode_escape:
  "a < 16 \<Longrightarrow> b < 16 \<Longrightarrow> read_json_chars (CHR 0x5C # ''u00'' @ hex_digit a # hex_digit b # r)
    = read_char (char_of (16 * a + b)) (read_json_chars r)"
  by (simp add: read_json_chars.simps(2) [of "CHR 0x5C"] hex_value_digit nth_Cons')

lemma read_escaped: "read_json_chars (escape_char c @ r) = read_char c (read_json_chars r)"
proof -
  have d: "(of_char c :: nat) div 16 < 16" "(of_char c :: nat) mod 16 < 16"
    using nat_of_char_less_256 [of c] by (simp_all del: nat_of_char_less_256 add: less_mult_imp_div_less)
  have c: "char_of (16 * (of_char c div 16) + of_char c mod 16 :: nat) = c"
    by (simp only: mult_div_mod_eq char_of_char)
  show ?thesis
    unfolding escape_char_def
    using read_unicode_escape [OF d, of r]
    by (simp add: read_short_escape short_escape_def read_plain_char c)
qed

lemma read_json_string: "read_json_chars (tl (json_string s) @ r) = Some (s, r)"
proof -
  have "read_json_chars (concat (map escape_char s) @ CHR 0x22 # r) = Some (s, r)"
    by (induction s) (simp_all add: read_escaped read_char_def read_json_chars.simps(2))
  then show ?thesis by (simp add: json_string_def)
qed

lemma json_string_inject: "json_string s @ r = json_string s' @ r' \<longleftrightarrow> s = s' \<and> r = r'"
proof
  assume "json_string s @ r = json_string s' @ r'"
  then have "tl (json_string s) @ r = tl (json_string s') @ r'" by (simp add: json_string_def)
  then show "s = s' \<and> r = r'" by (metis read_json_string option.inject prod.inject)
qed simp

section \<open>The canonical request\<close>

definition canonical_request :: "string \<Rightarrow> string \<Rightarrow> int \<Rightarrow> int \<Rightarrow> string" where
  "canonical_request customerId productId quantity amount =
     ''['' @ json_string (to_lower customerId) @ '','' @ json_string (to_lower productId)
       @ '','' @ show_int quantity @ '','' @ show_int amount @ '']''"

definition fingerprintOrderRequest ::
  "(string \<Rightarrow> string) \<Rightarrow> string \<Rightarrow> string \<Rightarrow> int \<Rightarrow> int \<Rightarrow> string" where
  "fingerprintOrderRequest sha256 customerId productId quantity amount =
     sha256 (canonical_request customerId productId quantity amount)"

lemma show_nat_digit_chars: "set (show_nat n) \<subseteq> digit_char ` {0..<10}"
proof (induction n rule: show_nat.induct)
  case (1 n)
  then show ?case by (subst show_nat.simps) auto
qed

lemma digit_char_code: "d < 10 \<Longrightarrow> (of_char (digit_char d) :: nat) = 48 + d"
  by (simp add: digit_char_def)

lemma show_nat_chars: "c \<in> set (show_nat n) \<Longrightarrow> 48 \<le> (of_char c :: nat) \<and> (of_char c :: nat) < 58"
  using show_nat_digit_chars [of n] by (auto simp: digit_char_code)

lemma show_int_chars: "c \<in> set (show_int i) \<Longrightarrow> (of_char c :: nat) = 45 \<or> 48 \<le> (of_char c :: nat) \<and> (of_char c :: nat) < 58"
  by (auto simp: show_int_def dest: show_nat_chars split: if_splits)

lemma show_int_no_comma: "CHR '','' \<notin> set (show_int i)" "CHR '']'' \<notin> set (show_int i)"
  using show_int_chars [of "CHR '',''" i] show_int_chars [of "CHR '']''" i] by auto

lemma show_int_inject [simp]: "show_int i = show_int j \<longleftrightarrow> i = j"
proof
  assume eq: "show_int i = show_int j"
  have minus: "CHR ''-'' \<notin> set (show_nat n)" for n
    using show_nat_chars [of "CHR ''-''" n] by auto
  have "i < 0 \<longleftrightarrow> j < 0"
    using eq minus [of "nat i"] minus [of "nat j"]
    by (auto simp: show_int_def split: if_splits) (metis list.set_intros(1))+
  then show "i = j" using eq by (auto simp: show_int_def split: if_splits)
qed simp

lemma canonical_request_inject:
  "canonical_request c p q a = canonical_request c' p' q' a' \<longleftrightarrow>
     to_lower c = to_lower c' \<and> to_lower p = to_lower p' \<and> q = q' \<and> a = a'"
proof
  assume eq: "canonical_request c p q a = canonical_request c' p' q' a'"
  then have "json_string (to_lower c) @ '','' @ json_string (to_lower p) @ '','' @ show_int q @ '','' @ show_int a @ '']''
    = json_string (to_lower c') @ '','' @ json_string (to_lower p') @ '','' @ show_int q' @ '','' @ show_int a' @ '']''"
    by (simp add: canonical_request_def)
  then have cp: "to_lower c = to_lower c'" "to_lower p = to_lower p'"
    and qa: "show_int q @ CHR '','' # show_int a @ '']'' = show_int q' @ CHR '','' # show_int a' @ '']''"
    by (simp_all add: json_string_inject)
  have "show_int q = show_int q' \<and> show_int a @ '']'' = show_int a' @ '']''"
    using qa by (rule append_sep_inject_left) (use show_int_no_comma in auto)
  then show "to_lower c = to_lower c' \<and> to_lower p = to_lower p' \<and> q = q' \<and> a = a'"
    using cp by simp
qed (simp add: canonical_request_def)

section \<open>Validation\<close>

definition validateOrderInput :: "jsval \<Rightarrow> unit result" where
  "validateOrderInput input =
     (if \<not> truthy input \<or> \<not> typeof_string (get_prop input ''customerId'')
        \<or> \<not> typeof_string (get_prop input ''productId'')
        \<or> \<not> is_positive_integer (get_prop input ''quantity'')
        \<or> \<not> is_positive_integer (get_prop input ''amount'')
        \<or> \<not> typeof_string (get_prop input ''idempotencyKey'')
        \<or> trim (js_str (get_prop input ''idempotencyKey'')) = []
      then Inl OrderValidationError else Inr ())"

text \<open>The fields of a validated input.\<close>

record order_request =
  rq_customerId :: string
  rq_productId :: string
  rq_quantity :: int
  rq_amount :: int
  rq_idempotencyKey :: string
  rq_context :: jsval

definition request_of :: "jsval \<Rightarrow> order_request" where
  "request_of input = \<lparr>rq_customerId = js_str (get_prop input ''customerId''),
     rq_productId = js_str (get_prop input ''productId''),
     rq_quantity = int_of_js (get_prop input ''quantity''),
     rq_amount = int_of_js (get_prop input ''amount''),
     rq_idempotencyKey = js_str (get_prop input ''idempotencyKey''),
     rq_context = get_prop input ''requestContext''\<rparr>"

definition request_fingerprint :: "(string \<Rightarrow> string) \<Rightarrow> order_request \<Rightarrow> string" where
  "request_fingerprint sha256 rq = fingerprintOrderRequest sha256 (rq_customerId rq) (rq_productId rq)
     (rq_quantity rq) (rq_amount rq)"

lemma validateOrderInput_positive:
  assumes "validateOrderInput input = Inr u"
  shows "0 < rq_quantity (request_of input)" "0 < rq_amount (request_of input)"
  using assms
  by (auto simp: validateOrderInput_def request_of_def split: if_splits elim!: is_positive_integerE)

section \<open>Replaying a stored order\<close>

definition stored_fingerprint :: "(string \<Rightarrow> string) \<Rightarrow> idempotency_record \<Rightarrow> string" where
  "stored_fingerprint sha256 r = (case ir_requestFingerprint r of
      Some f \<Rightarrow> f
    | None \<Rightarrow> (let ord = ir_order r in fingerprintOrderRequest sha256 (ord_customerId ord)
                (ord_productId ord) (ord_quantity ord) (ord_amount ord)))"

definition resolveIdempotentOrder ::
  "(string \<Rightarrow> string) \<Rightarrow> idempotency_record \<Rightarrow> string \<Rightarrow> order result" where
  "resolveIdempotentOrder sha256 r requestFingerprint =
     (if stored_fingerprint sha256 r \<noteq> requestFingerprint then Inl IdempotencyKeyReusedError
      else Inr (ir_order r))"

text \<open>The row that both services insert for a request.\<close>

definition new_order_of :: "string \<Rightarrow> order_request \<Rightarrow> new_order" where
  "new_order_of i rq = \<lparr>no_id = i, no_customerId = rq_customerId rq, no_productId = rq_productId rq,
     no_quantity = rq_quantity rq, no_amount = rq_amount rq, no_status = ''PENDING'', no_version = 1,
     no_idempotencyKey = rq_idempotencyKey rq\<rparr>"

section \<open>Properties\<close>

text \<open>
  C33. The fingerprint is the identity of a request.  When the digest separates
  the two canonical texts, two requests have the same fingerprint exactly when they
  agree on customer and product up to letter case and on quantity and amount; the
  quoting of the texts keeps any customer and product texts apart, control characters, quotes
  and backslashes included.
\<close>

theorem fingerprint_identifies_request:
  assumes "inj_on sha256 {canonical_request c p q a, canonical_request c' p' q' a'}"
  shows "fingerprintOrderRequest sha256 c p q a = fingerprintOrderRequest sha256 c' p' q' a' \<longleftrightarrow>
    to_lower c = to_lower c' \<and> to_lower p = to_lower p' \<and> q = q' \<and> a = a'"
  unfolding fingerprintOrderRequest_def inj_on_eq_iff [OF assms insertI1 insertI2 [OF singletonI]]
  by (rule canonical_request_inject)

theorem fingerprint_identifies_request_witness:
  "fingerprintOrderRequest id ''A'' ''b'' 2 3 = fingerprintOrderRequest id ''a'' ''B'' 2 3
   \<and> fingerprintOrderRequest id [CHR 0x22] ''b'' 2 3 \<noteq> fingerprintOrderRequest id [CHR 0x5C, CHR 0x22] ''b'' 2 3"
  using fingerprint_identifies_request [of id "''A''" "''b''" 2 3 "''a''" "''B''" 2 3]
    fingerprint_identifies_request [of id "[CHR 0x22]" "''b''" 2 3 "[CHR 0x5C, CHR 0x22]" "''b''" 2 3]
  by (simp add: to_lower_def lower_char_def char_of_eq_iff eq_commute [of "CHR ''b''"])

end
