(* ===== verification/Js_Date.thy ===== *)
theory Js_Date
  imports Errors
begin

text \<open>
  \<open>Date\<close> values of the standard library, as far as the sources use them: the text
  \<open>toISOString\<close> prints for a time value in milliseconds, and the test that a text
  is such a print, which is how \<open>isCanonicalTimestamp\<close> of the analytics consumer
  parses and prints a timestamp back.
\<close>

section \<open>Calendar\<close>

text \<open>
  Days since the epoch as year, month and day of the proleptic Gregorian calendar,
  by the cycles of 400, 100, 4 and 1 years that start on the first of March.
\<close>

definition civil_of_days :: "int \<Rightarrow> int \<times> int \<times> int" where
  "civil_of_days days =
     (let z = days + 719468; era = z div 146097; doe = z mod 146097;
          c = min 3 (doe div 36524); r = doe - c * 36524;
          q = r div 1461; s = r - q * 1461;
          yy = min 3 (s div 365); doy = s - yy * 365;
          mp = (5 * doy + 2) div 153;
          d = doy - (153 * mp + 2) div 5 + 1;
          m = (if mp < 10 then mp + 3 else mp - 9);
          y = era * 400 + 100 * c + 4 * q + yy
      in (if m \<le> 2 then y + 1 else y, m, d))"

definition days_of_civil :: "int \<Rightarrow> int \<Rightarrow> int \<Rightarrow> int" where
  "days_of_civil y m d =
     (let y' = (if m \<le> 2 then y - 1 else y); era = y' div 400; yoe = y' mod 400;
          mp = (if m > 2 then m - 3 else m + 9);
          doy = (153 * mp + 2) div 5 + d - 1;
          doe = yoe * 365 + yoe div 4 - yoe div 100 + doy
      in era * 146097 + doe - 719468)"

lemma civil_of_days_bounds:
  assumes "civil_of_days days = (y, m, d)"
  shows "1 \<le> m \<and> m \<le> 12 \<and> 1 \<le> d \<and> d \<le> 31" and "days_of_civil y m d = days"
    and "400 * ((days + 719468) div 146097) \<le> y" "y \<le> 400 * ((days + 719468) div 146097) + 400"
proof -
  define z where "z = days + 719468"
  define era where "era = z div 146097"
  define doe where "doe = z mod 146097"
  define c where "c = min 3 (doe div 36524)"
  define r where "r = doe - c * 36524"
  define q where "q = r div 1461"
  define s where "s = r - q * 1461"
  define yy where "yy = min 3 (s div 365)"
  define doy where "doy = s - yy * 365"
  define mp where "mp = (5 * doy + 2) div 153"
  define yoe where "yoe = 100 * c + 4 * q + yy"
  have doe: "0 \<le> doe" "doe \<le> 146096" by (simp_all add: doe_def)
  have c: "0 \<le> c" "c \<le> 3" "0 \<le> r" "r \<le> 36524" unfolding r_def c_def using doe by linarith+
  have q: "0 \<le> q" "q \<le> 24" "0 \<le> s" "s \<le> 1460" unfolding s_def q_def using c(3,4) by linarith+
  have yy: "0 \<le> yy" "yy \<le> 3" "0 \<le> doy" "doy \<le> 365" unfolding doy_def yy_def using q(3,4) by linarith+
  have mp: "0 \<le> mp" "mp \<le> 11" unfolding mp_def using yy(3,4) by linarith+
  have yoe: "0 \<le> yoe" "yoe \<le> 399" unfolding yoe_def using c(1,2) q(1,2) yy(1,2) by linarith+
  have leap: "yoe div 4 = 25 * c + q" "yoe div 100 = c"
    unfolding yoe_def using q(1,2) yy(1,2) by linarith+
  have doe_eq: "doe = yoe * 365 + yoe div 4 - yoe div 100 + doy"
    unfolding leap unfolding yoe_def doy_def s_def r_def by (simp add: algebra_simps)
  have d: "1 \<le> doy - (153 * mp + 2) div 5 + 1" "doy - (153 * mp + 2) div 5 + 1 \<le> 31"
    unfolding mp_def using yy(3,4) by linarith+
  have z: "z = era * 146097 + doe" unfolding era_def doe_def by simp
  define m' where "m' = (if mp < 10 then mp + 3 else mp - 9)"
  have civil: "y = (if m' \<le> 2 then era * 400 + yoe + 1 else era * 400 + yoe)" "m = m'"
    "d = doy - (153 * mp + 2) div 5 + 1"
    using assms unfolding civil_of_days_def Let_def z_def [symmetric] era_def [symmetric]
      doe_def [symmetric] c_def [symmetric] r_def [symmetric] q_def [symmetric] s_def [symmetric]
      yy_def [symmetric] doy_def [symmetric] mp_def [symmetric] m'_def [symmetric]
    by (auto simp: yoe_def)
  show "1 \<le> m \<and> m \<le> 12 \<and> 1 \<le> d \<and> d \<le> 31"
    unfolding civil m'_def using mp d by auto
  show "400 * ((days + 719468) div 146097) \<le> y" "y \<le> 400 * ((days + 719468) div 146097) + 400"
    unfolding z_def [symmetric] era_def [symmetric] civil(1) using yoe by auto
  have shifted: "(if m \<le> 2 then y - 1 else y) = era * 400 + yoe"
    "(if m > 2 then m - 3 else m + 9) = mp"
    unfolding civil(1,2) m'_def using mp by auto
  have "(era * 400 + yoe) div 400 = era" "(era * 400 + yoe) mod 400 = yoe"
    using yoe by (simp_all add: div_pos_pos_trivial)
  then show "days_of_civil y m d = days"
    unfolding days_of_civil_def shifted Let_def using doe_eq z by (simp add: civil(3) z_def)
qed

section \<open>Printing\<close>

fun pad :: "nat \<Rightarrow> nat \<Rightarrow> string" where
  "pad 0 n = []"
| "pad (Suc k) n = pad k (n div 10) @ [digit_char (n mod 10)]"

definition show_year :: "int \<Rightarrow> string" where
  "show_year y = (if 0 \<le> y \<and> y \<le> 9999 then pad 4 (nat y)
     else (if y < 0 then ''-'' else ''+'') @ pad 6 (nat \<bar>y\<bar>))"

definition MAX_TIME :: int where
  "MAX_TIME = 8640000000000000"

text \<open>\<open>new Date(t).toISOString()\<close>; \<open>None\<close> is its \<open>RangeError\<close> for an invalid date.\<close>

definition to_iso_string :: "int \<Rightarrow> string option" where
  "to_iso_string t =
     (if \<bar>t\<bar> > MAX_TIME then None
      else (let days = t div 86400000; ms = t mod 86400000; (y, m, d) = civil_of_days days
            in Some (show_year y @ ''-'' @ pad 2 (nat m) @ ''-'' @ pad 2 (nat d) @ ''T''
                 @ pad 2 (nat (ms div 3600000)) @ '':'' @ pad 2 (nat (ms div 60000 mod 60)) @ '':''
                 @ pad 2 (nat (ms div 1000 mod 60)) @ ''.'' @ pad 3 (nat (ms mod 1000)) @ ''Z'')))"

text \<open>The time value of a text of that shape: the year, then the fixed-width fields.\<close>

definition read_field :: "nat \<Rightarrow> nat \<Rightarrow> string \<Rightarrow> int" where
  "read_field i k r = int (read_nat (take k (drop i r)))"

definition read_rest :: "int \<Rightarrow> string \<Rightarrow> int" where
  "read_rest y r = days_of_civil y (read_field 1 2 r) (read_field 4 2 r) * 86400000
     + read_field 7 2 r * 3600000 + read_field 10 2 r * 60000 + read_field 13 2 r * 1000
     + read_field 16 3 r"

definition read_time :: "string \<Rightarrow> int" where
  "read_time s = (case s of
      c # cs \<Rightarrow>
        if c = CHR ''+'' then read_rest (int (read_nat (take 6 cs))) (drop 6 cs)
        else if c = CHR ''-'' then read_rest (- int (read_nat (take 6 cs))) (drop 6 cs)
        else read_rest (int (read_nat (take 4 s))) (drop 4 s)
    | [] \<Rightarrow> 0)"

text \<open>The test of \<open>isCanonicalTimestamp\<close>: the parsed value prints as the text itself.\<close>

definition canonical_iso :: "string \<Rightarrow> bool" where
  "canonical_iso s = (to_iso_string (read_time s) = Some s)"

lemma to_iso_string_valid: "\<bar>t\<bar> \<le> MAX_TIME \<Longrightarrow> \<exists>s. to_iso_string t = Some s"
  by (cases "civil_of_days (t div 86400000)") (simp add: to_iso_string_def Let_def)

lemma length_pad [simp]: "length (pad k n) = k"
  by (induction k arbitrary: n) simp_all

lemma read_nat_snoc: "read_nat (s @ [c]) = 10 * read_nat s + digit_value c"
  by (simp add: read_nat_def)

lemma read_nat_pad: "n < 10 ^ k \<Longrightarrow> read_nat (pad k n) = n"
proof (induction k arbitrary: n)
  case 0
  then show ?case by (simp add: read_nat_def)
next
  case (Suc k)
  then have "n div 10 < 10 ^ k" by (simp add: less_mult_imp_div_less mult.commute)
  then show ?case using Suc.IH by (simp add: read_nat_snoc)
qed

lemma hd_pad: "\<exists>d cs. d < 10 \<and> pad (Suc k) n = digit_char d # cs"
proof (induction k arbitrary: n)
  case 0
  show ?case by (intro exI [of _ "n mod 10"]) simp
next
  case (Suc k)
  obtain d cs where d: "d < 10" "pad (Suc k) (n div 10) = digit_char d # cs"
    using Suc.IH [of "n div 10"] by blast
  have "pad (Suc (Suc k)) n = pad (Suc k) (n div 10) @ [digit_char (n mod 10)]"
    by (rule pad.simps(2))
  then show ?case using d by (simp only:) auto
qed

lemma pad_chars: "\<exists>a b. pad 2 n = [a, b]" "\<exists>a b c. pad 3 n = [a, b, c]"
  by (simp_all add: numeral_2_eq_2 numeral_3_eq_3)

lemma digit_char_not_sign: "d < 10 \<Longrightarrow> digit_char d \<noteq> CHR ''+'' \<and> digit_char d \<noteq> CHR ''-''"
proof -
  assume d: "d < 10"
  have "(of_char (digit_char d) :: nat) = 48 + d" using d by (simp add: digit_char_def)
  then show ?thesis by auto
qed

lemma read_fields:
  fixes m d H M S ml :: int
  assumes "length A = 2" "length B = 2" "length C = 2" "length D = 2" "length E = 2" "length F = 3"
  defines "r \<equiv> CHR ''-'' # A @ CHR ''-'' # B @ CHR ''T'' # C @ CHR '':'' # D @ CHR '':'' # E @ CHR ''.'' # F @ [CHR ''Z'']"
  shows "read_field 1 2 r = int (read_nat A)" "read_field 4 2 r = int (read_nat B)"
    "read_field 7 2 r = int (read_nat C)" "read_field 10 2 r = int (read_nat D)"
    "read_field 13 2 r = int (read_nat E)" "read_field 16 3 r = int (read_nat F)"
  using assms(1-6) unfolding r_def read_field_def by (simp_all add: drop_Cons' take_Cons')

lemma read_time_plain:
  assumes "length Y = 4" and "Y \<noteq> []" and "hd Y \<noteq> CHR ''+''" and "hd Y \<noteq> CHR ''-''"
  shows "read_time (Y @ r) = read_rest (int (read_nat Y)) r"
  using assms by (cases Y) (simp_all add: read_time_def)

lemma read_time_signed:
  assumes "length Y = 6"
  shows "read_time (CHR ''+'' # Y @ r) = read_rest (int (read_nat Y)) r"
    and "read_time (CHR ''-'' # Y @ r) = read_rest (- int (read_nat Y)) r"
  using assms by (simp_all add: read_time_def)

lemma read_time_year:
  assumes "\<bar>y\<bar> < 1000000"
  shows "read_time (show_year y @ r) = read_rest y r"
proof (cases "0 \<le> y \<and> y \<le> 9999")
  case True
  obtain e cs where e: "e < 10" "pad (Suc 3) (nat y) = digit_char e # cs"
    using hd_pad by blast
  have "Suc 3 = 4" by simp
  then have p: "pad 4 (nat y) = digit_char e # cs" using e(2) by (simp only:)
  have v: "read_nat (pad 4 (nat y)) = nat y"
    using True by (intro read_nat_pad) (simp add: nat_less_iff)
  have "read_time (pad 4 (nat y) @ r) = read_rest (int (read_nat (pad 4 (nat y)))) r"
    by (rule read_time_plain, rule length_pad) (simp_all add: p digit_char_not_sign [OF e(1)])
  then show ?thesis using True by (simp add: show_year_def v)
next
  case False
  have "read_nat (pad 6 (nat \<bar>y\<bar>)) = nat \<bar>y\<bar>"
    using assms by (intro read_nat_pad) simp
  then show ?thesis
    using False read_time_signed [of "pad 6 (nat \<bar>y\<bar>)" r] by (auto simp: show_year_def)
qed

lemma read_nat_pad2: "0 \<le> m \<Longrightarrow> m < 100 \<Longrightarrow> int (read_nat (pad 2 (nat m))) = m"
  using read_nat_pad [of "nat m" 2] by simp

lemma read_nat_pad3: "0 \<le> m \<Longrightarrow> m < 1000 \<Longrightarrow> int (read_nat (pad 3 (nat m))) = m"
  using read_nat_pad [of "nat m" 3] by simp

lemma read_time_print:
  assumes "\<bar>y\<bar> < 1000000" and "0 \<le> m" "m < 100" "0 \<le> d" "d < 100" "0 \<le> H" "H < 100" "0 \<le> M" "M < 100"
    "0 \<le> S" "S < 100" "0 \<le> ml" "ml < 1000"
  shows "read_time (show_year y @ ''-'' @ pad 2 (nat m) @ ''-'' @ pad 2 (nat d) @ ''T''
      @ pad 2 (nat H) @ '':'' @ pad 2 (nat M) @ '':'' @ pad 2 (nat S) @ ''.'' @ pad 3 (nat ml) @ ''Z'')
    = days_of_civil y m d * 86400000 + H * 3600000 + M * 60000 + S * 1000 + ml"
  unfolding append_Cons append_Nil read_time_year [OF assms(1)] read_rest_def
    read_fields [OF length_pad length_pad length_pad length_pad length_pad length_pad]
    read_nat_pad2 [OF assms(2,3)] read_nat_pad2 [OF assms(4,5)] read_nat_pad2 [OF assms(6,7)]
    read_nat_pad2 [OF assms(8,9)] read_nat_pad2 [OF assms(10,11)] read_nat_pad3 [OF assms(12,13)]
  by (rule refl)

text \<open>The year of a valid time value has at most six digits.\<close>

lemma civil_year_bound:
  assumes "civil_of_days days = (y, m, d)" and "\<bar>days\<bar> \<le> 100000000"
  shows "\<bar>y\<bar> < 1000000"
  using civil_of_days_bounds(3,4) [OF assms(1)] assms(2) by linarith

text \<open>A printed timestamp parses back to its time value, so it is canonical.\<close>

lemma canonical_print:
  assumes "to_iso_string t = Some s"
  shows "read_time s = t" and "canonical_iso s"
proof -
  define days where "days = t div 86400000"
  define ms where "ms = t mod 86400000"
  obtain y m d where ymd: "civil_of_days days = (y, m, d)" by (cases "civil_of_days days")
  have t: "\<bar>t\<bar> \<le> MAX_TIME" and s: "s = show_year y @ ''-'' @ pad 2 (nat m) @ ''-'' @ pad 2 (nat d) @ ''T''
      @ pad 2 (nat (ms div 3600000)) @ '':'' @ pad 2 (nat (ms div 60000 mod 60)) @ '':''
      @ pad 2 (nat (ms div 1000 mod 60)) @ ''.'' @ pad 3 (nat (ms mod 1000)) @ ''Z''"
    using assms ymd unfolding to_iso_string_def days_def ms_def Let_def
    by (simp_all split: if_splits)
  have days: "\<bar>days\<bar> \<le> 100000000" using t unfolding MAX_TIME_def days_def by linarith
  have ms: "0 \<le> ms" "ms < 86400000" by (simp_all add: ms_def)
  note b = civil_of_days_bounds(1) [OF ymd] civil_of_days_bounds(2) [OF ymd]
  have "ms div 60000 = ms div 1000 div 60" "ms div 3600000 = ms div 60000 div 60"
    by (simp_all add: zdiv_zmult2_eq [symmetric])
  then have time: "ms div 3600000 * 3600000 + ms div 60000 mod 60 * 60000 + ms div 1000 mod 60 * 1000
      + ms mod 1000 = ms"
    using div_mult_mod_eq [of ms 1000] div_mult_mod_eq [of "ms div 1000" 60]
      div_mult_mod_eq [of "ms div 60000" 60] by linarith
  have hours: "0 \<le> ms div 3600000" "ms div 3600000 < 100" using ms by linarith+
  have rest: "0 \<le> ms div 60000 mod 60" "ms div 60000 mod 60 < 100" "0 \<le> ms div 1000 mod 60"
    "ms div 1000 mod 60 < 100" "0 \<le> ms mod 1000" "ms mod 1000 < 1000"
    using pos_mod_bound [of 60 "ms div 60000"] pos_mod_bound [of 60 "ms div 1000"]
    by (simp_all del: pos_mod_bound)
  have md: "0 \<le> m" "m < 100" "0 \<le> d" "d < 100" using b(1) by linarith+
  have "read_time s = days_of_civil y m d * 86400000 + ms div 3600000 * 3600000
      + ms div 60000 mod 60 * 60000 + ms div 1000 mod 60 * 1000 + ms mod 1000"
    unfolding s by (rule read_time_print [OF civil_year_bound [OF ymd days] md hours rest])
  also have "\<dots> = days * 86400000 + ms" unfolding b(2) using time by linarith
  also have "\<dots> = t" by (simp add: days_def ms_def)
  finally show "read_time s = t" .
  then show "canonical_iso s" using assms by (simp add: canonical_iso_def)
qed

end
