(* ===== verification/Order_Events.thy ===== *)
theory Order_Events
  imports Js_Date Message_Queue
begin

text \<open>
  The \<open>ORDER_CREATED\<close> event from its producer to its consumer: the publisher of
  \<open>packages/events/src/index.js\<close> and the analytics consumer of
  \<open>apps/worker/src/order-created-analytics-consumer.js\<close>.  A call of \<open>handle\<close> is two
  steps, up to the \<open>await\<close> of \<open>writeRecord\<close> and from its settlement on, so several
  calls may be in flight at once.
\<close>

section \<open>Publisher\<close>

definition order_created_message :: "order \<Rightarrow> jsval \<Rightarrow> jsval result" where
  "order_created_message order context =
     (let requestId = get_prop context ''requestId'';
          correlationId = nullish_or (get_prop context ''correlationId'') requestId
      in case to_iso_string (ord_createdAt order) of
           None \<Rightarrow> Inl (range_error ''Invalid time value'')
         | Some timestamp \<Rightarrow> Inr (JObj
             ([(''messageId'', JStr (''order-created:'' @ ord_id order)),
               (''type'', JStr ''ORDER_CREATED''),
               (''orderId'', JStr (ord_id order)),
               (''timestamp'', JStr timestamp)]
              @ (if truthy requestId then [(''requestId'', requestId)] else [])
              @ (if truthy correlationId then [(''correlationId'', correlationId)] else []))))"

definition publishOrderCreated :: "nat \<Rightarrow> order \<Rightarrow> jsval \<Rightarrow> queue \<Rightarrow> queue \<times> publish_outcome" where
  "publishOrderCreated pid order context q = (case order_created_message order context of
      Inl e \<Rightarrow> (q, PubRejected e)
    | Inr m \<Rightarrow> publish pid m q)"

lemma order_created_fields:
  assumes "order_created_message order context = Inr m"
  shows "get_prop m ''messageId'' = JStr (''order-created:'' @ ord_id order)"
    "get_prop m ''type'' = JStr ''ORDER_CREATED''" "get_prop m ''orderId'' = JStr (ord_id order)"
    "\<exists>s. get_prop m ''timestamp'' = JStr s \<and> to_iso_string (ord_createdAt order) = Some s"
    "is_plain_object m"
  using assms by (auto simp: order_created_message_def Let_def split: option.splits)

lemma publishOrderCreated_sink:
  assumes "queue_inv q"
  shows "queue_inv (fst (publishOrderCreated pid order context q))"
    and "\<not> accepted (snd (publishOrderCreated pid order context q)) \<Longrightarrow>
      fst (publishOrderCreated pid order context q) = q"
    and "accepted (snd (publishOrderCreated pid order context q)) \<Longrightarrow>
      \<exists>m. order_created_message order context = Inr m
        \<and> backlog (fst (publishOrderCreated pid order context q)) = backlog q @ [m]"
  using assms sink.send_inv sink.send_rejected sink.send_accepted
  by (auto simp: publishOrderCreated_def split: sum.splits)

section \<open>Analytics consumer\<close>

definition isCanonicalTimestamp :: "jsval \<Rightarrow> bool" where
  "isCanonicalTimestamp value = (is_nonempty_string value \<and> canonical_iso (js_str value))"

definition isValidEvent :: "jsval \<Rightarrow> bool" where
  "isValidEvent event = (event \<noteq> JNull \<and> typeof_object event
     \<and> get_prop event ''type'' = JStr ''ORDER_CREATED''
     \<and> is_nonempty_string (get_prop event ''messageId'')
     \<and> is_nonempty_string (get_prop event ''orderId'')
     \<and> isCanonicalTimestamp (get_prop event ''timestamp''))"

record analytics_record =
  ar_messageId :: string
  ar_orderId :: string
  ar_occurredAt :: string

text \<open>The claimed ids, and the calls suspended on \<open>writeRecord\<close> with what they write.\<close>

record analytics =
  an_claimed :: "string set"
  an_writing :: "(nat \<times> analytics_record) list"

datatype handle_outcome = Duplicate | Recorded | Writing analytics_record | HandleThrows exn

definition createOrderCreatedAnalyticsConsumer :: analytics where
  "createOrderCreatedAnalyticsConsumer = \<lparr>an_claimed = {}, an_writing = []\<rparr>"

definition analytics_record_of :: "jsval \<Rightarrow> analytics_record" where
  "analytics_record_of event = \<lparr>ar_messageId = js_str (get_prop event ''messageId''),
     ar_orderId = js_str (get_prop event ''orderId''),
     ar_occurredAt = js_str (get_prop event ''timestamp'')\<rparr>"

definition handle_event :: "nat \<Rightarrow> jsval \<Rightarrow> analytics \<Rightarrow> analytics \<times> handle_outcome" where
  "handle_event i event a =
     (if \<not> isValidEvent event then (a, HandleThrows InvalidOrderCreatedEventError)
      else (let r = analytics_record_of event in
        if ar_messageId r \<in> an_claimed a then (a, Duplicate)
        else (a\<lparr>an_claimed := insert (ar_messageId r) (an_claimed a),
                an_writing := an_writing a @ [(i, r)]\<rparr>, Writing r)))"

text \<open>The settlement of the \<open>k\<close>-th suspended write: a resolution or a rejection.\<close>

definition handle_written :: "nat \<Rightarrow> exn option \<Rightarrow> analytics \<Rightarrow> (analytics \<times> handle_outcome) option" where
  "handle_written k outcome a =
     (if k < length (an_writing a) then
        (let r = snd (an_writing a ! k);
             rest = take k (an_writing a) @ drop (Suc k) (an_writing a)
         in Some (case outcome of
              None \<Rightarrow> (a\<lparr>an_writing := rest\<rparr>, Recorded)
            | Some e \<Rightarrow> (a\<lparr>an_writing := rest, an_claimed := an_claimed a - {ar_messageId r}\<rparr>,
                         HandleThrows e)))
      else None)"

datatype analytics_event = HandleEvent nat jsval | WriteSettles nat "exn option"

text \<open>A run, with the records whose write resolved.\<close>

fun analytics_step ::
  "analytics_event \<Rightarrow> analytics \<times> analytics_record list \<Rightarrow> (analytics \<times> analytics_record list) option" where
  "analytics_step (HandleEvent i event) (a, done) = Some (fst (handle_event i event a), done)"
| "analytics_step (WriteSettles k outcome) (a, done) = (case handle_written k outcome a of
      None \<Rightarrow> None
    | Some (a', out) \<Rightarrow>
        Some (a', if outcome = None then done @ [snd (an_writing a ! k)] else done))"

inductive analytics_reachable :: "analytics \<times> analytics_record list \<Rightarrow> bool" where
  analytics_init: "analytics_reachable (createOrderCreatedAnalyticsConsumer, [])"
| analytics_next: "analytics_reachable s \<Longrightarrow> analytics_step ev s = Some s' \<Longrightarrow> analytics_reachable s'"

definition analytics_inv :: "analytics \<times> analytics_record list \<Rightarrow> bool" where
  "analytics_inv s = (case s of (a, done) \<Rightarrow>
     distinct (map ar_messageId (done @ map snd (an_writing a)))
     \<and> an_claimed a = ar_messageId ` set (done @ map snd (an_writing a)))"

lemma remove_nth:
  assumes "k < length xs"
  shows "xs = take k xs @ xs ! k # drop (Suc k) xs"
  using assms by (rule id_take_nth_drop)

lemma analytics_inv_step:
  assumes inv: "analytics_inv s" and step: "analytics_step ev s = Some s'"
  shows "analytics_inv s'"
proof (cases ev)
  case (HandleEvent i event)
  obtain a recs where s: "s = (a, recs)" by force
  define id where "id = ar_messageId (analytics_record_of event)"
  have s': "s' = (if isValidEvent event \<and> id \<notin> an_claimed a
      then (a\<lparr>an_claimed := insert id (an_claimed a),
              an_writing := an_writing a @ [(i, analytics_record_of event)]\<rparr>, recs) else (a, recs))"
    using step unfolding HandleEvent s by (auto simp: handle_event_def Let_def id_def)
  show ?thesis
  proof (cases "isValidEvent event \<and> id \<notin> an_claimed a")
    case True
    have inv': "distinct (map ar_messageId (recs @ map snd (an_writing a)))"
      "an_claimed a = set (map ar_messageId (recs @ map snd (an_writing a)))"
      using inv by (simp_all add: s analytics_inv_def image_Un image_image)
    have "id \<notin> set (map ar_messageId (recs @ map snd (an_writing a)))"
      using True inv'(2) by simp
    moreover have "map ar_messageId (recs @ map snd (an_writing a @ [(i, analytics_record_of event)]))
        = map ar_messageId (recs @ map snd (an_writing a)) @ [id]"
      by (simp add: id_def)
    ultimately have "distinct (map ar_messageId (recs @ map snd (an_writing a @ [(i, analytics_record_of event)])))
        \<and> insert id (an_claimed a) = set (map ar_messageId (recs @ map snd (an_writing a @ [(i, analytics_record_of event)])))"
      using inv' by (simp only: distinct_append set_append) auto
    then show ?thesis using True by (simp add: s' analytics_inv_def image_Un image_image)
  next
    case False
    then show ?thesis using inv unfolding s s' by auto
  qed
next
  case (WriteSettles k outcome)
  obtain a recs where s: "s = (a, recs)" by force
  have k: "k < length (an_writing a)"
    using step unfolding WriteSettles s by (auto simp: handle_written_def split: if_splits)
  define xs where "xs = take k (an_writing a)"
  define x where "x = an_writing a ! k"
  define ys where "ys = drop (Suc k) (an_writing a)"
  have split: "an_writing a = xs @ x # ys" unfolding xs_def x_def ys_def by (rule remove_nth [OF k])
  note inv' = inv [unfolded s analytics_inv_def prod.case split]
  have s': "s' = (if outcome = None then (a\<lparr>an_writing := xs @ ys\<rparr>, recs @ [snd x])
      else (a\<lparr>an_writing := xs @ ys, an_claimed := an_claimed a - {ar_messageId (snd x)}\<rparr>, recs))"
    using step k unfolding WriteSettles s
    by (auto simp: handle_written_def Let_def xs_def x_def ys_def split: option.splits)
  show ?thesis
    using inv' unfolding s' analytics_inv_def by (auto simp: image_iff)
qed

lemma analytics_reachable_inv: "analytics_reachable s \<Longrightarrow> analytics_inv s"
proof (induction rule: analytics_reachable.induct)
  case analytics_init
  show ?case by (simp add: analytics_inv_def createOrderCreatedAnalyticsConsumer_def)
next
  case (analytics_next s ev s')
  then show ?case using analytics_inv_step by blast
qed

section \<open>Properties\<close>

text \<open>
  C30. The analytics consumer records each message at most once.  In any interleaving of deliveries
  and settlements of \<open>writeRecord\<close>, the records written and the writes in flight have
  distinct message ids, which are exactly the claimed ones: a delivery of a claimed id starts no
  write, and a failed write frees its id so that the next valid delivery writes it again.
\<close>

theorem analytics_records_once:
  assumes "analytics_reachable (a, recs)"
  shows "distinct (map ar_messageId (recs @ map snd (an_writing a)))
    \<and> an_claimed a = ar_messageId ` set (recs @ map snd (an_writing a))
    \<and> (\<forall>i event. isValidEvent event \<longrightarrow>
         snd (handle_event i event a) =
           (if ar_messageId (analytics_record_of event) \<in> ar_messageId ` set (recs @ map snd (an_writing a))
            then Duplicate else Writing (analytics_record_of event)))
    \<and> (\<forall>k e a' out. handle_written k (Some e) a = Some (a', out) \<longrightarrow>
         out = HandleThrows e \<and> ar_messageId (snd (an_writing a ! k)) \<notin> an_claimed a')"
  using analytics_reachable_inv [OF assms]
  by (auto simp: analytics_inv_def handle_event_def handle_written_def Let_def split: if_splits)

definition sample_event :: jsval where
  "sample_event = JObj [(''messageId'', JStr ''m1''), (''type'', JStr ''ORDER_CREATED''),
     (''orderId'', JStr ''o1''), (''timestamp'', JStr ''1970-01-01T00:00:00.000Z'')]"

lemma epoch_stamp: "to_iso_string 0 = Some ''1970-01-01T00:00:00.000Z''"
  by code_simp

lemma sample_event_valid: "isValidEvent sample_event"
proof -
  have "canonical_iso ''1970-01-01T00:00:00.000Z''" by (rule canonical_print(2) [OF epoch_stamp])
  then show ?thesis
    by (simp add: isValidEvent_def sample_event_def typeof_object_def is_nonempty_string_def
        trim_eq_Nil_iff js_space_def isCanonicalTimestamp_def)
qed

theorem analytics_records_once_witness:
  "\<exists>a recs. analytics_reachable (a, recs) \<and> map ar_messageId (map snd (an_writing a)) = [''m1'']
    \<and> snd (handle_event 1 sample_event a) = Duplicate"
proof -
  let ?a = "fst (handle_event 0 sample_event createOrderCreatedAnalyticsConsumer)"
  have reach: "analytics_reachable (?a, [])"
    by (rule analytics_next [OF analytics_init, of "HandleEvent 0 sample_event"]) simp
  have ids: "map ar_messageId (map snd (an_writing ?a)) = [''m1'']"
    "ar_messageId (analytics_record_of sample_event) = ''m1''"
    using sample_event_valid
    by (simp_all add: handle_event_def createOrderCreatedAnalyticsConsumer_def Let_def
        analytics_record_of_def sample_event_def)
  then have "ar_messageId (analytics_record_of sample_event)
      \<in> ar_messageId ` set ([] @ map snd (an_writing ?a))"
    by (metis append_Nil image_set list.set_intros(1))
  then have "snd (handle_event 1 sample_event ?a) = Duplicate"
    using analytics_records_once [OF reach] sample_event_valid by presburger
  then show ?thesis using reach ids(1) by (intro exI conjI)
qed

text \<open>
  C31. The published event is understood by its consumer.  Whatever the request context, the message that
  the publisher builds for an order with a nonblank id passes the consumer's validation; the first
  delivery writes the record of that order, and its timestamp reads back as the
  creation time.
\<close>

theorem order_event_understood:
  assumes "order_created_message order context = Inr m" and "trim (ord_id order) \<noteq> []"
    and "''order-created:'' @ ord_id order \<notin> an_claimed a"
  shows "\<exists>r. snd (handle_event i m a) = Writing r \<and> ar_orderId r = ord_id order
    \<and> ar_messageId r = ''order-created:'' @ ord_id order \<and> read_time (ar_occurredAt r) = ord_createdAt order"
proof -
  note f = order_created_fields [OF assms(1)]
  obtain s where s: "get_prop m ''timestamp'' = JStr s" "to_iso_string (ord_createdAt order) = Some s"
    using f(4) by blast
  have "CHR ''-'' \<in> set s"
    using s(2) by (auto simp: to_iso_string_def Let_def split: if_splits prod.splits)
  then have "trim s \<noteq> []" unfolding trim_eq_Nil_iff by (force simp: js_space_def)
  moreover have "trim (''order-created:'' @ ord_id order) \<noteq> []"
    by (simp add: trim_eq_Nil_iff js_space_def)
  moreover have "typeof_object m" "m \<noteq> JNull"
    using f(5) by (auto simp: is_plain_object_iff typeof_object_def)
  ultimately have "isValidEvent m"
    using f(1-3) s canonical_print(2) [OF s(2)] assms(2)
    by (simp add: isValidEvent_def isCanonicalTimestamp_def is_nonempty_string_def)
  then show ?thesis
    using f(1,3) s assms(3) canonical_print(1) [OF s(2)]
    by (simp add: handle_event_def Let_def analytics_record_of_def)
qed

definition sample_created :: order where
  "sample_created = \<lparr>ord_id = ''o1'', ord_customerId = ''c'', ord_productId = ''p'', ord_quantity = 1,
     ord_amount = 5, ord_status = ''PENDING'', ord_version = 1, ord_idempotencyKey = ''k'',
     ord_createdAt = 0, ord_updatedAt = 0\<rparr>"

theorem order_event_understood_witness:
  "\<exists>m r. order_created_message sample_created JUndefined = Inr m
    \<and> snd (handle_event 0 m createOrderCreatedAnalyticsConsumer) = Writing r \<and> ar_orderId r = ''o1''"
proof -
  obtain m where m: "order_created_message sample_created JUndefined = Inr m"
    using epoch_stamp by (simp add: order_created_message_def sample_created_def Let_def)
  have "trim (ord_id sample_created) \<noteq> []"
    "''order-created:'' @ ord_id sample_created \<notin> an_claimed createOrderCreatedAnalyticsConsumer"
    by (simp_all add: sample_created_def trim_eq_Nil_iff js_space_def createOrderCreatedAnalyticsConsumer_def)
  from order_event_understood [OF m this] show ?thesis
    using m by (force simp: sample_created_def)
qed

end
