(* ===== verification/Observability.thy ===== *)
theory Observability
  imports Js_Date
begin

text \<open>
  \<open>packages/observability/src/index.js\<close>: the metrics registry, the contexts, and
  operations with their single terminal record.  Readings of the monotonic clock are
  rationals and the wall clock is a time value in milliseconds; the records passed to
  \<open>write\<close> are a list, since \<open>safelyWrite\<close> drops whatever \<open>write\<close> does with them.
  \<open>String(value)\<close> of a thrown value that is no \<open>Error\<close> is the parameter \<open>str\<close>.
\<close>

section \<open>Metrics registry\<close>

definition counterNames :: "string list" where
  "counterNames = [''orders_created_total'', ''orders_completed_total'', ''orders_failed_total'',
     ''retry_count'', ''deduplication_count'', ''concurrency_conflicts'']"

record metrics =
  mt_counters :: "string \<rightharpoonup> rat"
  mt_queueDepth :: rat
  mt_durationCount :: nat
  mt_durationTotal :: rat
  mt_durationMaximum :: rat

definition createMetricsRegistry :: metrics where
  "createMetricsRegistry = \<lparr>mt_counters = map_of (map (\<lambda>name. (name, 0)) counterNames),
     mt_queueDepth = 0, mt_durationCount = 0, mt_durationTotal = 0, mt_durationMaximum = 0\<rparr>"

definition metric_value_error :: exn where
  "metric_value_error = range_error ''Metric values must be finite, nonnegative numbers''"

definition assertMetricValue :: "jsval \<Rightarrow> rat result" where
  "assertMetricValue value = (case value of
      JNum (Fin r) \<Rightarrow> if r < 0 then Inl metric_value_error else Inr r
    | _ \<Rightarrow> Inl metric_value_error)"

definition increment :: "string \<Rightarrow> jsval \<Rightarrow> metrics \<Rightarrow> metrics \<times> unit result" where
  "increment name amount m = (case mt_counters m name of
      None \<Rightarrow> (m, Inl (range_error (''Unknown counter: '' @ name)))
    | Some n \<Rightarrow>
        (case assertMetricValue (if amount = JUndefined then JNum (Fin 1) else amount) of
            Inl e \<Rightarrow> (m, Inl e)
          | Inr a \<Rightarrow> (m\<lparr>mt_counters := (mt_counters m)(name \<mapsto> n + a)\<rparr>, Inr ())))"

definition setGauge :: "string \<Rightarrow> jsval \<Rightarrow> metrics \<Rightarrow> metrics \<times> unit result" where
  "setGauge name value m =
     (if name \<noteq> ''queue_depth'' then (m, Inl (range_error (''Unknown gauge: '' @ name)))
      else (case assertMetricValue value of
          Inl e \<Rightarrow> (m, Inl e)
        | Inr v \<Rightarrow> (m\<lparr>mt_queueDepth := v\<rparr>, Inr ())))"

definition observe :: "string \<Rightarrow> jsval \<Rightarrow> metrics \<Rightarrow> metrics \<times> unit result" where
  "observe name value m =
     (if name \<noteq> ''processing_duration'' then (m, Inl (range_error (''Unknown duration: '' @ name)))
      else (case assertMetricValue value of
          Inl e \<Rightarrow> (m, Inl e)
        | Inr v \<Rightarrow> (m\<lparr>mt_durationCount := mt_durationCount m + 1,
                      mt_durationTotal := mt_durationTotal m + v,
                      mt_durationMaximum := max (mt_durationMaximum m) v\<rparr>, Inr ())))"

record metrics_snapshot =
  ms_orders_created_total :: "rat option"
  ms_orders_completed_total :: "rat option"
  ms_orders_failed_total :: "rat option"
  ms_queue_depth :: rat
  ms_duration_count :: nat
  ms_duration_total :: rat
  ms_duration_average :: rat
  ms_duration_maximum :: rat
  ms_retry_count :: "rat option"
  ms_deduplication_count :: "rat option"
  ms_concurrency_conflicts :: "rat option"

definition metrics_view :: "metrics \<Rightarrow> metrics_snapshot" where
  "metrics_view m = \<lparr>ms_orders_created_total = mt_counters m ''orders_created_total'',
     ms_orders_completed_total = mt_counters m ''orders_completed_total'',
     ms_orders_failed_total = mt_counters m ''orders_failed_total'',
     ms_queue_depth = mt_queueDepth m,
     ms_duration_count = mt_durationCount m, ms_duration_total = mt_durationTotal m,
     ms_duration_average = (if mt_durationCount m = 0 then 0
        else mt_durationTotal m / of_nat (mt_durationCount m)),
     ms_duration_maximum = mt_durationMaximum m,
     ms_retry_count = mt_counters m ''retry_count'',
     ms_deduplication_count = mt_counters m ''deduplication_count'',
     ms_concurrency_conflicts = mt_counters m ''concurrency_conflicts''\<rparr>"

section \<open>Contexts\<close>

definition completeContext :: "jsval \<Rightarrow> jsval" where
  "completeContext context = JObj (map (\<lambda>k. (k, nullish_or (get_prop context k) JNull))
     [''requestId'', ''correlationId'', ''orderId'', ''messageId'', ''workerId''])"

definition createRequestContext :: "jsval \<Rightarrow> jsval \<Rightarrow> jsval" where
  "createRequestContext requestId correlationId = completeContext
     (JObj [(''requestId'', requestId),
        (''correlationId'', if is_nonempty_string correlationId then correlationId else requestId)])"

definition createMessageContext :: "jsval \<Rightarrow> jsval \<Rightarrow> jsval" where
  "createMessageContext message workerId =
     (let source = (if truthy message \<and> typeof_object message then message else JObj []);
          correlationId = (case filter is_nonempty_string (map (get_prop source)
              [''correlationId'', ''requestId'', ''messageId'']) of
            [] \<Rightarrow> JUndefined | identifier # _ \<Rightarrow> identifier)
      in completeContext (JObj [(''requestId'', get_prop source ''requestId''),
           (''correlationId'', correlationId), (''orderId'', get_prop source ''orderId''),
           (''messageId'', get_prop source ''messageId''), (''workerId'', workerId)]))"

text \<open>\<open>{ ...context, ...finalContext }\<close>\<close>

definition own_fields :: "jsval \<Rightarrow> (string \<times> jsval) list" where
  "own_fields v = (case v of JObj fs \<Rightarrow> fs | _ \<Rightarrow> [])"

definition spread_over :: "jsval \<Rightarrow> jsval \<Rightarrow> jsval" where
  "spread_over base over =
     JObj (fold (\<lambda>(k, v). put_prop k v) (own_fields over) (own_fields base))"

section \<open>Operations\<close>

record log_record =
  lr_level :: string
  lr_event :: string
  lr_context :: jsval
  lr_timestamp :: string
  lr_duration :: rat
  lr_status :: string
  lr_error :: "serialized_error option"

record telemetry =
  tl_metrics :: metrics
  tl_written :: "log_record list"

record operation =
  ot_event :: string
  ot_context :: jsval
  ot_startedAt :: rat
  ot_terminal :: "log_record option"

record finish_options =
  fo_status :: string
  fo_context :: jsval
  fo_counters :: "string list"
  fo_error :: "exn option"

text \<open>The two clocks, as read by one call.\<close>

record clocks =
  ck_monotonic :: rat
  ck_wall :: int

definition startOperation :: "clocks \<Rightarrow> string \<Rightarrow> jsval \<Rightarrow> operation" where
  "startOperation ck event context = \<lparr>ot_event = event, ot_context = context,
     ot_startedAt = ck_monotonic ck, ot_terminal = None\<rparr>"

fun increment_all :: "string list \<Rightarrow> metrics \<Rightarrow> metrics \<times> unit result" where
  "increment_all [] m = (m, Inr ())"
| "increment_all (c # cs) m = (case increment c JUndefined m of
      (m', Inl e) \<Rightarrow> (m', Inl e)
    | (m', Inr _) \<Rightarrow> increment_all cs m')"

definition safelyWrite :: "log_record \<Rightarrow> telemetry \<Rightarrow> telemetry" where
  "safelyWrite r t = t\<lparr>tl_written := tl_written t @ [r]\<rparr>"

definition finish ::
  "(jsval \<Rightarrow> string) \<Rightarrow> clocks \<Rightarrow> finish_options \<Rightarrow> operation \<times> telemetry
     \<Rightarrow> (operation \<times> telemetry) \<times> log_record result" where
  "finish str ck options s = (case s of (op, t) \<Rightarrow>
     (case ot_terminal op of
        Some r \<Rightarrow> ((op, t), Inr r)
      | None \<Rightarrow>
          (let duration = max 0 (ck_monotonic ck - ot_startedAt op) in
           (case increment_all (fo_counters options) (tl_metrics t) of
              (m1, Inl e) \<Rightarrow> ((op, t\<lparr>tl_metrics := m1\<rparr>), Inl e)
            | (m1, Inr _) \<Rightarrow>
                (case observe ''processing_duration'' (JNum (Fin duration)) m1 of
                   (m2, Inl e) \<Rightarrow> ((op, t\<lparr>tl_metrics := m2\<rparr>), Inl e)
                 | (m2, Inr _) \<Rightarrow>
                     (case to_iso_string (ck_wall ck) of
                        None \<Rightarrow> ((op, t\<lparr>tl_metrics := m2\<rparr>), Inl (range_error ''Invalid time value''))
                      | Some timestamp \<Rightarrow>
                          (let r = \<lparr>lr_level = (if fo_error options = None then ''info'' else ''error''),
                                 lr_event = ot_event op,
                                 lr_context = completeContext (spread_over (ot_context op) (fo_context options)),
                                 lr_timestamp = timestamp, lr_duration = duration,
                                 lr_status = fo_status options,
                                 lr_error = map_option (serializeError str) (fo_error options)\<rparr>
                           in ((op\<lparr>ot_terminal := Some r\<rparr>, safelyWrite r (t\<lparr>tl_metrics := m2\<rparr>)), Inr r))))))))"

text \<open>\<open>complete\<close> returns the record, \<open>fail\<close> its error; a thrown \<open>undefined\<close> is no error.\<close>

definition complete_operation ::
  "(jsval \<Rightarrow> string) \<Rightarrow> clocks \<Rightarrow> finish_options \<Rightarrow> operation \<times> telemetry
     \<Rightarrow> (operation \<times> telemetry) \<times> log_record result" where
  "complete_operation str ck options s = finish str ck options s"

definition fail_operation ::
  "(jsval \<Rightarrow> string) \<Rightarrow> clocks \<Rightarrow> exn \<Rightarrow> finish_options \<Rightarrow> operation \<times> telemetry
     \<Rightarrow> (operation \<times> telemetry) \<times> exn result" where
  "fail_operation str ck e options s =
     (case finish str ck (options\<lparr>fo_error := (if e = Thrown JUndefined then None else Some e)\<rparr>) s of
        (s', Inl e') \<Rightarrow> (s', Inl e')
      | (s', Inr _) \<Rightarrow> (s', Inr e))"

section \<open>The registry stays consistent\<close>

definition metrics_ok :: "metrics \<Rightarrow> bool" where
  "metrics_ok m \<longleftrightarrow> dom (mt_counters m) = set counterNames
     \<and> (\<forall>c n. mt_counters m c = Some n \<longrightarrow> 0 \<le> n)
     \<and> 0 \<le> mt_queueDepth m \<and> 0 \<le> mt_durationTotal m \<and> 0 \<le> mt_durationMaximum m
     \<and> mt_durationMaximum m \<le> mt_durationTotal m
     \<and> mt_durationTotal m \<le> of_nat (mt_durationCount m) * mt_durationMaximum m"

lemma assertMetricValue_Inr: "assertMetricValue v = Inr r \<longleftrightarrow> v = JNum (Fin r) \<and> 0 \<le> r"
  by (auto simp: assertMetricValue_def split: jsval.splits jsnum.splits)

lemma metrics_ok_initial: "metrics_ok createMetricsRegistry"
  by (auto simp: metrics_ok_def createMetricsRegistry_def counterNames_def dom_def split: if_splits)

lemma increment_ok [inv_intros]:
  assumes "metrics_ok m"
  shows "metrics_ok (fst (increment name amount m))"
proof -
  have "metrics_ok (m\<lparr>mt_counters := (mt_counters m)(name \<mapsto> n + a)\<rparr>)"
    if "mt_counters m name = Some n" "0 \<le> a" for n a
    using assms that unfolding metrics_ok_def by (auto simp: add_nonneg_nonneg)
  then show ?thesis using assms
    by (auto simp: increment_def assertMetricValue_Inr split: option.split sum.split)
qed

lemma setGauge_ok [inv_intros]: "metrics_ok m \<Longrightarrow> metrics_ok (fst (setGauge name v m))"
  by (auto simp: setGauge_def metrics_ok_def assertMetricValue_Inr split: sum.split)

lemma duration_bound:
  fixes t x v n :: rat
  assumes "t \<le> n * x" and "0 \<le> n" and "0 \<le> v"
  shows "t + v \<le> (1 + n) * max x v"
proof -
  have "n * x \<le> n * max x v" using assms(2) by (intro mult_left_mono) simp_all
  then show ?thesis using assms(1) by (simp add: distrib_right)
qed

lemma observe_ok [inv_intros]:
  assumes "metrics_ok m"
  shows "metrics_ok (fst (observe name v m))"
proof (cases "name = ''processing_duration'' \<and> (\<exists>r. assertMetricValue v = Inr r)")
  case True
  then obtain r where r: "assertMetricValue v = Inr r" "0 \<le> r" by (auto simp: assertMetricValue_Inr)
  have m: "mt_durationMaximum m \<le> mt_durationTotal m" "0 \<le> mt_durationTotal m" "0 \<le> mt_durationMaximum m"
    "mt_durationTotal m \<le> of_nat (mt_durationCount m) * mt_durationMaximum m"
    using assms by (simp_all add: metrics_ok_def)
  have "mt_durationTotal m + r \<le> (1 + of_nat (mt_durationCount m)) * max (mt_durationMaximum m) r"
    by (rule duration_bound) (use m(4) r(2) in simp_all)
  then show ?thesis
    using True r m assms unfolding observe_def metrics_ok_def by auto
next
  case False
  then show ?thesis using assms by (auto simp: observe_def split: sum.split)
qed

section \<open>The registry as a function of the accepted calls\<close>

datatype metric_call = Increment string jsval | SetGauge string jsval | Observe string jsval

fun metric_step :: "metric_call \<Rightarrow> metrics \<Rightarrow> metrics \<times> unit result" where
  "metric_step (Increment name v) m = increment name v m"
| "metric_step (SetGauge name v) m = setGauge name v m"
| "metric_step (Observe name v) m = observe name v m"

definition run_metrics :: "metric_call list \<Rightarrow> metrics" where
  "run_metrics calls = fold (\<lambda>c m. fst (metric_step c m)) calls createMetricsRegistry"

text \<open>What the registry accepts does not depend on its state: the amounts it takes in.\<close>

definition amounts_of :: "string \<Rightarrow> metric_call \<Rightarrow> rat list" where
  "amounts_of name c = (case c of
      Increment n v \<Rightarrow> (if n = name \<and> name \<in> set counterNames
        then (case assertMetricValue (if v = JUndefined then JNum (Fin 1) else v) of Inr a \<Rightarrow> [a] | Inl _ \<Rightarrow> [])
        else [])
    | _ \<Rightarrow> [])"

definition durations_of :: "metric_call \<Rightarrow> rat list" where
  "durations_of c = (case c of
      Observe n v \<Rightarrow> (if n = ''processing_duration''
        then (case assertMetricValue v of Inr a \<Rightarrow> [a] | Inl _ \<Rightarrow> []) else [])
    | _ \<Rightarrow> [])"

definition depths_of :: "metric_call \<Rightarrow> rat list" where
  "depths_of c = (case c of
      SetGauge n v \<Rightarrow> (if n = ''queue_depth''
        then (case assertMetricValue v of Inr a \<Rightarrow> [a] | Inl _ \<Rightarrow> []) else [])
    | _ \<Rightarrow> [])"

definition registry_of :: "metric_call list \<Rightarrow> metrics" where
  "registry_of calls =
     (let ds = concat (map durations_of calls) in
      \<lparr>mt_counters = (\<lambda>name. if name \<in> set counterNames
         then Some (sum_list (concat (map (amounts_of name) calls))) else None),
       mt_queueDepth = last (0 # concat (map depths_of calls)),
       mt_durationCount = length ds, mt_durationTotal = sum_list ds,
       mt_durationMaximum = foldl max 0 ds\<rparr>)"

lemma registry_step: "fst (metric_step c (registry_of calls)) = registry_of (calls @ [c])"
proof (cases c)
  case (Increment n v)
  then show ?thesis
    by (auto simp: increment_def registry_of_def amounts_of_def durations_of_def depths_of_def Let_def
        fun_eq_iff split: sum.split)
next
  case (SetGauge n v)
  then show ?thesis
    by (auto simp: setGauge_def registry_of_def amounts_of_def durations_of_def depths_of_def Let_def
        fun_eq_iff split: sum.split)
next
  case (Observe n v)
  then show ?thesis
    by (auto simp: observe_def registry_of_def amounts_of_def durations_of_def depths_of_def Let_def
        fun_eq_iff split: sum.split)
qed

lemma registry_initial: "createMetricsRegistry = registry_of []"
  by (auto simp: createMetricsRegistry_def registry_of_def counterNames_def fun_eq_iff)

lemma registry_fold:
  "fold (\<lambda>c m. fst (metric_step c m)) calls (registry_of done) = registry_of (done @ calls)"
  by (induction calls arbitrary: "done") (simp_all add: registry_step)

lemma run_metrics_registry: "run_metrics calls = registry_of calls"
  unfolding run_metrics_def registry_initial registry_fold by simp

lemma run_metrics_ok: "metrics_ok (run_metrics calls)"
proof -
  have "metrics_ok (fst (metric_step c m))" if "metrics_ok m" for c m
    using that by (cases c) (auto intro: inv_intros)
  then have "metrics_ok m \<Longrightarrow> metrics_ok (fold (\<lambda>c m. fst (metric_step c m)) calls m)" for m
    by (induction calls arbitrary: m) auto
  from this [OF metrics_ok_initial] show ?thesis unfolding run_metrics_def .
qed

section \<open>Finishing an operation\<close>

lemma increment_all_known:
  assumes "metrics_ok m" and "set cs \<subseteq> set counterNames"
  shows "\<exists>m'. increment_all cs m = (m', Inr ()) \<and> metrics_ok m'
    \<and> (\<forall>c n. mt_counters m c = Some n \<longrightarrow> mt_counters m' c = Some (n + of_nat (count_list cs c)))
    \<and> mt_queueDepth m' = mt_queueDepth m \<and> mt_durationCount m' = mt_durationCount m
    \<and> mt_durationTotal m' = mt_durationTotal m \<and> mt_durationMaximum m' = mt_durationMaximum m"
  using assms
proof (induction cs arbitrary: m)
  case (Cons c cs)
  obtain n where n: "mt_counters m c = Some n"
    using Cons.prems unfolding metrics_ok_def by (metis domD insert_subset list.set(2))
  let ?m = "m\<lparr>mt_counters := (mt_counters m)(c \<mapsto> n + 1)\<rparr>"
  have step: "increment c JUndefined m = (?m, Inr ())"
    using n by (simp add: increment_def assertMetricValue_def)
  have "metrics_ok ?m" using increment_ok [OF Cons.prems(1), of c JUndefined] step by simp
  then obtain m' where m': "increment_all cs ?m = (m', Inr ())" "metrics_ok m'"
    "\<And>c' n'. mt_counters ?m c' = Some n' \<Longrightarrow> mt_counters m' c' = Some (n' + of_nat (count_list cs c'))"
    "mt_queueDepth m' = mt_queueDepth m" "mt_durationCount m' = mt_durationCount m"
    "mt_durationTotal m' = mt_durationTotal m" "mt_durationMaximum m' = mt_durationMaximum m"
    using Cons.IH [of ?m] Cons.prems(2) by auto
  have "mt_counters m' c' = Some (n' + of_nat (count_list (c # cs) c'))" if "mt_counters m c' = Some n'" for c' n'
    using m'(3) [of c'] that n by (cases "c' = c") auto
  then show ?case using m' step by auto
qed simp

lemma finish_first:
  assumes "metrics_ok (tl_metrics t)" and "ot_terminal op = None"
    and "set (fo_counters options) \<subseteq> set counterNames" and "\<bar>ck_wall ck\<bar> \<le> MAX_TIME"
  shows "\<exists>op' t' r. finish str ck options (op, t) = ((op', t'), Inr r)
    \<and> tl_written t' = tl_written t @ [r] \<and> 0 \<le> lr_duration r \<and> lr_status r = fo_status options
    \<and> lr_level r = (if fo_error options = None then ''info'' else ''error'') \<and> metrics_ok (tl_metrics t')
    \<and> mt_durationCount (tl_metrics t') = mt_durationCount (tl_metrics t) + 1
    \<and> (\<forall>c n. mt_counters (tl_metrics t) c = Some n \<longrightarrow>
         mt_counters (tl_metrics t') c = Some (n + of_nat (count_list (fo_counters options) c)))
    \<and> (\<forall>ck' options' t''. finish str ck' options' (op', t'') = ((op', t''), Inr r))"
proof -
  obtain m1 where m1: "increment_all (fo_counters options) (tl_metrics t) = (m1, Inr ())" "metrics_ok m1"
    "\<forall>c n. mt_counters (tl_metrics t) c = Some n \<longrightarrow>
       mt_counters m1 c = Some (n + of_nat (count_list (fo_counters options) c))"
    "mt_durationCount m1 = mt_durationCount (tl_metrics t)"
    using increment_all_known [OF assms(1,3)] by blast
  define d where "d = max 0 (ck_monotonic ck - ot_startedAt op)"
  have d: "0 \<le> d" by (simp add: d_def)
  obtain m2 where m2: "observe ''processing_duration'' (JNum (Fin d)) m1 = (m2, Inr ())" "metrics_ok m2"
    "mt_durationCount m2 = mt_durationCount m1 + 1" "mt_counters m2 = mt_counters m1"
    using d observe_ok [OF m1(2), of "''processing_duration''" "JNum (Fin d)"]
    by (simp add: observe_def assertMetricValue_def)
  obtain stamp where "to_iso_string (ck_wall ck) = Some stamp"
    using assms(4) to_iso_string_valid by blast
  then show ?thesis
    using assms(2) m1 m2 d
    by (simp add: finish_def d_def [symmetric] Let_def safelyWrite_def)
qed

section \<open>Properties\<close>

text \<open>
  The registry reports the accepted calls.  After any sequence of calls, rejected
  ones included, every declared counter is the sum of its accepted amounts, the
  queue depth is the last accepted gauge, and the durations are the count, sum and
  maximum of the accepted observations; no undeclared counter exists, nothing is
  negative, and the average lies between zero and the maximum.
\<close>

theorem metrics_report_accepted_calls:
  "run_metrics calls = registry_of calls
   \<and> metrics_ok (run_metrics calls)
   \<and> 0 \<le> ms_duration_average (metrics_view (run_metrics calls))
   \<and> ms_duration_average (metrics_view (run_metrics calls)) \<le> ms_duration_maximum (metrics_view (run_metrics calls))"
proof -
  note ok = run_metrics_ok [of calls]
  have "0 \<le> mt_durationTotal (run_metrics calls)" "0 \<le> mt_durationMaximum (run_metrics calls)"
    "mt_durationTotal (run_metrics calls)
       \<le> of_nat (mt_durationCount (run_metrics calls)) * mt_durationMaximum (run_metrics calls)"
    using ok by (simp_all add: metrics_ok_def)
  then show ?thesis
    using ok run_metrics_registry [of calls]
    by (auto simp: metrics_view_def divide_le_eq mult.commute)
qed

text \<open>
  An operation finishes exactly once.  With declared counters and a valid wall clock the first
  \<open>complete\<close> or \<open>fail\<close> counts each counter once, observes one nonnegative duration and writes
  one record; from then on every further call returns that record and changes
  nothing, whatever its options and clocks.
\<close>

theorem operation_finishes_once:
  assumes "metrics_ok (tl_metrics t)" and "ot_terminal op = None"
    and "set (fo_counters options) \<subseteq> set counterNames" and "\<bar>ck_wall ck\<bar> \<le> MAX_TIME"
  shows "\<exists>op' t' r. finish str ck options (op, t) = ((op', t'), Inr r)
    \<and> tl_written t' = tl_written t @ [r] \<and> 0 \<le> lr_duration r \<and> lr_status r = fo_status options
    \<and> lr_level r = (if fo_error options = None then ''info'' else ''error'') \<and> metrics_ok (tl_metrics t')
    \<and> mt_durationCount (tl_metrics t') = mt_durationCount (tl_metrics t) + 1
    \<and> (\<forall>c n. mt_counters (tl_metrics t) c = Some n \<longrightarrow>
         mt_counters (tl_metrics t') c = Some (n + of_nat (count_list (fo_counters options) c)))
    \<and> (\<forall>ck' options' t''. finish str ck' options' (op', t'') = ((op', t''), Inr r))"
  by (rule finish_first [OF assms])

definition sample_operation :: operation where
  "sample_operation = startOperation \<lparr>ck_monotonic = 10, ck_wall = 0\<rparr> ''order.create'' (completeContext JUndefined)"

definition sample_options :: finish_options where
  "sample_options = \<lparr>fo_status = ''FAILED'', fo_context = JUndefined,
     fo_counters = [''orders_failed_total''], fo_error = Some OrderValidationError\<rparr>"

theorem operation_finishes_once_witness:
  "\<exists>op' t' r. finish js_str \<lparr>ck_monotonic = 12, ck_wall = 5\<rparr> sample_options
      (sample_operation, \<lparr>tl_metrics = createMetricsRegistry, tl_written = []\<rparr>) = ((op', t'), Inr r)
    \<and> tl_written t' = [r] \<and> mt_counters (tl_metrics t') ''orders_failed_total'' = Some 1"
proof -
  let ?t = "\<lparr>tl_metrics = createMetricsRegistry, tl_written = []\<rparr>"
  have "metrics_ok (tl_metrics ?t)" "ot_terminal sample_operation = None"
    "set (fo_counters sample_options) \<subseteq> set counterNames" "\<bar>ck_wall \<lparr>ck_monotonic = 12, ck_wall = 5\<rparr>\<bar> \<le> MAX_TIME"
    by (simp_all add: metrics_ok_initial sample_operation_def startOperation_def sample_options_def
      counterNames_def MAX_TIME_def)
  from operation_finishes_once [OF this, of js_str] obtain op' t' r where
    run: "finish js_str \<lparr>ck_monotonic = 12, ck_wall = 5\<rparr> sample_options (sample_operation, ?t) = ((op', t'), Inr r)"
    and w: "tl_written t' = tl_written ?t @ [r]"
    and c: "\<forall>c n. mt_counters (tl_metrics ?t) c = Some n \<longrightarrow>
         mt_counters (tl_metrics t') c = Some (n + of_nat (count_list (fo_counters sample_options) c))"
    by blast
  have "mt_counters (tl_metrics ?t) ''orders_failed_total'' = Some 0"
    by (simp add: createMetricsRegistry_def counterNames_def)
  with c have "mt_counters (tl_metrics t') ''orders_failed_total'' = Some 1"
    by (force simp: sample_options_def)
  then show ?thesis using run w by auto
qed

end
