(* ===== verification/Order_Service.thy ===== *)
theory Order_Service
  imports Order_Requests Order_Events Observability Repositories "HOL-Library.Multiset"
begin

text \<open>
  \<open>createOrderService\<close> of \<open>apps/api/src/create-order.js\<close>.  One step of a call is the
  code up to the effect of its next awaited operation, so a system of calls that
  advance in any order is every interleaving of concurrent requests on the shared
  database and queue.  The dependencies are functions of a world; the
  locale \<open>order_calls\<close> states what the service relies on, and it is
  interpreted on the repositories over the tables with the local queue and metrics.
\<close>

section \<open>One call\<close>

record 's order_deps =
  od_findById :: "string \<Rightarrow> ('s, product option) action"
  od_findByIdempotencyKey :: "string \<Rightarrow> ('s, idempotency_record option) action"
  od_createIdempotent :: "new_order \<Rightarrow> string option \<Rightarrow> ('s, idempotency_record option) action"
  od_idGenerator :: "('s, string) action"
  od_increment :: "string \<Rightarrow> ('s, unit) action"
  od_publish :: "order \<Rightarrow> jsval \<Rightarrow> 's \<Rightarrow> 's \<times> publish_outcome"

text \<open>
  \<open>OrderLookup\<close>, \<open>OrderProduct\<close>, \<open>OrderInsert\<close>: about to run the statement of
  \<open>findByIdempotencyKey\<close>, \<open>findById\<close>, \<open>createIdempotent\<close>.  \<open>OrderCreated\<close>: the insert
  won.  \<open>OrderPublishing\<close>: suspended on a pending \<open>publish\<close>.
\<close>

datatype order_pc =
    OrderLookup
  | OrderProduct
  | OrderInsert
  | OrderCreated order
  | OrderPublishing order
  | OrderSettled "order result"

definition start_order :: "jsval \<Rightarrow> order_pc" where
  "start_order input = (case validateOrderInput input of
      Inl e \<Rightarrow> OrderSettled (Inl e)
    | Inr _ \<Rightarrow> OrderLookup)"

text \<open>Reading \<open>created\<close> of a \<open>null\<close> result throws.\<close>

definition order_step ::
  "'s order_deps \<Rightarrow> (string \<Rightarrow> string) \<Rightarrow> jsval \<Rightarrow> order_pc \<Rightarrow> 's \<Rightarrow> 's \<times> order_pc" where
  "order_step deps sha256 input pc s =
     (let rq = request_of input; fp = request_fingerprint sha256 rq in
      case pc of
        OrderLookup \<Rightarrow> (case od_findByIdempotencyKey deps (rq_idempotencyKey rq) s of
            (s', Inl e) \<Rightarrow> (s', OrderSettled (Inl e))
          | (s', Inr (Some r)) \<Rightarrow> (s', OrderSettled (resolveIdempotentOrder sha256 r fp))
          | (s', Inr None) \<Rightarrow> (s', OrderProduct))
      | OrderProduct \<Rightarrow> (case od_findById deps (rq_productId rq) s of
            (s', Inl e) \<Rightarrow> (s', OrderSettled (Inl e))
          | (s', Inr None) \<Rightarrow> (s', OrderSettled (Inl ProductNotFoundError))
          | (s', Inr (Some p)) \<Rightarrow>
              if p_stock p < rq_quantity rq then (s', OrderSettled (Inl OrderInsufficientInventoryError))
              else (s', OrderInsert))
      | OrderInsert \<Rightarrow> (case then_do (od_idGenerator deps)
              (\<lambda>i. od_createIdempotent deps (new_order_of i rq) (Some fp)) s of
            (s', Inl e) \<Rightarrow> (s', OrderSettled (Inl e))
          | (s', Inr None) \<Rightarrow> (s', OrderSettled (Inl no_row))
          | (s', Inr (Some r)) \<Rightarrow>
              if \<not> ir_created r then (s', OrderSettled (resolveIdempotentOrder sha256 r fp))
              else (s', OrderCreated (ir_order r)))
      | OrderCreated ord \<Rightarrow> (case od_increment deps ''orders_created_total'' s of
            (s', Inl e) \<Rightarrow> (s', OrderSettled (Inl e))
          | (s', Inr _) \<Rightarrow> (case od_publish deps ord (rq_context rq) s' of
                (s'', PubResolved) \<Rightarrow> (s'', OrderSettled (Inr ord))
              | (s'', PubRejected e) \<Rightarrow> (s'', OrderSettled (Inl e))
              | (s'', PubWaiting) \<Rightarrow> (s'', OrderPublishing ord)))
      | _ \<Rightarrow> (s, pc))"

definition publish_settled :: "exn option \<Rightarrow> order_pc \<Rightarrow> order_pc" where
  "publish_settled outcome pc = (case pc of
      OrderPublishing ord \<Rightarrow> OrderSettled (case outcome of None \<Rightarrow> Inr ord | Some e \<Rightarrow> Inl e)
    | _ \<Rightarrow> pc)"

text \<open>A call that runs with nothing in between: it is over after four steps or waits for the queue.\<close>

definition createOrderAlone ::
  "'s order_deps \<Rightarrow> (string \<Rightarrow> string) \<Rightarrow> jsval \<Rightarrow> 's \<Rightarrow> 's \<times> order_pc" where
  "createOrderAlone deps sha256 input s =
     ((\<lambda>(s, pc). order_step deps sha256 input pc s) ^^ 4) (s, start_order input)"

fun call_over :: "order_pc \<Rightarrow> bool" where
  "call_over (OrderSettled r) = True"
| "call_over (OrderPublishing ord) = True"
| "call_over _ = False"

fun call_rank :: "order_pc \<Rightarrow> nat" where
  "call_rank OrderLookup = 4"
| "call_rank OrderProduct = 3"
| "call_rank OrderInsert = 2"
| "call_rank (OrderCreated ord) = 1"
| "call_rank _ = 0"

lemma call_over_rank: "call_over pc \<longleftrightarrow> call_rank pc = 0"
  by (cases pc) auto

lemma order_step_rank: "call_rank (snd (order_step deps sha256 input pc s)) \<le> call_rank pc - 1"
  by (cases pc)
    (auto simp: order_step_def Let_def split: prod.split sum.split option.split publish_outcome.split)

lemma order_steps_rank:
  "call_rank (snd (((\<lambda>(s, pc). order_step deps sha256 input pc s) ^^ n) (s, pc))) \<le> call_rank pc - n"
proof (induction n)
  case (Suc n)
  obtain s' pc' where run: "((\<lambda>(s, pc). order_step deps sha256 input pc s) ^^ n) (s, pc) = (s', pc')"
    by force
  have "call_rank (snd (order_step deps sha256 input pc' s')) \<le> call_rank pc' - 1"
    by (rule order_step_rank)
  then show ?case using Suc.IH run by simp
qed simp

lemma createOrderAlone_over: "call_over (snd (createOrderAlone deps sha256 input s))"
proof -
  have "call_rank (start_order input) \<le> 4" by (simp add: start_order_def split: sum.split)
  moreover have "call_rank (snd (createOrderAlone deps sha256 input s)) \<le> call_rank (start_order input) - 4"
    unfolding createOrderAlone_def by (rule order_steps_rank)
  ultimately show ?thesis unfolding call_over_rank by linarith
qed

lemma order_step_over: "call_over pc \<Longrightarrow> order_step deps sha256 input pc s = (s, pc)"
  by (cases pc) (simp_all add: order_step_def Let_def)

lemma createOrderAlone_steps:
  assumes "validateOrderInput input = Inr u"
    and "order_step deps sha256 input OrderLookup s = (s1, pc1)"
    and "order_step deps sha256 input pc1 s1 = (s2, pc2)"
    and "order_step deps sha256 input pc2 s2 = (s3, pc3)"
    and "order_step deps sha256 input pc3 s3 = (s4, pc4)"
  shows "createOrderAlone deps sha256 input s = (s4, pc4)"
  using assms by (simp add: createOrderAlone_def start_order_def eval_nat_numeral)

lemma createOrderAlone_first:
  assumes "validateOrderInput input = Inr u"
    and "order_step deps sha256 input OrderLookup s = (s1, pc1)" and "call_over pc1"
  shows "createOrderAlone deps sha256 input s = (s1, pc1)"
  using createOrderAlone_steps [OF assms(1,2)] assms(3) by (simp add: order_step_over)

lemma createOrderAlone_early:
  assumes "validateOrderInput input = Inr u"
    and "order_step deps sha256 input OrderLookup s = (s1, OrderProduct)"
    and "order_step deps sha256 input OrderProduct s1 = (s2, pc2)" and "call_over pc2"
  shows "createOrderAlone deps sha256 input s = (s2, pc2)"
  using createOrderAlone_steps [OF assms(1-3)] assms(4) by (simp add: order_step_over)

section \<open>Concurrent calls\<close>

record 's order_system =
  os_world :: 's
  os_calls :: "(jsval \<times> order_pc) list"
  os_published :: "order list"

datatype order_event = Advance nat | PublishSettles nat "exn option"

text \<open>The order whose event the queue took in with this step, if it did.\<close>

definition published_by :: "order_pc \<Rightarrow> order_pc \<Rightarrow> order list" where
  "published_by pc pc' = (case pc of
      OrderCreated ord \<Rightarrow> if pc' = OrderSettled (Inr ord) \<or> pc' = OrderPublishing ord then [ord] else []
    | _ \<Rightarrow> [])"

fun order_system_step ::
  "'s order_deps \<Rightarrow> (string \<Rightarrow> string) \<Rightarrow> order_event \<Rightarrow> 's order_system \<Rightarrow> 's order_system option" where
  "order_system_step deps sha256 (Advance i) sys =
     (if i < length (os_calls sys) then
        (let (input, pc) = os_calls sys ! i;
             (w, pc') = order_step deps sha256 input pc (os_world sys)
         in Some \<lparr>os_world = w, os_calls = (os_calls sys)[i := (input, pc')],
                  os_published = os_published sys @ published_by pc pc'\<rparr>)
      else None)"
| "order_system_step deps sha256 (PublishSettles i outcome) sys =
     (if i < length (os_calls sys) then
        (let (input, pc) = os_calls sys ! i
         in Some (sys\<lparr>os_calls := (os_calls sys)[i := (input, publish_settled outcome pc)]\<rparr>))
      else None)"

definition order_system_start :: "'s \<Rightarrow> jsval list \<Rightarrow> 's order_system" where
  "order_system_start w inputs = \<lparr>os_world = w,
     os_calls = map (\<lambda>input. (input, start_order input)) inputs, os_published = []\<rparr>"

inductive order_reachable ::
  "'s order_deps \<Rightarrow> (string \<Rightarrow> string) \<Rightarrow> 's \<Rightarrow> jsval list \<Rightarrow> 's order_system \<Rightarrow> bool"
  for deps sha256 w inputs where
  order_start: "order_reachable deps sha256 w inputs (order_system_start w inputs)"
| order_next: "order_reachable deps sha256 w inputs sys \<Longrightarrow>
    order_system_step deps sha256 ev sys = Some sys' \<Longrightarrow> order_reachable deps sha256 w inputs sys'"

definition key_of :: "jsval \<Rightarrow> string" where
  "key_of input = rq_idempotencyKey (request_of input)"

definition pending_order :: "jsval \<times> order_pc \<Rightarrow> order list" where
  "pending_order call = (case snd call of OrderCreated ord \<Rightarrow> [ord] | _ \<Rightarrow> [])"

definition pending_orders :: "(jsval \<times> order_pc) list \<Rightarrow> order list" where
  "pending_orders calls = concat (map pending_order calls)"

lemma mset_pending_update:
  assumes "i < length calls"
  shows "mset (pending_orders (calls[i := c])) + mset (pending_order (calls ! i))
    = mset (pending_orders calls) + mset (pending_order c)"
  using assms
proof (induction calls arbitrary: i)
  case (Cons x xs)
  show ?case
  proof (cases i)
    case (Suc j)
    then show ?thesis using Cons.IH [of j] Cons.prems by (simp add: pending_orders_def ac_simps)
  qed (simp add: pending_orders_def)
qed simp

text \<open>What a call in a given state says about the stored orders.\<close>

definition call_ok :: "(string \<Rightarrow> string) \<Rightarrow> (string \<rightharpoonup> stored_order) \<Rightarrow> jsval \<times> order_pc \<Rightarrow> bool" where
  "call_ok sha256 st call = (case call of (input, pc) \<Rightarrow>
     (case pc of
        OrderCreated ord \<Rightarrow> st (key_of input) = Some (ord, Some (request_fingerprint sha256 (request_of input)))
      | OrderPublishing ord \<Rightarrow> st (key_of input) = Some (ord, Some (request_fingerprint sha256 (request_of input)))
      | OrderSettled (Inr ord) \<Rightarrow> (\<exists>f. st (key_of input) = Some (ord, f)
          \<and> stored_fingerprint sha256 (record_of False (ord, f)) = request_fingerprint sha256 (request_of input))
      | _ \<Rightarrow> True))"

lemma call_ok_mono:
  assumes "call_ok sha256 st call" and "st \<subseteq>\<^sub>m st'"
  shows "call_ok sha256 st' call"
proof -
  note keep = map_le_Some [OF assms(2)]
  show ?thesis
    using assms(1) keep unfolding call_ok_def
    by (auto split: prod.splits order_pc.splits sum.splits)
qed

lemma resolve_Inr:
  "resolveIdempotentOrder sha256 r fp = Inr ord \<longleftrightarrow> ord = ir_order r \<and> stored_fingerprint sha256 r = fp"
  by (auto simp: resolveIdempotentOrder_def)

section \<open>What the service relies on\<close>

locale order_calls = idempotent_store "od_findByIdempotencyKey deps" "od_createIdempotent deps" stored ok
  for deps :: "'s order_deps" and stored and ok +
  assumes findById_keeps: "ok s \<Longrightarrow> ok (fst (od_findById deps i s))
      \<and> stored (fst (od_findById deps i s)) = stored s"
    and idGenerator_keeps: "ok s \<Longrightarrow> ok (fst (od_idGenerator deps s))
      \<and> stored (fst (od_idGenerator deps s)) = stored s"
    and increment_keeps: "ok s \<Longrightarrow> ok (fst (od_increment deps c s))
      \<and> stored (fst (od_increment deps c s)) = stored s"
    and publish_keeps: "ok s \<Longrightarrow> ok (fst (od_publish deps ord ctx s))
      \<and> stored (fst (od_publish deps ord ctx s)) = stored s"
begin

lemma insert_cases:
  assumes "ok s" and "od_createIdempotent deps o' fp s = (s', Inr x)"
  obtains (existing) so where "stored s (no_idempotencyKey o') = Some so" "x = Some (record_of False so)" "s' = s"
  | (inserted) ord where "stored s (no_idempotencyKey o') = None" "x = Some (record_of True (ord, fp))"
      "ord_idempotencyKey ord = no_idempotencyKey o'"
      "stored s' = (stored s)(no_idempotencyKey o' \<mapsto> (ord, fp))"
  using create_returns [OF assms] by (auto simp: stores_request_def split: option.splits)

text \<open>One step: nothing stored is lost, and the call's state is justified by the store.\<close>

lemma order_step_cases:
  assumes ok: "ok s" and step: "order_step deps sha256 input pc s = (s', pc')"
    and call: "call_ok sha256 (stored s) (input, pc)"
  obtains (created) ord where "pc = OrderInsert" "pc' = OrderCreated ord" "ok s'"
      "stored s (key_of input) = None" "ord_idempotencyKey ord = key_of input"
      "stored s' = (stored s)(key_of input \<mapsto> (ord, Some (request_fingerprint sha256 (request_of input))))"
  | (same) "ok s'" "stored s' = stored s" "call_ok sha256 (stored s) (input, pc')"
      "pending_order (input, pc') @ published_by pc pc' = [] \<or>
       pending_order (input, pc') @ published_by pc pc' = pending_order (input, pc)"
proof (cases pc)
  case OrderLookup
  obtain r where r: "od_findByIdempotencyKey deps (key_of input) s = (s, r)"
    and x: "\<And>x. r = Inr x \<Longrightarrow> x = map_option (record_of False) (stored s (key_of input))"
    using find_key_reads [OF ok] by (metis prod.collapse)
  have out: "s' = s" "pc' = (case r of Inl e \<Rightarrow> OrderSettled (Inl e)
      | Inr (Some rr) \<Rightarrow> OrderSettled (resolveIdempotentOrder sha256 rr (request_fingerprint sha256 (request_of input)))
      | Inr None \<Rightarrow> OrderProduct)"
    using step r by (auto simp: order_step_def OrderLookup key_of_def Let_def split: sum.splits option.splits)
  have "call_ok sha256 (stored s) (input, pc')"
    unfolding out(2) call_ok_def using x
    by (auto simp: resolve_Inr record_of_def map_option_case split: sum.splits option.splits)
  then show thesis
    using same ok out OrderLookup
    by (auto simp: pending_order_def published_by_def split: sum.splits option.splits)
next
  case OrderProduct
  obtain s1 r where r: "od_findById deps (rq_productId (request_of input)) s = (s1, r)" by force
  have s1: "ok s1" "stored s1 = stored s" using findById_keeps [OF ok] r by (metis fst_conv)+
  have out: "s' = s1" "pc' = OrderInsert \<or> (\<exists>e. pc' = OrderSettled (Inl e))"
    using step r by (auto simp: order_step_def OrderProduct Let_def split: sum.splits option.splits if_splits)
  then show thesis
    using same s1 OrderProduct by (auto simp: call_ok_def pending_order_def published_by_def)
next
  case OrderInsert
  let ?rq = "request_of input"
  let ?fp = "request_fingerprint sha256 ?rq"
  obtain s1 i where i: "od_idGenerator deps s = (s1, i)" by force
  have s1: "ok s1" "stored s1 = stored s" using idGenerator_keeps [OF ok] i by (metis fst_conv)+
  show thesis
  proof (cases i)
    case (Inl e)
    then show thesis
      using step i same s1 OrderInsert
      by (auto simp: order_step_def Let_def call_ok_def pending_order_def published_by_def)
  next
    case (Inr i')
    let ?o = "new_order_of i' ?rq"
    have key: "no_idempotencyKey ?o = key_of input" by (simp add: new_order_of_def key_of_def)
    obtain s2 r where r: "od_createIdempotent deps ?o (Some ?fp) s1 = (s2, r)" by force
    have s2: "ok s2" using create_ok [OF s1(1)] r by (metis fst_conv)
    show thesis
    proof (cases r)
      case (Inl e)
      then have "s2 = s1" using create_throws [OF s1(1)] r by blast
      then show thesis
        using step i Inr r Inl same s1 OrderInsert
        by (auto simp: order_step_def Let_def call_ok_def pending_order_def published_by_def)
    next
      case rr: (Inr x)
      from s1(1) r [unfolded rr] show thesis
      proof (cases rule: insert_cases)
        case (existing so)
        then have "s' = s2" "pc' = OrderSettled (resolveIdempotentOrder sha256 (record_of False so) ?fp)"
          using step i Inr r rr OrderInsert by (simp_all add: order_step_def Let_def record_of_def)
        then show thesis
          using same existing s1 key
          by (cases so) (auto simp: call_ok_def resolve_Inr record_of_def pending_order_def published_by_def
              OrderInsert split: sum.splits)
      next
        case (inserted ord)
        then have "s' = s2" "pc' = OrderCreated ord"
          using step i Inr r rr OrderInsert by (simp_all add: order_step_def Let_def record_of_def)
        then show thesis using created [OF OrderInsert] inserted s1 s2 key by simp
      qed
    qed
  qed
next
  case (OrderCreated ord)
  obtain s1 m where m: "od_increment deps ''orders_created_total'' s = (s1, m)" by force
  have s1: "ok s1" "stored s1 = stored s" using increment_keeps [OF ok] m by (metis fst_conv)+
  obtain s2 r where r: "od_publish deps ord (rq_context (request_of input)) s1 = (s2, r)" by force
  have s2: "ok s2" "stored s2 = stored s" using publish_keeps [OF s1(1)] r s1(2) by (metis fst_conv)+
  show thesis
    using step m r same s1 s2 call OrderCreated
    by (cases m; cases r)
      (auto simp: order_step_def Let_def call_ok_def pending_order_def published_by_def
        stored_fingerprint_def record_of_def)
next
  case (OrderPublishing ord)
  then show thesis
    using step same ok call by (auto simp: order_step_def Let_def pending_order_def published_by_def)
next
  case (OrderSettled r)
  then show thesis
    using step same ok call by (auto simp: order_step_def Let_def pending_order_def published_by_def)
qed

text \<open>
  The invariant of a system of calls: nothing that was stored is lost, every call
  is justified by the store, and the orders whose event is due or out have
  distinct keys that were free at the start.
\<close>

definition orders_inv :: "(string \<Rightarrow> string) \<Rightarrow> 's \<Rightarrow> 's order_system \<Rightarrow> bool" where
  "orders_inv sha256 w sys \<longleftrightarrow> ok (os_world sys) \<and> stored w \<subseteq>\<^sub>m stored (os_world sys)
     \<and> (\<forall>call\<in>set (os_calls sys). call_ok sha256 (stored (os_world sys)) call)
     \<and> distinct (map ord_idempotencyKey (pending_orders (os_calls sys) @ os_published sys))
     \<and> (\<forall>ord\<in>set (pending_orders (os_calls sys) @ os_published sys).
          stored w (ord_idempotencyKey ord) = None
          \<and> (\<exists>f. stored (os_world sys) (ord_idempotencyKey ord) = Some (ord, f)))"

lemma orders_inv_start: "ok w \<Longrightarrow> orders_inv sha256 w (order_system_start w inputs)"
proof -
  have "pending_order (input, start_order input) = []" for input
    by (simp add: pending_order_def start_order_def split: sum.split)
  then have "pending_orders (map (\<lambda>input. (input, start_order input)) inputs) = []"
    by (simp add: pending_orders_def)
  moreover have "call_ok sha256 st (input, start_order input)" for st input
    by (simp add: call_ok_def start_order_def split: sum.split)
  ultimately show "ok w \<Longrightarrow> orders_inv sha256 w (order_system_start w inputs)"
    by (auto simp: orders_inv_def order_system_start_def)
qed

text \<open>The due and published orders only lose elements, apart from the order just created.\<close>

lemma distinct_keys_sub:
  assumes "mset xs \<subseteq># mset ys" and "distinct (map ord_idempotencyKey ys)"
  shows "distinct (map ord_idempotencyKey xs) \<and> set xs \<subseteq> set ys"
proof -
  obtain zs where "mset ys = mset (xs @ zs)"
    using assms(1) by (metis ex_mset mset_append subset_mset.add_diff_inverse)
  then have "mset (map ord_idempotencyKey ys) = mset (map ord_idempotencyKey (xs @ zs))"
    by (simp only: mset_map)
  then have "distinct (map ord_idempotencyKey (xs @ zs))"
    using assms(2) mset_eq_imp_distinct_iff by blast
  moreover have "set xs \<subseteq> set ys" using set_mset_mono [OF assms(1)] by simp
  ultimately show ?thesis by simp
qed

lemma orders_inv_step:
  assumes inv: "orders_inv sha256 w sys" and step: "order_system_step deps sha256 ev sys = Some sys'"
  shows "orders_inv sha256 w sys'"
proof (cases ev)
  case (PublishSettles i outcome)
  obtain input pc where c: "os_calls sys ! i = (input, pc)" by force
  have i: "i < length (os_calls sys)"
    using step unfolding PublishSettles by (auto split: if_splits)
  have sys': "sys' = sys\<lparr>os_calls := (os_calls sys)[i := (input, publish_settled outcome pc)]\<rparr>"
    using step i c by (simp add: PublishSettles)
  have old: "call_ok sha256 (stored (os_world sys)) (input, pc)"
    using inv i c nth_mem [OF i] by (auto simp: orders_inv_def)
  then have new: "call_ok sha256 (stored (os_world sys)) (input, publish_settled outcome pc)"
    by (auto simp: call_ok_def publish_settled_def stored_fingerprint_def record_of_def
        split: order_pc.splits option.splits)
  have "pending_order (input, publish_settled outcome pc) = pending_order (input, pc)"
    by (auto simp: pending_order_def publish_settled_def split: order_pc.splits)
  then have "mset (pending_orders (os_calls sys')) = mset (pending_orders (os_calls sys))"
    using mset_pending_update [OF i, of "(input, publish_settled outcome pc)"] by (simp add: sys' c)
  then have "mset (pending_orders (os_calls sys') @ os_published sys')
      \<subseteq># mset (pending_orders (os_calls sys) @ os_published sys)" by (simp add: sys')
  from distinct_keys_sub [OF this] show ?thesis
    using inv new unfolding orders_inv_def sys'
    by (auto dest!: set_update_subset_insert [THEN subsetD])
next
  case (Advance i)
  obtain input pc where c: "os_calls sys ! i = (input, pc)" by force
  obtain s' pc' where run: "order_step deps sha256 input pc (os_world sys) = (s', pc')" by force
  have i: "i < length (os_calls sys)"
    using step unfolding Advance by (auto split: if_splits)
  have sys': "sys' = \<lparr>os_world = s', os_calls = (os_calls sys)[i := (input, pc')],
      os_published = os_published sys @ published_by pc pc'\<rparr>"
    using step i c run by (simp add: Advance)
  note calls = set_update_subset_insert [of "os_calls sys" i "(input, pc')", THEN subsetD]
  have ok: "ok (os_world sys)" and old: "call_ok sha256 (stored (os_world sys)) (input, pc)"
    using inv c nth_mem [OF i] by (auto simp: orders_inv_def)
  let ?due = "pending_orders (os_calls sys) @ os_published sys"
  let ?due' = "pending_orders (os_calls sys') @ os_published sys'"
  have due: "mset ?due' + mset (pending_order (input, pc))
      = mset ?due + mset (pending_order (input, pc') @ published_by pc pc')"
    using mset_pending_update [OF i, of "(input, pc')"] by (simp add: sys' c)
  have due_old: "stored w (ord_idempotencyKey x) = None
      \<and> (\<exists>f. stored (os_world sys) (ord_idempotencyKey x) = Some (x, f))" if "x \<in> set ?due" for x
    using inv that unfolding orders_inv_def by blast
  from ok run old show ?thesis
  proof (cases rule: order_step_cases)
    case (created ord)
    have mono: "stored (os_world sys) \<subseteq>\<^sub>m stored s'"
      using created(4,6) by (auto simp: map_le_def)
    have "pending_order (input, pc) = []" "pending_order (input, pc') @ published_by pc pc' = [ord]"
      using created(1,2) by (simp_all add: pending_order_def published_by_def)
    then have perm: "mset ?due' = mset (ord # ?due)" using due by simp
    have new: "call_ok sha256 (stored s') (input, pc')"
      using created(2,6) by (simp add: call_ok_def)
    have free: "ord_idempotencyKey ord \<notin> set (map ord_idempotencyKey ?due)"
    proof
      assume "ord_idempotencyKey ord \<in> set (map ord_idempotencyKey ?due)"
      then obtain x where "x \<in> set ?due" "ord_idempotencyKey ord = ord_idempotencyKey x" by auto
      then show False using due_old [of x] created(4,5) by simp
    qed
    have "distinct (map ord_idempotencyKey (ord # ?due))"
      using inv free by (simp add: orders_inv_def)
    then have dist: "distinct (map ord_idempotencyKey ?due')"
      using perm mset_eq_imp_distinct_iff by (metis mset_map)
    have set: "set ?due' = insert ord (set ?due)"
      using perm by (metis list.simps(15) mset_eq_setD)
    have w: "stored w (ord_idempotencyKey ord) = None"
    proof -
      have "stored w \<subseteq>\<^sub>m stored (os_world sys)" using inv unfolding orders_inv_def by blast
      then show ?thesis using created(4,5) map_le_None by metis
    qed
    have due_ok: "stored w (ord_idempotencyKey x) = None
        \<and> (\<exists>f. stored s' (ord_idempotencyKey x) = Some (x, f))" if "x \<in> set ?due'" for x
    proof (cases "x = ord")
      case False
      then have "x \<in> set ?due" using that unfolding set by blast
      then have "ord_idempotencyKey x \<noteq> key_of input" using free created(5) by force
      then show ?thesis using due_old [OF \<open>x \<in> set ?due\<close>] created(6) by simp
    qed (use w created(5,6) in simp)
    have call: "call_ok sha256 (stored s') x" if "x \<in> set (os_calls sys')" for x
    proof -
      have "x = (input, pc') \<or> x \<in> set (os_calls sys)" using that calls [of x] by (auto simp: sys')
      then show ?thesis using new inv call_ok_mono [OF _ mono, of sha256 x] unfolding orders_inv_def by blast
    qed
    show ?thesis
      using inv created(3) mono dist due_ok call map_le_trans unfolding orders_inv_def
      by (auto simp: sys')
  next
    case same
    have "mset (pending_order (input, pc') @ published_by pc pc') \<subseteq># mset (pending_order (input, pc))"
      using same(4) by (elim disjE) (simp_all only: subset_mset.order_refl mset.simps empty_le)
    then have "mset ?due' + mset (pending_order (input, pc)) \<subseteq># mset ?due + mset (pending_order (input, pc))"
      unfolding due by (rule subset_mset.add_left_mono)
    then have "mset ?due' \<subseteq># mset ?due" by (rule subset_mset.add_le_imp_le_right)
    then have sub: "distinct (map ord_idempotencyKey ?due')" "set ?due' \<subseteq> set ?due"
      using distinct_keys_sub [of ?due' ?due] inv unfolding orders_inv_def by blast+
    have call: "call_ok sha256 (stored (os_world sys)) x" if "x \<in> set (os_calls sys')" for x
    proof -
      have "x = (input, pc') \<or> x \<in> set (os_calls sys)" using that calls [of x] by (auto simp: sys')
      then show ?thesis using same(3) inv unfolding orders_inv_def by blast
    qed
    have world: "ok (os_world sys')" "stored (os_world sys') = stored (os_world sys)"
      using same(1,2) by (simp_all add: sys')
    show ?thesis
      unfolding orders_inv_def world(2) using inv world(1) sub call due_old
      by (intro conjI ballI) (auto simp only: orders_inv_def)
  qed
qed

lemma orders_reachable_inv:
  assumes "order_reachable deps sha256 w inputs sys" and "ok w"
  shows "orders_inv sha256 w sys"
  using assms
proof (induction rule: order_reachable.induct)
  case order_start
  then show ?case by (rule orders_inv_start)
next
  case (order_next sys ev sys')
  then show ?case using orders_inv_step by blast
qed

end

section \<open>The service of the API process\<close>

text \<open>
  The world of \<open>apps/api/src/server.js\<close>: the database through its pool, the local
  queue, and the metrics registry.  \<open>gen\<close> is the sequence of the generated ids.
\<close>

record api_world =
  aw_tables :: tables
  aw_queue :: queue
  aw_metrics :: metrics
  aw_ids :: nat

definition on_tables :: "(tables, 'a) action \<Rightarrow> (api_world, 'a) action" where
  "on_tables m w = (case m (aw_tables w) of (t, r) \<Rightarrow> (w\<lparr>aw_tables := t\<rparr>, r))"

definition api_deps :: "pg \<Rightarrow> (nat \<Rightarrow> string) \<Rightarrow> api_world order_deps" where
  "api_deps pg gen = \<lparr>
     od_findById = (\<lambda>i. on_tables (findById (exec_statement pg) i)),
     od_findByIdempotencyKey = (\<lambda>k. on_tables (findByIdempotencyKey (exec_statement pg) k)),
     od_createIdempotent = (\<lambda>o' fp. on_tables (createIdempotent (exec_statement pg) o' fp)),
     od_idGenerator = (\<lambda>w. (w\<lparr>aw_ids := aw_ids w + 1\<rparr>, Inr (gen (aw_ids w)))),
     od_increment = (\<lambda>c w. case increment c JUndefined (aw_metrics w) of
        (m, r) \<Rightarrow> (w\<lparr>aw_metrics := m\<rparr>, r)),
     od_publish = (\<lambda>ord context w. case publishOrderCreated (aw_ids w) ord context (aw_queue w) of
        (q, r) \<Rightarrow> (w\<lparr>aw_queue := q\<rparr>, r))\<rparr>"

lemma api_deps_simps [simp]:
  "od_findById (api_deps pg gen) = (\<lambda>i. on_tables (findById (exec_statement pg) i))"
  "od_findByIdempotencyKey (api_deps pg gen) = (\<lambda>k. on_tables (findByIdempotencyKey (exec_statement pg) k))"
  "od_createIdempotent (api_deps pg gen) = (\<lambda>o' fp. on_tables (createIdempotent (exec_statement pg) o' fp))"
  "od_idGenerator (api_deps pg gen) w = (w\<lparr>aw_ids := aw_ids w + 1\<rparr>, Inr (gen (aw_ids w)))"
  "od_increment (api_deps pg gen) c w = (w\<lparr>aw_metrics := fst (increment c JUndefined (aw_metrics w))\<rparr>,
     snd (increment c JUndefined (aw_metrics w)))"
  "od_publish (api_deps pg gen) ord context w =
     (w\<lparr>aw_queue := fst (publishOrderCreated (aw_ids w) ord context (aw_queue w))\<rparr>,
      snd (publishOrderCreated (aw_ids w) ord context (aw_queue w)))"
  by (simp_all add: api_deps_def split: prod.split)

lemma on_tables_run: "m (aw_tables w) = (t, r) \<Longrightarrow> on_tables m w = (w\<lparr>aw_tables := t\<rparr>, r)"
  by (simp add: on_tables_def)

lemma on_tables_elim:
  assumes "on_tables m w = (w', r)"
  obtains t where "m (aw_tables w) = (t, r)" "w' = w\<lparr>aw_tables := t\<rparr>"
  using assms by (auto simp: on_tables_def split: prod.splits)

interpretation api: order_calls "api_deps pg gen" "\<lambda>w. stored_at (aw_tables w)" "\<lambda>w. tables_ok (aw_tables w)"
  for pg gen
proof unfold_locales
  fix s s' :: api_world and k r
  assume "tables_ok (aw_tables s)" "od_findByIdempotencyKey (api_deps pg gen) k s = (s', r)"
  then show "s' = s \<and> (\<forall>x. r = Inr x \<longrightarrow> x = map_option (record_of False) (stored_at (aw_tables s) k))"
    by (auto simp: findByIdempotencyKey_exec elim!: on_tables_elim)
next
  fix s :: api_world and o' fp
  assume "tables_ok (aw_tables s)"
  then have "tables_ok (fst (createIdempotent (exec_statement pg) o' fp (aw_tables s)))"
    by (rule action_tables_ok(3))
  then show "tables_ok (aw_tables (fst (od_createIdempotent (api_deps pg gen) o' fp s)))"
    by (auto simp: on_tables_def split: prod.splits)
next
  fix s s' :: api_world and o' fp x
  assume ok: "tables_ok (aw_tables s)" and run: "od_createIdempotent (api_deps pg gen) o' fp s = (s', Inr x)"
  from run obtain t where "createIdempotent (exec_statement pg) o' fp (aw_tables s) = (t, Inr x)"
    "s' = s\<lparr>aw_tables := t\<rparr>" by (auto elim!: on_tables_elim)
  then show "case stored_at (aw_tables s) (no_idempotencyKey o') of
       Some so \<Rightarrow> x = Some (record_of False so) \<and> s' = s
     | None \<Rightarrow> \<exists>ord. x = Some (record_of True (ord, fp)) \<and> stores_request o' ord
         \<and> stored_at (aw_tables s') = (stored_at (aw_tables s))(no_idempotencyKey o' \<mapsto> (ord, fp))"
    using pg_orders.create_returns [OF ok, of pg o' fp t x] by (auto split: option.splits)
next
  fix s s' :: api_world and o' fp e
  assume ok: "tables_ok (aw_tables s)" and run: "od_createIdempotent (api_deps pg gen) o' fp s = (s', Inl e)"
  from run obtain t where "createIdempotent (exec_statement pg) o' fp (aw_tables s) = (t, Inl e)"
    "s' = s\<lparr>aw_tables := t\<rparr>" by (auto elim!: on_tables_elim)
  then show "s' = s" using pg_orders.create_throws [OF ok, of pg o' fp t e] by simp
qed (simp_all add: on_tables_def findById_exec)

section \<open>Sample runs\<close>

fun order_run ::
  "'s order_deps \<Rightarrow> (string \<Rightarrow> string) \<Rightarrow> order_event list \<Rightarrow> 's order_system \<Rightarrow> 's order_system option" where
  "order_run deps sha256 [] sys = Some sys"
| "order_run deps sha256 (ev # evs) sys = (case order_system_step deps sha256 ev sys of
      None \<Rightarrow> None | Some sys' \<Rightarrow> order_run deps sha256 evs sys')"

lemma order_run_reachable:
  "order_reachable deps sha256 w inputs sys \<Longrightarrow> order_run deps sha256 evs sys = Some sys' \<Longrightarrow>
     order_reachable deps sha256 w inputs sys'"
  by (induction evs arbitrary: sys) (auto split: option.splits intro: order_next)

definition sample_sha256 :: "string \<Rightarrow> string" where
  "sample_sha256 s = replicate 64 CHR ''0''"

definition sample_input :: "int \<Rightarrow> jsval" where
  "sample_input q = JObj [(''customerId'', JStr ''c''), (''productId'', JStr ''p''), (''quantity'', JInt q),
     (''amount'', JInt 5), (''idempotencyKey'', JStr ''k'')]"

definition sample_world :: api_world where
  "sample_world = \<lparr>aw_tables = sample_tables,
     aw_queue = (case createInMemoryQueue JUndefined JUndefined of Inr q \<Rightarrow> q),
     aw_metrics = createMetricsRegistry, aw_ids = 0\<rparr>"

definition sample_ids :: "nat \<Rightarrow> string" where
  "sample_ids n = ''o'' @ show_nat n"

text \<open>Two calls with one key that both find it free: the second to insert replays the first.\<close>

definition sample_race :: "order_event list" where
  "sample_race = [Advance 0, Advance 1, Advance 0, Advance 1, Advance 0, Advance 1, Advance 0]"

definition sample_placed_order :: order where
  "sample_placed_order = \<lparr>ord_id = ''o0'', ord_customerId = ''c'', ord_productId = ''p'', ord_quantity = 3,
     ord_amount = 5, ord_status = ''PENDING'', ord_version = 1, ord_idempotencyKey = ''k'',
     ord_createdAt = 1000, ord_updatedAt = 1000\<rparr>"

lemma sample_race_outcome:
  "map_option (\<lambda>sys. (os_calls sys, os_published sys))
     (order_run (api_deps sample_pg sample_ids) sample_sha256 sample_race
        (order_system_start sample_world [sample_input 3, sample_input 3]))
   = Some (map (\<lambda>i. (i, OrderSettled (Inr sample_placed_order))) [sample_input 3, sample_input 3], [sample_placed_order])"
  by code_simp

lemma sample_race_system:
  obtains sys where "order_reachable (api_deps sample_pg sample_ids) sample_sha256 sample_world
      [sample_input 3, sample_input 3] sys"
    and "os_calls sys = [(sample_input 3, OrderSettled (Inr sample_placed_order)),
      (sample_input 3, OrderSettled (Inr sample_placed_order))]"
    and "os_published sys = [sample_placed_order]"
proof -
  obtain sys where run: "order_run (api_deps sample_pg sample_ids) sample_sha256 sample_race
        (order_system_start sample_world [sample_input 3, sample_input 3]) = Some sys"
    and out: "os_calls sys = map (\<lambda>i. (i, OrderSettled (Inr sample_placed_order))) [sample_input 3, sample_input 3]"
      "os_published sys = [sample_placed_order]"
    using sample_race_outcome unfolding map_option_eq_Some prod.inject by blast
  then show thesis using that [OF order_run_reachable [OF order_start run]] by simp
qed

lemma sample_world_ok: "tables_ok (aw_tables sample_world)"
  by (simp add: sample_world_def sample_tables_ok)

section \<open>Properties\<close>

text \<open>
  C4. Order creation is idempotent under concurrency.  However the calls of any
  list of inputs are interleaved, two calls with the same idempotency key that return an order
  return the same order, for requests with the same fingerprint; the order they return is the
  one stored under the key; and an order once stored under a key stays there.
\<close>

theorem concurrent_orders_idempotent:
  assumes "order_reachable (api_deps pg gen) sha256 w inputs sys" and "tables_ok (aw_tables w)"
  shows "stored_at (aw_tables w) \<subseteq>\<^sub>m stored_at (aw_tables (os_world sys))
    \<and> (\<forall>input a. (input, OrderSettled (Inr a)) \<in> set (os_calls sys) \<longrightarrow>
         (\<exists>f. stored_at (aw_tables (os_world sys)) (key_of input) = Some (a, f)))
    \<and> (\<forall>input input' a b. (input, OrderSettled (Inr a)) \<in> set (os_calls sys) \<longrightarrow>
         (input', OrderSettled (Inr b)) \<in> set (os_calls sys) \<longrightarrow> key_of input = key_of input' \<longrightarrow>
         a = b \<and> request_fingerprint sha256 (request_of input) = request_fingerprint sha256 (request_of input'))"
proof -
  note inv = api.orders_reachable_inv [OF assms]
  have calls: "\<exists>f. stored_at (aw_tables (os_world sys)) (key_of input) = Some (a, f)
      \<and> stored_fingerprint sha256 (record_of False (a, f)) = request_fingerprint sha256 (request_of input)"
    if "(input, OrderSettled (Inr a)) \<in> set (os_calls sys)" for input a
    using inv that unfolding api.orders_inv_def call_ok_def by fastforce
  have "stored_at (aw_tables w) \<subseteq>\<^sub>m stored_at (aw_tables (os_world sys))"
    using inv unfolding api.orders_inv_def by blast
  moreover have "a = b \<and> request_fingerprint sha256 (request_of input) = request_fingerprint sha256 (request_of input')"
    if "(input, OrderSettled (Inr a)) \<in> set (os_calls sys)"
      "(input', OrderSettled (Inr b)) \<in> set (os_calls sys)" "key_of input = key_of input'" for input input' a b
    using calls [OF that(1)] calls [OF that(2)] that(3) by fastforce
  ultimately show ?thesis using calls by blast
qed

theorem concurrent_orders_idempotent_witness:
  "\<exists>sys f. order_reachable (api_deps sample_pg sample_ids) sample_sha256 sample_world
      [sample_input 3, sample_input 3] sys
    \<and> (sample_input 3, OrderSettled (Inr sample_placed_order)) \<in> set (os_calls sys)
    \<and> stored_at (aw_tables (os_world sys)) (key_of (sample_input 3)) = Some (sample_placed_order, f)"
proof -
  obtain sys where sys: "order_reachable (api_deps sample_pg sample_ids) sample_sha256 sample_world
      [sample_input 3, sample_input 3] sys"
    "(sample_input 3, OrderSettled (Inr sample_placed_order)) \<in> set (os_calls sys)"
    by (rule sample_race_system) auto
  with concurrent_orders_idempotent [OF sys(1) sample_world_ok] show ?thesis by blast
qed

section \<open>One call, branch by branch\<close>

lemma order_lookup:
  "order_step (api_deps pg gen) sha256 input OrderLookup w = (w, case stored_at (aw_tables w) (key_of input) of
      None \<Rightarrow> OrderProduct
    | Some so \<Rightarrow> OrderSettled (resolveIdempotentOrder sha256 (record_of False so)
        (request_fingerprint sha256 (request_of input))))"
  by (simp add: order_step_def Let_def on_tables_def findByIdempotencyKey_exec key_of_def split: option.split)

lemma order_alone_replays:
  assumes "validateOrderInput input = Inr ()" and "stored_at (aw_tables w) (key_of input) = Some so"
  shows "createOrderAlone (api_deps pg gen) sha256 input w
    = (w, OrderSettled (resolveIdempotentOrder sha256 (record_of False so) (request_fingerprint sha256 (request_of input))))"
  using order_lookup [of pg gen sha256 input w] assms(2)
  by (intro createOrderAlone_first [OF assms(1)]) simp_all

text \<open>The product is missing, out of stock, or cannot be read.\<close>

lemma order_alone_refused:
  assumes "validateOrderInput input = Inr ()" and "stored_at (aw_tables w) (key_of input) = None"
    and found: "findById (exec_statement pg) (rq_productId (request_of input)) (aw_tables w) = (aw_tables w, found)"
    and refused: "\<nexists>p. found = Inr (Some p) \<and> \<not> p_stock p < rq_quantity (request_of input)"
  shows "createOrderAlone (api_deps pg gen) sha256 input w = (w, OrderSettled (Inl (case found of
      Inl e \<Rightarrow> e | Inr None \<Rightarrow> ProductNotFoundError | Inr (Some p) \<Rightarrow> OrderInsufficientInventoryError)))"
proof -
  have lookup: "order_step (api_deps pg gen) sha256 input OrderLookup w = (w, OrderProduct)"
    by (simp add: order_lookup assms(2))
  have "order_step (api_deps pg gen) sha256 input OrderProduct w = (w, OrderSettled (Inl (case found of
      Inl e \<Rightarrow> e | Inr None \<Rightarrow> ProductNotFoundError | Inr (Some p) \<Rightarrow> OrderInsufficientInventoryError)))"
    using found refused by (auto simp: order_step_def Let_def on_tables_def split: sum.splits option.splits)
  then show ?thesis by (intro createOrderAlone_early [OF assms(1) lookup]) simp_all
qed

lemma order_alone_insert:
  assumes valid: "validateOrderInput input = Inr ()" and none: "stored_at (aw_tables w) (key_of input) = None"
    and found: "findById (exec_statement pg) (rq_productId (request_of input)) (aw_tables w) = (aw_tables w, Inr (Some p))"
    and stock: "\<not> p_stock p < rq_quantity (request_of input)"
    and insert: "order_step (api_deps pg gen) sha256 input OrderInsert w = (w1, pc1)"
    and last: "order_step (api_deps pg gen) sha256 input pc1 w1 = (w2, pc2)"
  shows "createOrderAlone (api_deps pg gen) sha256 input w = (w2, pc2)"
proof (rule createOrderAlone_steps [OF valid _ _ insert last])
  show "order_step (api_deps pg gen) sha256 input OrderLookup w = (w, OrderProduct)"
    by (simp add: order_lookup none)
  show "order_step (api_deps pg gen) sha256 input OrderProduct w = (w, OrderInsert)"
    using found stock by (simp add: order_step_def Let_def on_tables_def)
qed

text \<open>The insert of a free key stores the request; the step after it publishes the order or reports why not.\<close>

lemma order_stored:
  assumes "createIdempotent (exec_statement pg) nord (Some fp) t = (t', Inr x)"
    and "stored_at t (no_idempotencyKey nord) = None"
  obtains ord where "x = Some (record_of True (ord, Some fp))" and "stores_request nord ord"
    and "stored_at t' = (stored_at t)(no_idempotencyKey nord \<mapsto> (ord, Some fp))" and "tb_products t' = tb_products t"
proof -
  obtain row where row: "order_row_of pg nord (Some fp) = Some row"
    "t' = t\<lparr>tb_orders := tb_orders t @ [row]\<rparr>" "x = Some (record_of True (mapOrder row, Some fp))"
    using createIdempotent_exec [OF assms(1)] assms(2) by auto
  have "stored_at t' = (stored_at t)(no_idempotencyKey nord \<mapsto> (mapOrder row, Some fp))"
    using stored_at_append [of t row] order_row_of_fields [OF row(1)] assms(2) by (simp add: row(2) stored_at_def)
  then show thesis using that row order_row_of_fields(1) [OF row(1)] by simp
qed

lemma order_announced:
  assumes "queue_inv (aw_queue w)"
    and "order_step (api_deps pg gen) sha256 input (OrderCreated ord) w = (w', pc)"
  shows "aw_tables w' = aw_tables w
    \<and> (if pc = OrderSettled (Inr ord) \<or> pc = OrderPublishing ord
       then \<exists>m. order_created_message ord (rq_context (request_of input)) = Inr m
         \<and> backlog (aw_queue w') = backlog (aw_queue w) @ [m]
       else (\<exists>e. pc = OrderSettled (Inl e)) \<and> aw_queue w' = aw_queue w)"
  using assms(2) publishOrderCreated_sink [OF assms(1), of "aw_ids w" ord "rq_context (request_of input)"]
  by (auto simp: order_step_def Let_def split: sum.splits publish_outcome.splits prod.splits)

section \<open>What a call returns and stores\<close>

text \<open>
  C24. What one request does, branch by branch.  An invalid input is refused with the error of the validation and
  changes nothing.  For a valid input: a stored key replays the
  stored order or refuses a different request, and changes nothing; otherwise a lookup error, a
  missing product and a stock below the quantity are reported and change nothing; otherwise
  one order is stored with the request's fields and fingerprint, no stock is touched, and the call
  either hands exactly that order's event to the queue or, when the event is refused, fails and
  leaves the order stored and the queue as it was.
\<close>

theorem create_order_branches:
  assumes "tables_ok (aw_tables w)" and "queue_inv (aw_queue w)"
    and "createOrderAlone (api_deps pg gen) sha256 input w = (w', pc)"
  shows "case validateOrderInput input of
      Inl e \<Rightarrow> w' = w \<and> pc = OrderSettled (Inl e)
    | Inr _ \<Rightarrow> (case stored_at (aw_tables w) (key_of input) of
      Some so \<Rightarrow> w' = w \<and> pc = OrderSettled
        (if stored_fingerprint sha256 (record_of False so) = request_fingerprint sha256 (request_of input)
         then Inr (fst so) else Inl IdempotencyKeyReusedError)
    | None \<Rightarrow> (case snd (findById (exec_statement pg) (rq_productId (request_of input)) (aw_tables w)) of
        Inl e \<Rightarrow> w' = w \<and> pc = OrderSettled (Inl e)
      | Inr None \<Rightarrow> w' = w \<and> pc = OrderSettled (Inl ProductNotFoundError)
      | Inr (Some p) \<Rightarrow>
          if p_stock p < rq_quantity (request_of input)
          then w' = w \<and> pc = OrderSettled (Inl OrderInsufficientInventoryError)
          else (case createIdempotent (exec_statement pg) (new_order_of (gen (aw_ids w)) (request_of input))
                  (Some (request_fingerprint sha256 (request_of input))) (aw_tables w) of
              (t, Inl e) \<Rightarrow> aw_tables w' = aw_tables w \<and> aw_queue w' = aw_queue w \<and> pc = OrderSettled (Inl e)
            | (t, Inr _) \<Rightarrow> \<exists>ord.
                stored_at (aw_tables w') = (stored_at (aw_tables w))(key_of input \<mapsto>
                   (ord, Some (request_fingerprint sha256 (request_of input))))
                \<and> stores_request (new_order_of (gen (aw_ids w)) (request_of input)) ord
                \<and> tb_products (aw_tables w') = tb_products (aw_tables w)
                \<and> (if pc = OrderSettled (Inr ord) \<or> pc = OrderPublishing ord
                   then \<exists>m. order_created_message ord (rq_context (request_of input)) = Inr m
                     \<and> backlog (aw_queue w') = backlog (aw_queue w) @ [m]
                   else (\<exists>e. pc = OrderSettled (Inl e)) \<and> aw_queue w' = aw_queue w))))"
    (is "case _ of Inl e \<Rightarrow> ?refused e | Inr _ \<Rightarrow> ?served")
proof (cases "validateOrderInput input")
  case (Inl e)
  then have "createOrderAlone (api_deps pg gen) sha256 input w = (w, OrderSettled (Inl e))"
    by (simp add: createOrderAlone_def start_order_def order_step_over eval_nat_numeral)
  then show ?thesis using assms(3) Inl by simp
next
  case (Inr u)
  then have valid: "validateOrderInput input = Inr ()" by simp
  have ?served
  proof (cases "stored_at (aw_tables w) (key_of input)")
    case (Some so)
    then show ?thesis
      using assms(3) unfolding order_alone_replays [OF valid Some]
      by (auto simp: resolveIdempotentOrder_def record_of_def)
  next
    case None
    let ?rq = "request_of input"
    let ?o = "new_order_of (gen (aw_ids w)) ?rq"
    let ?fp = "request_fingerprint sha256 ?rq"
    obtain found where f: "findById (exec_statement pg) (rq_productId ?rq) (aw_tables w) = (aw_tables w, found)"
      by (simp add: findById_exec)
    show ?thesis
    proof (cases "\<exists>p. found = Inr (Some p) \<and> \<not> p_stock p < rq_quantity ?rq")
      case False
      from order_alone_refused [OF valid None f False] assms(3) f None False show ?thesis
        by (auto split: sum.splits option.splits)
    next
      case True
      then obtain p where p: "found = Inr (Some p)" "\<not> p_stock p < rq_quantity ?rq" by blast
      note alone = order_alone_insert [OF valid None f [unfolded p(1)] p(2)]
      obtain t c where c: "createIdempotent (exec_statement pg) ?o (Some ?fp) (aw_tables w) = (t, c)" by force
      let ?w1 = "w\<lparr>aw_ids := aw_ids w + 1, aw_tables := t\<rparr>"
      show ?thesis
      proof (cases c)
        case (Inl e)
        have t: "t = aw_tables w" using pg_orders.create_throws [OF assms(1) c [unfolded Inl]] .
        have ins: "order_step (api_deps pg gen) sha256 input OrderInsert w = (?w1, OrderSettled (Inl e))"
          using c Inl by (simp add: order_step_def Let_def then_do_def on_tables_def)
        have over: "order_step (api_deps pg gen) sha256 input (OrderSettled (Inl e)) ?w1 = (?w1, OrderSettled (Inl e))"
          by (simp add: order_step_over)
        show ?thesis using alone [OF ins over] assms(3) None f p c Inl t by auto
      next
        case (Inr x)
        have key: "no_idempotencyKey ?o = key_of input" by (simp add: new_order_of_def key_of_def)
        obtain ord where ord: "x = Some (record_of True (ord, Some ?fp))" "stores_request ?o ord"
          "stored_at t = (stored_at (aw_tables w))(key_of input \<mapsto> (ord, Some ?fp))" "tb_products t = tb_products (aw_tables w)"
          using order_stored [OF c [unfolded Inr]] None unfolding key by metis
        have "order_step (api_deps pg gen) sha256 input OrderInsert w = (?w1, OrderCreated ord)"
          using c Inr ord(1) by (simp add: order_step_def Let_def then_do_def on_tables_def record_of_def)
        from alone [OF this] assms(3) have "order_step (api_deps pg gen) sha256 input (OrderCreated ord) ?w1 = (w', pc)"
          by (metis prod.collapse)
        from order_announced [OF _ this] assms(2) show ?thesis
          using None f p c Inr ord by (simp, intro exI [of _ ord]) (auto split: if_splits)
      qed
    qed
  qed
  then show ?thesis unfolding valid sum.case .
qed

lemma sample_alone:
  "snd (createOrderAlone (api_deps sample_pg sample_ids) sample_sha256 (sample_input 3) sample_world)
     = OrderSettled (Inr sample_placed_order)"
  by code_simp

lemma sample_alone_path:
  "stored_at (aw_tables sample_world) (key_of (sample_input 3)) = None"
  "snd (findById (exec_statement sample_pg) (rq_productId (request_of (sample_input 3))) (aw_tables sample_world))
     = Inr (Some \<lparr>p_id = ''p'', p_name = ''Keyboard'', p_stock = 10, p_version = 1\<rparr>)"
  "rq_quantity (request_of (sample_input 3)) = 3" "rq_context (request_of (sample_input 3)) = JUndefined"
  "validateOrderInput (sample_input 3) = Inr ()"
  "isl (snd (createIdempotent (exec_statement sample_pg)
     (new_order_of (sample_ids (aw_ids sample_world)) (request_of (sample_input 3)))
     (Some (request_fingerprint sample_sha256 (request_of (sample_input 3)))) (aw_tables sample_world))) = False"
  by code_simp+

theorem create_order_branches_witness:
  "\<exists>w' m. createOrderAlone (api_deps sample_pg sample_ids) sample_sha256 (sample_input 3) sample_world
      = (w', OrderSettled (Inr sample_placed_order))
    \<and> order_created_message sample_placed_order JUndefined = Inr m \<and> backlog (aw_queue w') = [m]"
proof -
  obtain w' where run: "createOrderAlone (api_deps sample_pg sample_ids) sample_sha256 (sample_input 3) sample_world
      = (w', OrderSettled (Inr sample_placed_order))"
    using sample_alone by (metis prod.collapse)
  have queue: "queue_inv (aw_queue sample_world)" "backlog (aw_queue sample_world) = []"
    by (simp_all add: sample_world_def createInMemoryQueue_def queue_inv_def backlog_def)
  show ?thesis
    using create_order_branches [OF sample_world_ok queue(1) run] sample_alone_path run queue(2)
    by (auto split: sum.splits if_splits prod.splits)
qed

end
