(* ===== verification/Atomic_Orders.thy ===== *)
theory Atomic_Orders
  imports Order_Requests Repositories
begin

text \<open>
  \<open>createAtomicOrderService\<close> of \<open>apps/api/src/create-atomic-order.js\<close>: one transaction
  that locks the product, looks for a concurrent order, reserves the stock, stores
  the order and its processing state.  The operation is a function of the queryable,
  so it runs on the server inside a transaction and, for its functional meaning,
  on the tables directly.  \<open>gen\<close> is what \<open>idGenerator\<close> returns in the call.
\<close>

section \<open>The service\<close>

definition atomic_order_body ::
  "'s queryable \<Rightarrow> (string \<Rightarrow> string) \<Rightarrow> string \<Rightarrow> order_request \<Rightarrow> ('s, order) action" where
  "atomic_order_body client sha gen rq =
     (let fp = request_fingerprint sha rq in
      then_do (findByIdForUpdate client (rq_productId rq)) (\<lambda>product.
      then_do (findByIdempotencyKey client (rq_idempotencyKey rq)) (\<lambda>concurrentOrder.
        case concurrentOrder of
          Some r \<Rightarrow> finish_with (resolveIdempotentOrder sha r fp)
        | None \<Rightarrow> (case product of
            None \<Rightarrow> finish_with (Inl ProductNotFoundError)
          | Some p \<Rightarrow>
              if p_stock p < rq_quantity rq then finish_with (Inl OrderInsufficientInventoryError)
              else then_do (reserveLocked client (rq_productId rq) (JInt (rq_quantity rq))) (\<lambda>reserved.
                case reserved of
                  None \<Rightarrow> finish_with (Inl OrderInsufficientInventoryError)
                | Some _ \<Rightarrow>
                    then_do (createIdempotent client (new_order_of gen rq) (Some fp)) (\<lambda>result.
                      case result of
                        None \<Rightarrow> finish_with (Inl no_row)
                      | Some r \<Rightarrow>
                          if \<not> ir_created r then finish_with
                            (case resolveIdempotentOrder sha r fp of
                               Inl e \<Rightarrow> Inl e | Inr ord \<Rightarrow> Inl (IdempotentReplay ord))
                          else then_do (createOrderProcessing client (ord_id (ir_order r)) None)
                            (\<lambda>_. finish_with (Inr (ir_order r)))))))))"

definition createAtomicOrder ::
  "'s queryable \<Rightarrow> 's tx_client \<Rightarrow> (string \<Rightarrow> string) \<Rightarrow> string \<Rightarrow> jsval \<Rightarrow> 's
     \<Rightarrow> 's \<times> tx_call list \<times> order result" where
  "createAtomicOrder query client sha gen input s = (case validateOrderInput input of
      Inl e \<Rightarrow> (s, [], Inl e)
    | Inr _ \<Rightarrow>
        (let rq = request_of input in
         case findByIdempotencyKey query (rq_idempotencyKey rq) s of
           (s1, Inl e) \<Rightarrow> (s1, [], Inl e)
         | (s1, Inr (Some r)) \<Rightarrow> (s1, [], resolveIdempotentOrder sha r (request_fingerprint sha rq))
         | (s1, Inr None) \<Rightarrow>
             (case withTransaction client (atomic_order_body query sha gen rq) None s1 of
                (s2, calls, Inl (IdempotentReplay ord)) \<Rightarrow> (s2, calls, Inr ord)
              | (s2, calls, r) \<Rightarrow> (s2, calls, r))))"

section \<open>What the operation does to the tables\<close>

text \<open>Printing a stored uuid and reading it back gives the same uuid.\<close>

definition uuid_canonical :: "pg \<Rightarrow> bool" where
  "uuid_canonical pg \<longleftrightarrow> (\<forall>s u. pg_uuid pg s = Some u \<longrightarrow> pg_uuid pg u = Some u)"

text \<open>An order placed: the stock taken, the order stored, its processing pending.\<close>

definition order_placed ::
  "pg \<Rightarrow> (string \<Rightarrow> string) \<Rightarrow> string \<Rightarrow> order_request \<Rightarrow> tables \<Rightarrow> tables \<Rightarrow> order \<Rightarrow> bool" where
  "order_placed pg sha gen rq t t' ord \<longleftrightarrow> (\<exists>u row orow.
     stored_at t (rq_idempotencyKey rq) = None
   \<and> pg_uuid pg (rq_productId rq) = Some u \<and> tb_products t u = Some row \<and> rq_quantity rq \<le> pr_stock row
   \<and> order_row_of pg (new_order_of gen rq) (Some (request_fingerprint sha rq)) = Some orow
   \<and> ord = mapOrder orow
   \<and> t' = t\<lparr>tb_products := (tb_products t)(u \<mapsto>
              row\<lparr>pr_stock := pr_stock row - rq_quantity rq, pr_version := pr_version row + 1\<rparr>),
            tb_orders := tb_orders t @ [orow],
            tb_order_processing := (tb_order_processing t)(or_id orow \<mapsto>
              \<lparr>op_order_id = or_id orow, op_status = ''PENDING'', op_created_at = pg_now pg,
               op_updated_at = pg_now pg\<rparr>)\<rparr>)"

definition order_replayed ::
  "(string \<Rightarrow> string) \<Rightarrow> order_request \<Rightarrow> tables \<Rightarrow> order \<Rightarrow> bool" where
  "order_replayed sha rq t ord \<longleftrightarrow> (\<exists>f. stored_at t (rq_idempotencyKey rq) = Some (ord, f)
     \<and> stored_fingerprint sha (record_of False (ord, f)) = request_fingerprint sha rq)"

lemma then_doE:
  assumes "then_do m f s = (s', r)"
  obtains (throws) e where "m s = (s', Inl e)" "r = Inl e"
  | (returns) s1 x where "m s = (s1, Inr x)" "f x s1 = (s', r)"
  using assms by (auto simp: then_do_def split: prod.splits sum.splits)

lemma reserve_keeps_stored:
  assumes "0 < q" and "reserveLocked (exec_statement pg) i (JInt q) t = (t', Inr (Some p))"
  obtains u row where "pg_uuid pg i = Some u" "tb_products t u = Some row" "q \<le> pr_stock row"
    "t' = t\<lparr>tb_products := (tb_products t)(u \<mapsto>
        row\<lparr>pr_stock := pr_stock row - q, pr_version := pr_version row + 1\<rparr>)\<rparr>"
    "stored_at t' = stored_at t"
  using reserve_exec(2) [OF assms] by (auto simp: stored_at_def key_row_def fun_eq_iff)

lemma createOrderProcessing_exec:
  assumes "uuid_canonical pg" and "pg_uuid pg x = Some i"
    and "createOrderProcessing (exec_statement pg) i None t = (t', Inr p)"
  shows "t' = t\<lparr>tb_order_processing := (tb_order_processing t)(i \<mapsto>
    \<lparr>op_order_id = i, op_status = ''PENDING'', op_created_at = pg_now pg, op_updated_at = pg_now pg\<rparr>)\<rparr>"
proof -
  have "pg_uuid pg i = Some i" using assms(1,2) by (simp add: uuid_canonical_def)
  then show ?thesis
    using assms(3)
    by (auto simp: createOrderProcessing_def then_do_def insert_processing_def Let_def split: option.splits)
qed

text \<open>Everything after the guards of the operation, on a product with enough stock.\<close>

lemma atomic_body_exec:
  assumes uuid: "uuid_canonical pg" and q: "0 < rq_quantity rq"
    and run: "atomic_order_body (exec_statement pg) sha gen rq t = (t', Inr ord)"
  shows "t' = t \<and> order_replayed sha rq t ord \<or> order_placed pg sha gen rq t t' ord"
proof -
  let ?fp = "request_fingerprint sha rq"
  let ?o = "new_order_of gen rq"
  have key: "no_idempotencyKey ?o = rq_idempotencyKey rq" "no_id ?o = gen"
    by (simp_all add: new_order_of_def)
  obtain p where p: "findByIdForUpdate (exec_statement pg) (rq_productId rq) t = (t, Inr p)"
    using run by (auto simp: atomic_order_body_def Let_def findById_exec elim!: then_doE split: if_splits)
  show ?thesis
  proof (cases "stored_at t (rq_idempotencyKey rq)")
    case (Some so)
    then show ?thesis
      using run p by (cases so) (auto simp: atomic_order_body_def Let_def findByIdempotencyKey_exec
          resolveIdempotentOrder_def record_of_def order_replayed_def split: if_splits)
  next
    case None
    then obtain t1 r t2 x i where reserve:
      "reserveLocked (exec_statement pg) (rq_productId rq) (JInt (rq_quantity rq)) t = (t1, Inr (Some r))"
      and create: "createIdempotent (exec_statement pg) ?o (Some ?fp) t1 = (t2, Inr (Some x))"
      and rest: "(if \<not> ir_created x then finish_with (case resolveIdempotentOrder sha x ?fp of
                               Inl e \<Rightarrow> Inl e | Inr ord \<Rightarrow> Inl (IdempotentReplay ord))
                 else then_do (createOrderProcessing (exec_statement pg) (ord_id (ir_order x)) None)
                            (\<lambda>_. finish_with (Inr (ir_order x)))) t2 = (t', Inr ord)"
      using run p
      by (auto simp: atomic_order_body_def Let_def findByIdempotencyKey_exec elim!: then_doE
          split: option.splits if_splits)
    from q reserve obtain u row where u: "pg_uuid pg (rq_productId rq) = Some u" "tb_products t u = Some row"
      "rq_quantity rq \<le> pr_stock row" "t1 = t\<lparr>tb_products := (tb_products t)(u \<mapsto>
        row\<lparr>pr_stock := pr_stock row - rq_quantity rq, pr_version := pr_version row + 1\<rparr>)\<rparr>"
      "stored_at t1 = stored_at t" by (rule reserve_keeps_stored)
    obtain orow where orow: "order_row_of pg ?o (Some ?fp) = Some orow"
      "t2 = t1\<lparr>tb_orders := tb_orders t1 @ [orow]\<rparr>" "x = record_of True (mapOrder orow, Some ?fp)"
      using createIdempotent_exec [OF create] None u(5) key by auto
    obtain pr where pr: "createOrderProcessing (exec_statement pg) (or_id orow) None t2 = (t', Inr pr)"
      and ord: "ord = mapOrder orow"
      using rest orow(3) by (auto simp: record_of_def mapOrder_def elim!: then_doE)
    show ?thesis
      using createOrderProcessing_exec [OF uuid order_row_of_fields(5) [OF orow(1)] pr] None u orow(1,2) ord
      unfolding order_placed_def by auto
  qed
qed

section \<open>Errors inside the transaction\<close>

text \<open>An error of the connection, as it was thrown or wrapped.\<close>

definition connection_error :: "failures \<Rightarrow> exn \<Rightarrow> bool" where
  "connection_error fl e \<longleftrightarrow> (\<exists>n x. fl_error fl n = Some x \<and> (e = x \<or> e = DatabaseUnavailableError (Some x)))"

definition refines :: "failures \<Rightarrow> (server, 'a) action \<Rightarrow> (tables, 'a) action \<Rightarrow> bool" where
  "refines fl m m' \<longleftrightarrow> simulates m m' \<and> (\<forall>s t s' e. working_tables s = Some t \<longrightarrow> m s = (s', Inl e) \<longrightarrow>
     connection_error fl e \<or> (\<exists>t'. m' t = (t', Inl e)))"

lemma refines_simulates: "refines fl m m' \<Longrightarrow> simulates m m'"
  by (simp add: refines_def)

lemma refinesD:
  "refines fl m m' \<Longrightarrow> working_tables s = Some t \<Longrightarrow> m s = (s', Inl e) \<Longrightarrow>
     connection_error fl e \<or> (\<exists>t'. m' t = (t', Inl e))"
  unfolding refines_def by blast

lemma refines_then_do [intro]:
  assumes m: "refines fl m m'" and f: "\<And>x. refines fl (f x) (f' x)"
  shows "refines fl (then_do m f) (then_do m' f')"
  unfolding refines_def
proof (intro conjI allI impI)
  show "simulates (then_do m f) (then_do m' f')"
    using refines_simulates [OF m] refines_simulates [OF f] by blast
next
  fix s t s' e
  assume t: "working_tables s = Some t" and run: "then_do m f s = (s', Inl e)"
  from run show "connection_error fl e \<or> (\<exists>t'. then_do m' f' t = (t', Inl e))"
  proof (cases rule: then_doE)
    case (throws e')
    then show ?thesis using refinesD [OF m t] by (auto simp: then_do_def)
  next
    case (returns s1 x)
    obtain t1 where "m' t = (t1, Inr x)" "working_tables s1 = Some t1"
      using simulatesD [OF refines_simulates [OF m] t returns(1)] by blast
    then show ?thesis using refinesD [OF f [of x] _ returns(2)] by (simp add: then_do_def)
  qed
qed

lemma refines_basic [intro]:
  "refines fl (finish_with r) (finish_with r)"
  "refines fl m m' \<Longrightarrow> refines fl n n' \<Longrightarrow> refines fl (if b then m else n) (if b then m' else n')"
  "refines fl n n' \<Longrightarrow> (\<And>x. refines fl (f x) (f' x)) \<Longrightarrow>
     refines fl (case v of None \<Rightarrow> n | Some x \<Rightarrow> f x) (case v of None \<Rightarrow> n' | Some x \<Rightarrow> f' x)"
  by (auto simp: refines_def split: option.split)

lemma refines_runQuery [intro]:
  "refines fl (runQuery (server_query fl pg) st) (runQuery (exec_statement pg) st)"
  unfolding refines_def
proof (intro conjI allI impI)
  fix s t s' e
  assume t: "working_tables s = Some t" and run: "runQuery (server_query fl pg) st s = (s', Inl e)"
  have active: "sv_status s = Active t" using t by (auto simp: working_tables_def split: tx_status.splits)
  show "connection_error fl e \<or> (\<exists>t'. runQuery (exec_statement pg) st t = (t', Inl e))"
  proof (cases "fl_error fl (sv_calls s)")
    case (Some x)
    then show ?thesis
      using run by (auto simp: runQuery_def server_query_def connection_error_def split: if_splits)
  next
    case None
    then show ?thesis
      using run active
      by (auto simp: runQuery_def server_query_def simp del: runQuery_exec split: prod.splits sum.splits)
  qed
qed (rule simulates_runQuery)

lemma refines_repositories [intro]:
  "refines fl (findByIdForUpdate (server_query fl pg) i) (findByIdForUpdate (exec_statement pg) i)"
  "refines fl (reserveLocked (server_query fl pg) i q) (reserveLocked (exec_statement pg) i q)"
  "refines fl (findByIdempotencyKey (server_query fl pg) k) (findByIdempotencyKey (exec_statement pg) k)"
  "refines fl (createIdempotent (server_query fl pg) o' fp) (createIdempotent (exec_statement pg) o' fp)"
  "refines fl (createOrderProcessing (server_query fl pg) oid st)
     (createOrderProcessing (exec_statement pg) oid st)"
  unfolding findByIdForUpdate_def reserveLocked_def findByIdempotencyKey_def
    createIdempotent_def createOrderProcessing_def
  by (intro refines_then_do refines_basic refines_runQuery)+

lemma atomic_body_server:
  "refines fl (atomic_order_body (server_query fl pg) sha gen rq) (atomic_order_body (exec_statement pg) sha gen rq)"
  "inside_server (atomic_order_body (server_query fl pg) sha gen rq)"
  unfolding atomic_order_body_def Let_def
  by (intro refines_then_do refines_basic refines_repositories)
    (intro inside_then_do inside_finish_with inside_if case_option_rules repositories_inside)

text \<open>The statements throw plain error objects, never the replay signal.\<close>

definition plain_errors :: "('s, 'a) action \<Rightarrow> bool" where
  "plain_errors m \<longleftrightarrow> (\<forall>s s' e. m s = (s', Inl e) \<longrightarrow> (\<exists>n msg c. e = ErrorObj n msg c))"

lemma plain_errors_then_do [intro]:
  assumes m: "plain_errors m" and f: "\<And>x. plain_errors (f x)"
  shows "plain_errors (then_do m f)"
  unfolding plain_errors_def
proof (intro allI impI)
  fix s s' e
  assume "then_do m f s = (s', Inl e)"
  then show "\<exists>n msg c. e = ErrorObj n msg c"
    by (cases rule: then_doE) (use m f in \<open>auto simp: plain_errors_def\<close>)
qed

lemma plain_errors_finish:
  "plain_errors (finish_with (Inr x))" "plain_errors (finish_with (Inl (ErrorObj n m c)))"
  by (auto simp: plain_errors_def)

lemma plain_errors_if [intro]:
  "plain_errors m \<Longrightarrow> plain_errors n \<Longrightarrow> plain_errors (if b then m else n)"
  by simp

lemma plain_errors_exec [intro]: "plain_errors (runQuery (exec_statement pg) st)"
proof -
  have "\<exists>n msg c. e = ErrorObj n msg c" if "exec_statement pg st t = (t', Inl e)" for t t' e
    using that
    by (cases st) (auto simp: insert_product_def select_product_def update_reserve_def insert_order_def
        select_order_by_key_def insert_processing_def select_processing_def insert_processed_message_def
        select_processed_message_def Let_def product_rules_def order_rules_def processing_rules_def
        invalid_uuid_def integer_out_of_range_def check_violation_def unique_violation_def
        foreign_key_violation_def sql_error_def
        split: option.splits if_splits dest!: first_violation_in)
  then show ?thesis by (simp add: plain_errors_def)
qed

lemma first_row_errors:
  "first_product rows = Inl e \<Longrightarrow> e = no_row" "first_processing rows = Inl e \<Longrightarrow> e = no_row"
  "first_order rows = Inl e \<Longrightarrow> e = no_row"
  by (cases rows rule: first_product.cases; simp; fail | cases rows rule: first_processing.cases; simp; fail
    | cases rows rule: first_order.cases; simp; fail)+

lemma plain_errors_rows [intro]:
  "plain_errors (finish_with (null_or first_product rows))" "plain_errors (finish_with (first_processing rows))"
  "plain_errors (finish_with (case first_order rows of Inl e \<Rightarrow> Inl e | Inr r \<Rightarrow> Inr (f r)))"
  "plain_errors (finish_with (null_or (\<lambda>rs. case first_order rs of Inl e \<Rightarrow> Inl e | Inr r \<Rightarrow> Inr (g r)) rows))"
  by (auto simp: plain_errors_def null_or_def no_row_def type_error_def dest: first_row_errors
      split: if_splits sum.splits)

lemma plain_errors_repositories:
  "plain_errors (reserveLocked (exec_statement pg) i q)"
  "plain_errors (createIdempotent (exec_statement pg) o' fp)"
  "plain_errors (createOrderProcessing (exec_statement pg) oid st)"
  "plain_errors (findByIdForUpdate (exec_statement pg) i)"
  unfolding reserveLocked_def createIdempotent_def createOrderProcessing_def findByIdempotencyKey_def
    findByIdForUpdate_def quantity_error_def range_error_def
  by (intro plain_errors_then_do plain_errors_if plain_errors_exec plain_errors_rows plain_errors_finish)+

lemma atomic_body_no_replay:
  assumes q: "0 < rq_quantity rq"
  shows "atomic_order_body (exec_statement pg) sha gen rq t \<noteq> (t', Inl (IdempotentReplay ord))"
proof
  assume run: "atomic_order_body (exec_statement pg) sha gen rq t = (t', Inl (IdempotentReplay ord))"
  have plain: "m s = (s', Inl (IdempotentReplay ord)) \<Longrightarrow> plain_errors m \<Longrightarrow> False"
    for m :: "(tables, 'x) action" and s s'
    by (auto simp: plain_errors_def)
  have created: "ir_created x"
    if "reserveLocked (exec_statement pg) (rq_productId rq) (JInt (rq_quantity rq)) t1 = (t2, Inr (Some p))"
      "stored_at t1 (rq_idempotencyKey rq) = None"
      "createIdempotent (exec_statement pg) (new_order_of gen rq) fp t2 = (t3, Inr (Some x))" for t1 t2 t3 p x fp
  proof -
    have "stored_at t2 (no_idempotencyKey (new_order_of gen rq)) = None"
      using reserve_keeps_stored [OF q that(1)] that(2) by (metis new_order_of_def new_order.select_convs(8))
    then show ?thesis using createIdempotent_exec [OF that(3)] by (auto simp: record_of_def)
  qed
  note plain_facts = plain_errors_repositories [of pg]
  show False
    using run q created
    by (auto simp: atomic_order_body_def Let_def findByIdempotencyKey_exec resolveIdempotentOrder_def
        dest!: plain [OF _ plain_facts(1)] plain [OF _ plain_facts(2)] plain [OF _ plain_facts(3)]
          plain [OF _ plain_facts(4)]
        elim!: then_doE simp: no_row_def type_error_def split: option.splits if_splits)
qed

lemma server_command_error:
  "server_command fl cmd s = (s', Inl e) \<Longrightarrow> fl_error fl (sv_calls s) = Some e"
  by (auto simp: server_command_def split: option.splits if_splits)

lemma translated_error:
  "fl_error fl n = Some x \<Longrightarrow> connection_error fl (translateAvailabilityError x)"
  by (auto simp: connection_error_def translateAvailabilityError_def)

lemma server_transaction_error:
  assumes "withTransaction (server_client fl) m None s = (s', calls, Inl e)"
  shows "connection_error fl e \<or> (\<exists>s1 s2 x. working_tables s1 = Some (sv_committed s)
    \<and> m s1 = (s2, Inl x) \<and> e = translateAvailabilityError x)"
proof -
  obtain s1 k where k: "tx_connect (server_client fl) s = (s1, k)" by force
  have s1: "sv_committed s1 = sv_committed s" using k by (auto simp: server_client_def counted_def)
  obtain s2 b where b: "server_command fl ''BEGIN'' s1 = (s2, b)" by force
  obtain s3 o1 where o1: "m s2 = (s3, o1)" by force
  obtain s4 c where c: "server_command fl ''COMMIT'' s3 = (s4, c)" by force
  have begun: "working_tables s2 = Some (sv_committed s)" if "b = Inr ()"
    using b that s1 by (auto simp: server_command_def working_tables_def split: option.splits)
  have cmd: "tx_command (server_client fl) = server_command fl" by (simp add: server_client_def)
  note run = assms [unfolded withTransaction_def beginCommand_def run_transaction_def, simplified, unfolded cmd]
  show ?thesis
  proof (cases k)
    case (Inl x)
    then have "fl_error fl (sv_calls s) = Some x" using k by (auto simp: server_client_def split: option.splits)
    then show ?thesis using run k Inl translated_error by auto
  next
    case (Inr u)
    note run = run [unfolded k Inr prod.case sum.case b]
    show ?thesis
    proof (cases b)
      case (Inl x)
      then show ?thesis using run translated_error [OF server_command_error] b by auto
    next
      case binr: (Inr u')
      show ?thesis
      proof (cases o1)
        case (Inl x)
        then have "e = translateAvailabilityError x"
          using run binr o1 by (auto simp: Let_def split: prod.splits)
        then show ?thesis using begun binr o1 Inl by (cases u') blast
      next
        case oinr: (Inr v)
        show ?thesis
        proof (cases c)
          case (Inl x)
          then have "e = translateAvailabilityError x"
            using run binr o1 oinr c by (auto simp: Let_def split: prod.splits)
          then show ?thesis using translated_error [OF server_command_error] c Inl by blast
        next
          case (Inr u'')
          then show ?thesis using run binr o1 oinr c by (auto simp: Let_def)
        qed
      qed
    qed
  qed
qed

section \<open>One call\<close>

text \<open>The replay signal is private to the service: no connection throws it.\<close>

definition no_forged_replay :: "failures \<Rightarrow> bool" where
  "no_forged_replay fl \<longleftrightarrow> (\<forall>n ord. fl_error fl n \<noteq> Some (IdempotentReplay ord))"

lemma pool_lookup:
  assumes "sv_status s = NoTransaction" and "findByIdempotencyKey (server_query fl pg) k s = (s1, r)"
  shows "sv_committed s1 = sv_committed s" "sv_status s1 = NoTransaction"
    "\<And>x. r = Inr x \<Longrightarrow> x = map_option (record_of False) (stored_at (sv_committed s) k)"
    "\<And>e. r = Inl e \<Longrightarrow> connection_error fl e"
proof -
  have "sv_committed s1 = sv_committed s \<and> sv_status s1 = NoTransaction
      \<and> (case r of Inr x \<Rightarrow> x = map_option (record_of False) (stored_at (sv_committed s) k)
         | Inl e \<Rightarrow> connection_error fl e)"
  proof (cases "fl_error fl (sv_calls s)")
    case None
    have exec: "findByIdempotencyKey (exec_statement pg) k (sv_committed s)
        = (sv_committed s, Inr (map_option (record_of False) (stored_at (sv_committed s) k)))"
      by (rule findByIdempotencyKey_exec)
    show ?thesis
      using assms exec None
      by (auto simp: findByIdempotencyKey_def then_do_def runQuery_def server_query_def counted_def
          select_order_by_key_def split: option.splits)
  next
    case (Some x)
    then show ?thesis
      using assms by (auto simp: findByIdempotencyKey_def then_do_def runQuery_def server_query_def
          counted_def connection_error_def intro!: exI [of _ "sv_calls s"] exI [of _ x])
  qed
  then show "sv_committed s1 = sv_committed s" "sv_status s1 = NoTransaction"
    "\<And>x. r = Inr x \<Longrightarrow> x = map_option (record_of False) (stored_at (sv_committed s) k)"
    "\<And>e. r = Inl e \<Longrightarrow> connection_error fl e"
    by auto
qed

lemma withTransaction_closes:
  assumes "withTransaction (server_client fl) m None s = (s', calls, r)" and "sv_status s = NoTransaction"
  shows "sv_status s' = NoTransaction"
  using assms
  by (auto simp: withTransaction_def beginCommand_def server_client_def counted_def
      split: option.splits prod.splits)

lemma atomic_body_tables_ok: "preserves tables_ok (atomic_order_body (exec_statement pg) sha gen rq)"
proof -
  have case_option: "preserves P n \<Longrightarrow> (\<And>x. preserves P (f x)) \<Longrightarrow>
      preserves P (case v of None \<Rightarrow> n | Some x \<Rightarrow> f x)" for P n f v
    by (cases v) simp_all
  have lookups: "preserves tables_ok (findByIdForUpdate (exec_statement pg) i)"
    "preserves tables_ok (findByIdempotencyKey (exec_statement pg) k)" for i k
    by (simp_all add: preserves_def findById_exec findByIdempotencyKey_exec)
  show ?thesis
    unfolding atomic_order_body_def Let_def
    by (intro preserves_then_do preserves_basic preserves_repositories case_option lookups)
qed

lemma atomic_transaction:
  assumes uuid: "uuid_canonical pg" and forged: "no_forged_replay fl" and q: "0 < rq_quantity rq"
    and run: "withTransaction (server_client fl) (atomic_order_body (server_query fl pg) sha gen rq) None s
      = (s', calls, r)"
  shows "(tables_ok (sv_committed s) \<longrightarrow> tables_ok (sv_committed s')) \<and> (case r of
      Inr ord \<Rightarrow> sv_committed s' = sv_committed s \<and> order_replayed sha rq (sv_committed s) ord
        \<or> order_placed pg sha gen rq (sv_committed s) (sv_committed s') ord
    | Inl e \<Rightarrow> (\<forall>ord. e \<noteq> IdempotentReplay ord) \<and> (sv_committed s' = sv_committed s
        \<or> (\<exists>ord. order_placed pg sha gen rq (sv_committed s) (sv_committed s') ord
             \<and> Command ''COMMIT'' \<in> set calls)))"
proof -
  have kept: "tables_ok (sv_committed s) \<Longrightarrow>
      atomic_order_body (exec_statement pg) sha gen rq (sv_committed s) = (sv_committed s', x) \<Longrightarrow>
      tables_ok (sv_committed s')" for x
    using atomic_body_tables_ok [of pg sha gen rq] unfolding preserves_def by (metis fst_conv)
  note server = atomic_body_server [of fl pg sha gen rq]
  note outcome = transaction_outcome [OF run server(2) refines_simulates [OF server(1)]]
  show ?thesis
  proof (cases r)
    case (Inr ord)
    then show ?thesis using outcome atomic_body_exec [OF uuid q] kept by (simp only: sum.case) blast
  next
    case (Inl e)
    have "e \<noteq> IdempotentReplay ord" for ord
    proof
      assume e: "e = IdempotentReplay ord"
      then have "\<not> connection_error fl e" using forged by (auto simp: connection_error_def no_forged_replay_def)
      with server_transaction_error [OF run [unfolded Inl]] obtain s1 s2 where
        "working_tables s1 = Some (sv_committed s)"
        "atomic_order_body (server_query fl pg) sha gen rq s1 = (s2, Inl (IdempotentReplay ord))"
        using e by (auto simp: translateAvailabilityError_def split: if_splits)
      with refinesD [OF server(1)] show False
        using \<open>\<not> connection_error fl e\<close> e atomic_body_no_replay [OF q] by blast
    qed
    moreover have "sv_committed s' = sv_committed s \<or> (\<exists>ord.
        atomic_order_body (exec_statement pg) sha gen rq (sv_committed s) = (sv_committed s', Inr ord)
        \<and> Command ''COMMIT'' \<in> set calls)"
      using outcome unfolding Inl sum.case .
    ultimately show ?thesis
      using atomic_body_exec [OF uuid q, of sha gen "sv_committed s" "sv_committed s'"] kept
      unfolding Inl sum.case by (elim disjE) (simp, blast)
  qed
qed

lemma createAtomicOrder_cases:
  assumes uuid: "uuid_canonical pg" and forged: "no_forged_replay fl"
    and idle: "sv_status s = NoTransaction"
    and run: "createAtomicOrder (server_query fl pg) (server_client fl) sha gen input s = (s', calls, r)"
  shows "sv_status s' = NoTransaction \<and> (tables_ok (sv_committed s) \<longrightarrow> tables_ok (sv_committed s')) \<and> (case r of
      Inr ord \<Rightarrow> sv_committed s' = sv_committed s \<and> order_replayed sha (request_of input) (sv_committed s) ord
        \<or> order_placed pg sha gen (request_of input) (sv_committed s) (sv_committed s') ord
    | Inl e \<Rightarrow> (\<forall>ord. e \<noteq> IdempotentReplay ord) \<and> (sv_committed s' = sv_committed s
        \<or> (\<exists>ord. order_placed pg sha gen (request_of input) (sv_committed s) (sv_committed s') ord
             \<and> Command ''COMMIT'' \<in> set calls)))"
proof (cases "validateOrderInput input")
  case (Inl e)
  then show ?thesis
    using run idle by (auto simp: createAtomicOrder_def validateOrderInput_def split: if_splits)
next
  case valid: (Inr u)
  let ?rq = "request_of input"
  note q = validateOrderInput_positive(1) [OF valid]
  obtain s1 f where f: "findByIdempotencyKey (server_query fl pg) (rq_idempotencyKey ?rq) s = (s1, f)" by force
  note look = pool_lookup [OF idle f]
  note run = run [unfolded createAtomicOrder_def valid sum.case Let_def f prod.case]
  show ?thesis
  proof (cases f)
    case (Inl e)
    have "e \<noteq> IdempotentReplay ord" for ord
      using look(4) [OF Inl] forged by (auto simp: connection_error_def no_forged_replay_def)
    then show ?thesis using run Inl look(1,2) by auto
  next
    case found: (Inr x)
    show ?thesis
    proof (cases x)
      case (Some rec)
      obtain so where "stored_at (sv_committed s) (rq_idempotencyKey ?rq) = Some so" "rec = record_of False so"
        using look(3) [OF found] Some by (auto simp: map_option_case split: option.splits)
      then show ?thesis using run found Some look(1,2)
        by (cases so) (auto simp: resolveIdempotentOrder_def record_of_def order_replayed_def)
    next
      case None
      obtain s2 calls2 r2 where t: "withTransaction (server_client fl)
          (atomic_order_body (server_query fl pg) sha gen ?rq) None s1 = (s2, calls2, r2)"
        by (metis prod_cases3)
      note tx = atomic_transaction [OF uuid forged q t]
      have eq: "s' = s2" "calls = calls2" "r = r2"
        using run found None t tx by (auto split: sum.splits exn.splits)
      show ?thesis
        unfolding eq using tx [unfolded look(1)] withTransaction_closes [OF t look(2)] by blast
    qed
  qed
qed

section \<open>Stock and orders\<close>

definition stock_at :: "tables \<Rightarrow> string \<Rightarrow> int" where
  "stock_at t u = (case tb_products t u of None \<Rightarrow> 0 | Some r \<Rightarrow> pr_stock r)"

definition ordered_quantity :: "tables \<Rightarrow> string \<Rightarrow> int" where
  "ordered_quantity t u = sum_list (map or_quantity (filter (\<lambda>r. or_product_id r = u) (tb_orders t)))"

definition awaiting_processing :: "tables \<Rightarrow> order_row \<Rightarrow> bool" where
  "awaiting_processing t r \<longleftrightarrow>
     (\<exists>p. tb_order_processing t (or_id r) = Some p \<and> op_status p = ''PENDING'')"

text \<open>What any number of calls does to the tables.\<close>

definition orders_only_added :: "tables \<Rightarrow> tables \<Rightarrow> bool" where
  "orders_only_added t t' \<longleftrightarrow> (\<forall>u. stock_at t' u + ordered_quantity t' u = stock_at t u + ordered_quantity t u)
     \<and> stored_at t \<subseteq>\<^sub>m stored_at t'
     \<and> (\<exists>added. tb_orders t' = tb_orders t @ added \<and> (\<forall>r\<in>set added. awaiting_processing t' r))"

lemma orders_only_added_refl: "orders_only_added t t"
  by (simp add: orders_only_added_def)

lemma order_placed_adds:
  assumes placed: "order_placed pg sha gen rq t t' ord" and ok: "tables_ok t'"
    and before: "orders_only_added t0 t"
  shows "orders_only_added t0 t'" and "stored_at t' (rq_idempotencyKey rq)
      = Some (ord, Some (request_fingerprint sha rq))"
proof -
  obtain u row orow where p: "stored_at t (rq_idempotencyKey rq) = None"
    "pg_uuid pg (rq_productId rq) = Some u" "tb_products t u = Some row"
    "order_row_of pg (new_order_of gen rq) (Some (request_fingerprint sha rq)) = Some orow"
    "ord = mapOrder orow"
    "t' = t\<lparr>tb_products := (tb_products t)(u \<mapsto>
              row\<lparr>pr_stock := pr_stock row - rq_quantity rq, pr_version := pr_version row + 1\<rparr>),
            tb_orders := tb_orders t @ [orow],
            tb_order_processing := (tb_order_processing t)(or_id orow \<mapsto>
              \<lparr>op_order_id = or_id orow, op_status = ''PENDING'', op_created_at = pg_now pg,
               op_updated_at = pg_now pg\<rparr>)\<rparr>"
    using placed unfolding order_placed_def by blast
  have orow: "or_idempotency_key orow = rq_idempotencyKey rq" "or_quantity orow = rq_quantity rq"
    "or_product_id orow = u" "or_request_fingerprint orow = Some (request_fingerprint sha rq)"
    using order_row_of_fields [OF p(4)] p(2) by (simp_all add: new_order_of_def)
  have free: "key_row t (or_idempotency_key orow) = None"
    using p(1) orow(1) by (simp add: stored_at_def)
  have stored: "stored_at t' = (stored_at t)(rq_idempotencyKey rq \<mapsto> (ord, Some (request_fingerprint sha rq)))"
    using stored_at_append [OF free] orow(1,4) p(5) by (simp add: p(6) stored_at_def key_row_def fun_eq_iff)
  then show "stored_at t' (rq_idempotencyKey rq) = Some (ord, Some (request_fingerprint sha rq))" by simp
  have mono: "stored_at t \<subseteq>\<^sub>m stored_at t'"
    using p(1) by (auto simp: stored map_le_def)
  have stock: "stock_at t' v + ordered_quantity t' v = stock_at t v + ordered_quantity t v" for v
    using p(3) orow(2,3) by (simp add: p(6) stock_at_def ordered_quantity_def)
  obtain added where added: "tb_orders t = tb_orders t0 @ added" "\<forall>r\<in>set added. awaiting_processing t r"
    using before by (auto simp: orders_only_added_def)
  have "distinct (map or_id (tb_orders t'))" using ok by (simp add: tables_ok_def)
  then have "or_id orow \<notin> or_id ` set added" by (simp add: p(6) added(1))
  then have "or_id r \<noteq> or_id orow" if "r \<in> set added" for r
    using that by (metis imageI)
  then have "\<forall>r\<in>set (added @ [orow]). awaiting_processing t' r"
    using added(2) by (auto simp: awaiting_processing_def p(6))
  moreover have "tb_orders t' = tb_orders t0 @ (added @ [orow])" by (simp add: p(6) added(1))
  moreover have "stored_at t0 \<subseteq>\<^sub>m stored_at t'"
    using before mono map_le_trans unfolding orders_only_added_def by blast
  ultimately show "orders_only_added t0 t'"
    using before stock unfolding orders_only_added_def
    by (intro conjI allI exI [of _ "added @ [orow]"]) simp_all
qed

section \<open>Many calls\<close>

record atomic_call =
  ac_pg :: pg
  ac_failures :: failures
  ac_id :: string
  ac_input :: jsval

fun atomic_calls :: "(string \<Rightarrow> string) \<Rightarrow> atomic_call list \<Rightarrow> server \<Rightarrow> server \<times> order result list" where
  "atomic_calls sha [] s = (s, [])"
| "atomic_calls sha (c # cs) s =
     (case createAtomicOrder (server_query (ac_failures c) (ac_pg c)) (server_client (ac_failures c)) sha
             (ac_id c) (ac_input c) s of
        (s1, calls, r) \<Rightarrow> (case atomic_calls sha cs s1 of (s2, rs) \<Rightarrow> (s2, r # rs)))"

lemma atomic_call_step:
  assumes "uuid_canonical pg" and "no_forged_replay fl" and "sv_status s = NoTransaction"
    and run: "createAtomicOrder (server_query fl pg) (server_client fl) sha gen input s = (s', calls, r)"
    and ok: "tables_ok (sv_committed s)" and before: "orders_only_added t0 (sv_committed s)"
  shows "sv_status s' = NoTransaction" and "tables_ok (sv_committed s')"
    and "orders_only_added t0 (sv_committed s')"
    and "\<forall>ord. r = Inr ord \<longrightarrow>
      (\<exists>f. stored_at (sv_committed s') (rq_idempotencyKey (request_of input)) = Some (ord, f))"
proof -
  note cases = createAtomicOrder_cases [OF assms(1-4)]
  show ok': "tables_ok (sv_committed s')" and "sv_status s' = NoTransaction" using cases ok by blast+
  note adds = order_placed_adds [OF _ ok' before]
  show "orders_only_added t0 (sv_committed s')"
  proof (cases r)
    case (Inl e)
    then show ?thesis using cases adds(1) before by auto
  next
    case (Inr ord)
    then show ?thesis using cases adds(1) before by auto
  qed
  show "\<forall>ord. r = Inr ord \<longrightarrow>
      (\<exists>f. stored_at (sv_committed s') (rq_idempotencyKey (request_of input)) = Some (ord, f))"
    using cases adds(2) by (auto simp: order_replayed_def)
qed

lemma atomic_calls_outcome:
  assumes "\<forall>c\<in>set cs. uuid_canonical (ac_pg c) \<and> no_forged_replay (ac_failures c)"
    and "sv_status s = NoTransaction" and "tables_ok (sv_committed s)"
    and "orders_only_added t0 (sv_committed s)" and "atomic_calls sha cs s = (s', rs)"
  shows "tables_ok (sv_committed s') \<and> orders_only_added t0 (sv_committed s')
    \<and> stored_at (sv_committed s) \<subseteq>\<^sub>m stored_at (sv_committed s')
    \<and> (\<forall>(c, r)\<in>set (zip cs rs). \<forall>ord. r = Inr ord \<longrightarrow>
         (\<exists>f. stored_at (sv_committed s') (rq_idempotencyKey (request_of (ac_input c))) = Some (ord, f)))"
  using assms
proof (induction cs arbitrary: s s' rs)
  case (Cons c cs)
  obtain s1 calls r where run: "createAtomicOrder (server_query (ac_failures c) (ac_pg c))
      (server_client (ac_failures c)) sha (ac_id c) (ac_input c) s = (s1, calls, r)"
    by (metis prod_cases3)
  obtain s2 rs2 where rest: "atomic_calls sha cs s1 = (s2, rs2)" by force
  have out: "s' = s2" "rs = r # rs2" using Cons.prems(5) run rest by simp_all
  have c: "uuid_canonical (ac_pg c)" "no_forged_replay (ac_failures c)" using Cons.prems(1) by simp_all
  note step = atomic_call_step [OF c Cons.prems(2) run Cons.prems(3)]
  have grow: "stored_at (sv_committed s) \<subseteq>\<^sub>m stored_at (sv_committed s1)"
    using step(3) [OF orders_only_added_refl] by (simp add: orders_only_added_def)
  have "\<forall>c\<in>set cs. uuid_canonical (ac_pg c) \<and> no_forged_replay (ac_failures c)"
    using Cons.prems(1) by simp
  note IH = Cons.IH [OF this step(1) [OF Cons.prems(4)] step(2) [OF Cons.prems(4)] step(3) [OF Cons.prems(4)] rest]
  from IH have later: "stored_at (sv_committed s1) \<subseteq>\<^sub>m stored_at (sv_committed s2)" by (elim conjE)
  have first: "\<exists>f. stored_at (sv_committed s2) (rq_idempotencyKey (request_of (ac_input c))) = Some (ord, f)"
    if "r = Inr ord" for ord
  proof -
    from step(4) [OF Cons.prems(4), rule_format, OF that] obtain f where
      "stored_at (sv_committed s1) (rq_idempotencyKey (request_of (ac_input c))) = Some (ord, f)" by (elim exE)
    then show ?thesis using map_le_Some [OF later] by blast
  qed
  show ?case
    unfolding out using IH first map_le_trans [OF grow] by auto
qed simp

section \<open>The successful path\<close>

text \<open>What a request needs to be placed: free key and id, valid columns, enough stock.\<close>

definition placeable :: "pg \<Rightarrow> (string \<Rightarrow> string) \<Rightarrow> string \<Rightarrow> order_request \<Rightarrow> tables \<Rightarrow> bool" where
  "placeable pg sha gen rq t \<longleftrightarrow> (\<exists>u row orow.
     key_row t (rq_idempotencyKey rq) = None
   \<and> pg_uuid pg (rq_productId rq) = Some u \<and> tb_products t u = Some row
   \<and> rq_quantity rq \<le> pr_stock row \<and> pr_version row < 2147483647
   \<and> order_row_of pg (new_order_of gen rq) (Some (request_fingerprint sha rq)) = Some orow
   \<and> order_id_free t orow \<and> first_violation (order_rules orow) = None)"

lemma reserveLocked_succeeds:
  assumes "pg_uuid pg i = Some u" and "tb_products t u = Some row" and "product_ok row"
    and "0 < q" and "in_int4 q" and "q \<le> pr_stock row" and "pr_version row < 2147483647"
  shows "\<exists>p. reserveLocked (exec_statement pg) i (JInt q) t
    = (t\<lparr>tb_products := (tb_products t)(u \<mapsto>
        row\<lparr>pr_stock := pr_stock row - q, pr_version := pr_version row + 1\<rparr>)\<rparr>, Inr (Some p))"
proof -
  let ?row = "row\<lparr>pr_stock := pr_stock row - q, pr_version := pr_version row + 1\<rparr>"
  have "product_ok ?row" using assms(3,4,6,7) by (simp add: product_ok_def in_int4_def)
  then have "first_violation (product_rules ?row) = None" by (rule product_rules_None [THEN iffD2])
  then show ?thesis using assms by (simp add: reserveLocked_def then_do_def update_reserve_def Let_def null_or_def)
qed

lemma createIdempotent_succeeds:
  assumes "order_row_of pg o' fp = Some orow" and "first_violation (order_rules orow) = None"
    and "order_id_free t orow" and "key_row t (or_idempotency_key orow) = None"
    and "tb_products t (or_product_id orow) \<noteq> None"
  shows "createIdempotent (exec_statement pg) o' fp t
    = (t\<lparr>tb_orders := tb_orders t @ [orow]\<rparr>, Inr (Some (mapIdempotencyRecord orow True)))"
  using assms by (simp add: createIdempotent_def then_do_def insert_order_def)

lemma createOrderProcessing_succeeds:
  assumes "pg_uuid pg i = Some i" and "tb_order_processing t i = None" and "i \<in> set (map or_id (tb_orders t))"
  shows "\<exists>t' p. createOrderProcessing (exec_statement pg) i None t = (t', Inr p)"
  using assms by (simp add: createOrderProcessing_def then_do_def insert_processing_def Let_def
      processing_rules_def STATUSES_def)

lemma atomic_body_succeeds:
  assumes uuid: "uuid_canonical pg" and ok: "tables_ok t" and q: "0 < rq_quantity rq"
    and place: "placeable pg sha gen rq t"
  shows "\<exists>t' ord. atomic_order_body (exec_statement pg) sha gen rq t = (t', Inr ord)"
proof -
  let ?fp = "request_fingerprint sha rq"
  let ?o = "new_order_of gen rq"
  obtain u row orow where p: "key_row t (rq_idempotencyKey rq) = None"
    "pg_uuid pg (rq_productId rq) = Some u" "tb_products t u = Some row" "rq_quantity rq \<le> pr_stock row"
    "pr_version row < 2147483647" "order_row_of pg ?o (Some ?fp) = Some orow"
    "order_id_free t orow" "first_violation (order_rules orow) = None"
    using place unfolding placeable_def by blast
  note orow = order_row_of_fields [OF p(6)]
  have fields: "or_idempotency_key orow = rq_idempotencyKey rq" "or_quantity orow = rq_quantity rq"
    "or_product_id orow = u" using orow p(2) by (simp_all add: new_order_of_def)
  have row: "product_ok row" using ok p(3) by (simp add: tables_ok_def)
  have "in_int4 (rq_quantity rq)" using order_rules_None [OF p(8)] fields(2) by (simp add: order_ok_def)
  from reserveLocked_succeeds [OF p(2,3) row q this p(4,5)] obtain r where
    r: "reserveLocked (exec_statement pg) (rq_productId rq) (JInt (rq_quantity rq)) t
      = (t\<lparr>tb_products := (tb_products t)(u \<mapsto>
        row\<lparr>pr_stock := pr_stock row - rq_quantity rq, pr_version := pr_version row + 1\<rparr>)\<rparr>, Inr (Some r))"
    (is "_ = (?t1, _)") by blast
  have c: "createIdempotent (exec_statement pg) ?o (Some ?fp) ?t1
      = (?t1\<lparr>tb_orders := tb_orders ?t1 @ [orow]\<rparr>, Inr (Some (mapIdempotencyRecord orow True)))"
    by (rule createIdempotent_succeeds [OF p(6,8)])
      (use p(1,7) fields in \<open>simp_all add: order_id_free_def key_row_def\<close>)
  have "or_id orow \<notin> set (map or_id (tb_orders t))" using p(7) by (auto simp: order_id_free_def list_all_iff)
  then have "tb_order_processing t (or_id orow) = None"
    using ok unfolding tables_ok_def by (metis not_None_eq)
  moreover have "pg_uuid pg (or_id orow) = Some (or_id orow)"
    using uuid orow(5) by (simp add: uuid_canonical_def)
  ultimately obtain t' pr where "createOrderProcessing (exec_statement pg) (or_id orow) None
      (?t1\<lparr>tb_orders := tb_orders ?t1 @ [orow]\<rparr>) = (t', Inr pr)"
    using createOrderProcessing_succeeds [of pg "or_id orow" "?t1\<lparr>tb_orders := tb_orders ?t1 @ [orow]\<rparr>"] by auto
  then show ?thesis
    using p(1-4) r c
    by (simp add: atomic_order_body_def Let_def then_do_def findById_exec findByIdempotencyKey_exec stored_at_def
        product_at_def mapProduct_def mapIdempotencyRecord_def mapOrder_def)
qed

lemma atomic_transaction_succeeds:
  assumes uuid: "uuid_canonical pg" and ok: "tables_ok (sv_committed s)" and q: "0 < rq_quantity rq"
    and place: "placeable pg sha gen rq (sv_committed s)"
    and run: "withTransaction (server_client no_failures) (atomic_order_body (server_query no_failures pg) sha gen rq)
      None s = (s', calls, r)"
  shows "\<exists>ord. r = Inr ord"
proof (cases r)
  case (Inl e)
  have none: "\<not> connection_error no_failures e'" for e' by (simp add: connection_error_def no_failures_def)
  obtain s1 s2 x where "working_tables s1 = Some (sv_committed s)"
    "atomic_order_body (server_query no_failures pg) sha gen rq s1 = (s2, Inl x)"
    using server_transaction_error [OF run [unfolded Inl]] none by blast
  then have "\<exists>t'. atomic_order_body (exec_statement pg) sha gen rq (sv_committed s) = (t', Inl x)"
    using refinesD [OF atomic_body_server(1)] none by blast
  then show ?thesis using atomic_body_succeeds [OF uuid ok q place] by auto
qed simp

section \<open>Properties\<close>

text \<open>
  C1. A placed order is all or nothing.  On a server whose calls may fail at any point, a call that
  returns an order either replays the stored order of its key for the same request and changes
  nothing, or it has taken the quantity off a sufficient stock, stored exactly that order
  and its pending processing state, and nothing else; a call that throws has changed nothing, or
  the acknowledgement of \<open>COMMIT\<close> was lost and all of it is there.  The internal replay signal never
  escapes.
\<close>

theorem atomic_order_all_or_nothing:
  assumes "uuid_canonical pg" and "no_forged_replay fl" and "sv_status s = NoTransaction"
    and "createAtomicOrder (server_query fl pg) (server_client fl) sha gen input s = (s', calls, r)"
  shows "case r of
      Inr ord \<Rightarrow> sv_committed s' = sv_committed s \<and> order_replayed sha (request_of input) (sv_committed s) ord
        \<or> order_placed pg sha gen (request_of input) (sv_committed s) (sv_committed s') ord
    | Inl e \<Rightarrow> (\<forall>ord. e \<noteq> IdempotentReplay ord) \<and> (sv_committed s' = sv_committed s
        \<or> (\<exists>ord. order_placed pg sha gen (request_of input) (sv_committed s) (sv_committed s') ord
             \<and> Command ''COMMIT'' \<in> set calls))"
  using createAtomicOrder_cases [OF assms] by (elim conjE)

text \<open>
  C23. A placeable request is placed.  When no call of the database fails, a valid request whose key and
  order id are free, whose columns are in range and whose product has the stock returns an order
  that is then placed.
\<close>

theorem atomic_order_succeeds:
  assumes "uuid_canonical pg" and "tables_ok (sv_committed s)" and "sv_status s = NoTransaction"
    and "validateOrderInput input = Inr ()" and "placeable pg sha gen (request_of input) (sv_committed s)"
  shows "\<exists>s' calls ord. createAtomicOrder (server_query no_failures pg) (server_client no_failures) sha gen input s
      = (s', calls, Inr ord) \<and> order_placed pg sha gen (request_of input) (sv_committed s) (sv_committed s') ord"
proof -
  let ?rq = "request_of input"
  note q = validateOrderInput_positive(1) [OF assms(4)]
  have free: "stored_at (sv_committed s) (rq_idempotencyKey ?rq) = None"
    using assms(5) by (auto simp: placeable_def stored_at_def)
  obtain s1 f where f: "findByIdempotencyKey (server_query no_failures pg) (rq_idempotencyKey ?rq) s = (s1, f)" by force
  note look = pool_lookup [OF assms(3) f]
  have "f = Inr None"
    using look(3,4) free by (cases f) (auto simp: connection_error_def no_failures_def)
  obtain s2 calls r where t: "withTransaction (server_client no_failures)
      (atomic_order_body (server_query no_failures pg) sha gen ?rq) None s1 = (s2, calls, r)" by (metis prod_cases3)
  then obtain ord where r: "r = Inr ord"
    using atomic_transaction_succeeds [OF assms(1) _ q _ t] look(1) assms(2,5) by auto
  have run: "createAtomicOrder (server_query no_failures pg) (server_client no_failures) sha gen input s
      = (s2, calls, Inr ord)"
    using assms(4) f \<open>f = Inr None\<close> t r by (simp add: createAtomicOrder_def Let_def)
  have "no_forged_replay no_failures" by (simp add: no_forged_replay_def no_failures_def)
  from createAtomicOrder_cases [OF assms(1) this assms(3) run] free
  have "order_placed pg sha gen ?rq (sv_committed s) (sv_committed s2) ord"
    by (auto simp: order_replayed_def)
  then show ?thesis using run by blast
qed

text \<open>
  C2. No sequence of atomic orders oversells.  Over any sequence of calls, each with its own failures,
  clock, id and input, the constraints hold, the stock of every product plus the quantity ordered
  of it is constant and the stock never negative, no stored order is lost or changed, every added
  order awaits processing, and every order that a call returned is the one stored under its key.
\<close>

theorem atomic_orders_conserve_stock:
  assumes "\<forall>c\<in>set cs. uuid_canonical (ac_pg c) \<and> no_forged_replay (ac_failures c)"
    and "sv_status s = NoTransaction" and "tables_ok (sv_committed s)"
    and "atomic_calls sha cs s = (s', rs)"
  shows "tables_ok (sv_committed s') \<and> orders_only_added (sv_committed s) (sv_committed s')
    \<and> (\<forall>u. 0 \<le> stock_at (sv_committed s') u)
    \<and> (\<forall>(c, r)\<in>set (zip cs rs). \<forall>ord. r = Inr ord \<longrightarrow>
         (\<exists>f. stored_at (sv_committed s') (rq_idempotencyKey (request_of (ac_input c))) = Some (ord, f)))"
proof -
  note out = atomic_calls_outcome [OF assms(1-3) orders_only_added_refl assms(4)]
  have "0 \<le> stock_at t u" if "tables_ok t" for t u
    using that by (auto simp: tables_ok_def product_ok_def stock_at_def split: option.split)
  then show ?thesis using out by blast
qed

definition sample_sha :: "string \<Rightarrow> string" where
  "sample_sha s = replicate 64 CHR ''0''"

definition sample_request :: jsval where
  "sample_request = JObj [(''customerId'', JStr ''c''), (''productId'', JStr ''p''), (''quantity'', JInt 3),
     (''amount'', JInt 5), (''idempotencyKey'', JStr ''k'')]"

lemma sample_canonical: "uuid_canonical sample_pg"
  by (simp add: uuid_canonical_def sample_pg_def)

lemma no_failures_no_replay: "no_forged_replay no_failures"
  by (simp add: no_forged_replay_def no_failures_def)

lemma sample_server_ready: "sv_status sample_server = NoTransaction" "tables_ok (sv_committed sample_server)"
  by (simp_all add: sample_server_def sample_tables_ok)

lemma sample_request_valid: "validateOrderInput sample_request = Inr ()"
  by code_simp

lemma sample_request_fields:
  "request_of sample_request = \<lparr>rq_customerId = ''c'', rq_productId = ''p'', rq_quantity = 3, rq_amount = 5,
     rq_idempotencyKey = ''k'', rq_context = JUndefined\<rparr>"
  by code_simp

lemma sample_placeable: "placeable sample_pg sample_sha ''o1'' (request_of sample_request) (sv_committed sample_server)"
proof -
  have "sha256_text (replicate 64 CHR ''0'')"
    by (simp add: sha256_text_def hex_char_def list_all_iff)
  then show ?thesis
    unfolding sample_request_fields placeable_def
    by (simp add: sample_server_def sample_tables_def empty_tables_def sample_pg_def key_row_def order_row_of_def
        new_order_of_def order_id_free_def order_rules_def in_int4_def STATUSES_def request_fingerprint_def
        fingerprintOrderRequest_def sample_sha_def)
qed

theorem atomic_order_succeeds_witness:
  "\<exists>s' calls ord. createAtomicOrder (server_query no_failures sample_pg) (server_client no_failures) sample_sha
      ''o1'' sample_request sample_server = (s', calls, Inr ord)
    \<and> order_placed sample_pg sample_sha ''o1'' (request_of sample_request) sample_tables (sv_committed s') ord"
  using atomic_order_succeeds [OF sample_canonical sample_server_ready(2,1) sample_request_valid sample_placeable]
  by (simp add: sample_server_def)

lemma sample_atomic_returns:
  "isl (snd (snd (createAtomicOrder (server_query no_failures sample_pg) (server_client no_failures) sample_sha
      ''o1'' sample_request sample_server))) = False"
  by code_simp

theorem atomic_order_all_or_nothing_witness:
  "\<exists>s' calls ord. createAtomicOrder (server_query no_failures sample_pg) (server_client no_failures) sample_sha
      ''o1'' sample_request sample_server = (s', calls, Inr ord)
    \<and> order_placed sample_pg sample_sha ''o1'' (request_of sample_request) sample_tables (sv_committed s') ord"
proof -
  obtain s' calls r where run: "createAtomicOrder (server_query no_failures sample_pg) (server_client no_failures)
      sample_sha ''o1'' sample_request sample_server = (s', calls, r)" by (metis prod_cases3)
  obtain ord where r: "r = Inr ord" using sample_atomic_returns run by (cases r) auto
  have "stored_at sample_tables ''k'' = None"
    by (simp add: stored_at_def key_row_def sample_tables_def empty_tables_def)
  then show ?thesis
    using atomic_order_all_or_nothing [OF sample_canonical no_failures_no_replay sample_server_ready(1) run] run r
    by (auto simp: order_replayed_def sample_request_fields sample_server_def)
qed

definition sample_call :: "string \<Rightarrow> atomic_call" where
  "sample_call i = \<lparr>ac_pg = sample_pg, ac_failures = no_failures, ac_id = i, ac_input = sample_request\<rparr>"

theorem atomic_orders_conserve_stock_witness:
  "\<exists>s' rs. atomic_calls sample_sha [sample_call ''o1'', sample_call ''o2''] sample_server = (s', rs)
    \<and> stock_at (sv_committed s') ''p'' + ordered_quantity (sv_committed s') ''p'' = 10"
proof -
  obtain s' rs where run: "atomic_calls sample_sha [sample_call ''o1'', sample_call ''o2''] sample_server = (s', rs)"
    by force
  have "\<forall>c\<in>set [sample_call ''o1'', sample_call ''o2'']. uuid_canonical (ac_pg c) \<and> no_forged_replay (ac_failures c)"
    by (simp add: sample_call_def sample_canonical no_failures_no_replay)
  from atomic_orders_conserve_stock [OF this sample_server_ready run]
  have "stock_at (sv_committed s') ''p'' + ordered_quantity (sv_committed s') ''p''
    = stock_at sample_tables ''p'' + ordered_quantity sample_tables ''p''"
    by (simp add: orders_only_added_def sample_server_def)
  then show ?thesis
    using run by (simp add: stock_at_def ordered_quantity_def sample_tables_def empty_tables_def)
qed

end
