(* ===== verification/Order_Locks.thy ===== *)
theory Order_Locks
  imports Atomic_Orders
begin

text \<open>
  The transaction of \<open>createOrder\<close> (\<open>apps/api/src/create-atomic-order.js\<close>), one statement at a time.
  The body is \<open>atomic_order_body\<close> itself: it is run on a script of the answers its statements have had
  so far, and stops at the first statement that has no answer yet.  \<open>progress\<close> lists the points a
  transaction can be at, with the rows it has written and the row locks it holds; a commit does what
  the whole body does on the committed rows (\<open>commit_is_serial\<close>), and what a transaction has learnt
  survives the commits of others, because they write only rows that they have locked (\<open>progress_other\<close>).

  The locks are the documented row locks of PostgreSQL at its default isolation: \<open>FOR UPDATE\<close> and the
  writes lock the rows they return until the transaction ends, and an insert conflicts with an
  uncommitted insert of the same key.  The foreign keys of the inserts refer to rows that the
  transaction has locked already.
\<close>

section \<open>The next statement of a body\<close>

type_synonym answers = "sql_row list result list"
type_synonym script = "answers \<times> sql_statement option"

definition suspended :: exn where
  "suspended = Thrown JUndefined"

fun scripted :: "script queryable" where
  "scripted st (a # as, None) = ((as, None), a)"
| "scripted st ([], None) = (([], Some st), Inl suspended)"
| "scripted st (as, Some asked) = ((as, Some asked), Inl suspended)"

definition next_query :: "(script, 'a) action \<Rightarrow> answers \<Rightarrow> sql_statement + 'a result" where
  "next_query m as = (case m (as, None) of
      ((_, Some st), _) \<Rightarrow> Inl st
    | ((_, None), r) \<Rightarrow> Inr r)"

section \<open>Changes and locks of a transaction\<close>

record changes =
  ch_products :: "string \<rightharpoonup> product_row"
  ch_orders :: "order_row list"
  ch_order_processing :: "string \<rightharpoonup> processing_row"
  ch_processed_messages :: "string \<rightharpoonup> processed_row"

definition no_changes :: changes where
  "no_changes = \<lparr>ch_products = Map.empty, ch_orders = [], ch_order_processing = Map.empty,
     ch_processed_messages = Map.empty\<rparr>"

definition apply_changes :: "changes \<Rightarrow> tables \<Rightarrow> tables" where
  "apply_changes ch t = \<lparr>tb_products = tb_products t ++ ch_products ch, tb_orders = tb_orders t @ ch_orders ch,
     tb_order_processing = tb_order_processing t ++ ch_order_processing ch,
     tb_processed_messages = tb_processed_messages t ++ ch_processed_messages ch\<rparr>"

text \<open>The rows that differ between two maps.\<close>

definition changed_rows :: "('k \<rightharpoonup> 'v) \<Rightarrow> ('k \<rightharpoonup> 'v) \<Rightarrow> ('k \<rightharpoonup> 'v)" where
  "changed_rows m m' k = (if m' k = m k then None else m' k)"

definition record_changes :: "changes \<Rightarrow> tables \<Rightarrow> tables \<Rightarrow> changes" where
  "record_changes ch t t' =
     \<lparr>ch_products = ch_products ch ++ changed_rows (tb_products t) (tb_products t'),
      ch_orders = ch_orders ch @ drop (length (tb_orders t)) (tb_orders t'),
      ch_order_processing = ch_order_processing ch ++ changed_rows (tb_order_processing t) (tb_order_processing t'),
      ch_processed_messages = ch_processed_messages ch ++ changed_rows (tb_processed_messages t) (tb_processed_messages t')\<rparr>"

datatype row_lock =
    LockProduct string
  | LockOrderKey string
  | LockOrderId string
  | LockProcessing string
  | LockMessage string

definition product_locks :: "pg \<Rightarrow> tables \<Rightarrow> string \<Rightarrow> row_lock list" where
  "product_locks pg t i = (case pg_uuid pg i of
      None \<Rightarrow> []
    | Some u \<Rightarrow> if tb_products t u = None then [] else [LockProduct u])"

definition order_locks :: "pg \<Rightarrow> new_order \<Rightarrow> row_lock list" where
  "order_locks pg o' = LockOrderKey (no_idempotencyKey o') #
     (case pg_uuid pg (no_id o') of None \<Rightarrow> [] | Some u \<Rightarrow> [LockOrderId u])"

fun locks_wanted :: "pg \<Rightarrow> tables \<Rightarrow> sql_statement \<Rightarrow> row_lock list" where
  "locks_wanted pg t (SelectProductForUpdate i) = product_locks pg t i"
| "locks_wanted pg t (UpdateReserveLocked i q) = product_locks pg t i"
| "locks_wanted pg t (UpdateReserveWithVersion i q v) = product_locks pg t i"
| "locks_wanted pg t (InsertProduct i n s v) = (case pg_uuid pg i of None \<Rightarrow> [] | Some u \<Rightarrow> [LockProduct u])"
| "locks_wanted pg t (InsertOrder o') = order_locks pg o'"
| "locks_wanted pg t (InsertOrderIdempotent o' fp) = order_locks pg o'"
| "locks_wanted pg t (InsertProcessing i st) = (case pg_uuid pg i of None \<Rightarrow> [] | Some u \<Rightarrow> [LockProcessing u])"
| "locks_wanted pg t (InsertProcessedMessage m) = [LockMessage m]"
| "locks_wanted pg t _ = []"

text \<open>A statement that returned no row has locked none.\<close>

definition locks_taken :: "sql_row list result \<Rightarrow> row_lock list \<Rightarrow> row_lock list" where
  "locks_taken a wanted = (case a of Inr (r # rs) \<Rightarrow> wanted | _ \<Rightarrow> [])"

section \<open>A call\<close>

record order_call =
  cl_pg :: pg
  cl_id :: string
  cl_input :: jsval

definition call_body :: "(string \<Rightarrow> string) \<Rightarrow> order_call \<Rightarrow> 's queryable \<Rightarrow> ('s, order) action" where
  "call_body sha c query = atomic_order_body query sha (cl_id c) (request_of (cl_input c))"

section \<open>The statements of an atomic order\<close>

lemma scripted_run:
  "runQuery scripted st (a # as, None) = (case a of
      Inl e \<Rightarrow> ((as, None), Inl (if isDatabaseUnavailable e then DatabaseUnavailableError (Some e) else e))
    | Inr rows \<Rightarrow> ((as, None), Inr rows))"
  "\<exists>e. runQuery scripted st ([], None) = (([], Some st), Inl e)"
  by (simp_all add: runQuery_def split: sum.split)

lemmas body_unfold = next_query_def call_body_def atomic_order_body_def Let_def then_do_def findByIdForUpdate_def
  findByIdempotencyKey_def reserveLocked_def createIdempotent_def createOrderProcessing_def runQuery_def null_or_def
  mapProduct_def new_order_of_def mapIdempotencyRecord_def mapOrder_def

abbreviation rq_of :: "order_call \<Rightarrow> order_request" where
  "rq_of c \<equiv> request_of (cl_input c)"

abbreviation fp_of :: "(string \<Rightarrow> string) \<Rightarrow> order_call \<Rightarrow> string" where
  "fp_of sha c \<equiv> request_fingerprint sha (rq_of c)"

abbreviation asks :: "(string \<Rightarrow> string) \<Rightarrow> order_call \<Rightarrow> answers \<Rightarrow> sql_statement + order result" where
  "asks sha c \<equiv> next_query (call_body sha c scripted)"

lemma asks_product: "asks sha c [] = Inl (SelectProductForUpdate (rq_productId (rq_of c)))"
  by (simp add: body_unfold)

lemma asks_key:
  "asks sha c [Inr []] = Inl (SelectOrderByKey (rq_idempotencyKey (rq_of c)))"
  "asks sha c [Inr [ProductRow p]] = Inl (SelectOrderByKey (rq_idempotencyKey (rq_of c)))"
  by (simp_all add: body_unfold)

lemma asks_replays:
  "asks sha c [Inr [], Inr [OrderRow r]] = Inr (resolveIdempotentOrder sha (mapIdempotencyRecord r False) (fp_of sha c))"
  "asks sha c [Inr [ProductRow p], Inr [OrderRow r]]
     = Inr (resolveIdempotentOrder sha (mapIdempotencyRecord r False) (fp_of sha c))"
  by (simp_all add: body_unfold)

lemma asks_reservation:
  "asks sha c [Inr [], Inr []] = Inr (Inl ProductNotFoundError)"
  "0 < rq_quantity (rq_of c) \<Longrightarrow> asks sha c [Inr [ProductRow p], Inr []] =
     (if pr_stock p < rq_quantity (rq_of c) then Inr (Inl OrderInsufficientInventoryError)
      else Inl (UpdateReserveLocked (rq_productId (rq_of c)) (rq_quantity (rq_of c))))"
  by (simp_all add: body_unfold)

text \<open>After a reservation of enough stock.\<close>

definition enough :: "order_call \<Rightarrow> product_row \<Rightarrow> bool" where
  "enough c p \<longleftrightarrow> 0 < rq_quantity (rq_of c) \<and> rq_quantity (rq_of c) \<le> pr_stock p"

lemma asks_insert:
  assumes "enough c p"
  shows "asks sha c [Inr [ProductRow p], Inr [], Inr []] = Inr (Inl OrderInsufficientInventoryError)"
    and "asks sha c [Inr [ProductRow p], Inr [], Inr [ProductRow p']]
      = Inl (InsertOrderIdempotent (new_order_of (cl_id c) (rq_of c)) (Some (fp_of sha c)))"
  using assms by (simp_all add: enough_def body_unfold)

lemma asks_processing:
  assumes "enough c p"
  shows "asks sha c [Inr [ProductRow p], Inr [], Inr [ProductRow p'], Inr [OrderRow r]]
      = Inl (InsertProcessing (or_id r) ''PENDING'')"
    and "asks sha c [Inr [ProductRow p], Inr [], Inr [ProductRow p'], Inr []]
      = Inl (SelectOrderByKey (rq_idempotencyKey (rq_of c)))"
  using assms by (simp_all add: enough_def body_unfold)

lemma asks_nothing:
  assumes "enough c p"
  shows "asks sha c [Inr [ProductRow p], Inr [], Inr [ProductRow p'], Inr [OrderRow r], Inr [ProcessingRow x]]
      = Inr (Inr (mapOrder r))"
    and "asks sha c [Inr [ProductRow p], Inr [], Inr [ProductRow p'], Inr [], Inr []] = Inr (Inl no_row)"
    and "asks sha c [Inr [ProductRow p], Inr [], Inr [ProductRow p'], Inr [], Inr [OrderRow r]]
      = Inr (Inl (case resolveIdempotentOrder sha (mapIdempotencyRecord r False) (fp_of sha c) of
          Inl e \<Rightarrow> e | Inr ord \<Rightarrow> IdempotentReplay ord))"
  using assms by (simp_all add: enough_def body_unfold split: sum.split)

lemma asks_after_error:
  "\<exists>x. asks sha c [Inl e] = Inr (Inl x) \<and> (x = e \<or> x = DatabaseUnavailableError (Some e))"
  "\<exists>x. asks sha c [Inr [], Inl e] = Inr (Inl x) \<and> (x = e \<or> x = DatabaseUnavailableError (Some e))"
  "\<exists>x. asks sha c [Inr [ProductRow p], Inl e] = Inr (Inl x) \<and> (x = e \<or> x = DatabaseUnavailableError (Some e))"
  "enough c p \<Longrightarrow> \<exists>x. asks sha c [Inr [ProductRow p], Inr [], Inl e] = Inr (Inl x)
     \<and> (x = e \<or> x = DatabaseUnavailableError (Some e))"
  "enough c p \<Longrightarrow> \<exists>x. asks sha c [Inr [ProductRow p], Inr [], Inr [ProductRow p'], Inl e] = Inr (Inl x)
     \<and> (x = e \<or> x = DatabaseUnavailableError (Some e))"
  "enough c p \<Longrightarrow> \<exists>x. asks sha c [Inr [ProductRow p], Inr [], Inr [ProductRow p'], Inr [OrderRow r], Inl e] = Inr (Inl x)
     \<and> (x = e \<or> x = DatabaseUnavailableError (Some e))"
  "enough c p \<Longrightarrow> \<exists>x. asks sha c [Inr [ProductRow p], Inr [], Inr [ProductRow p'], Inr [], Inl e] = Inr (Inl x)
     \<and> (x = e \<or> x = DatabaseUnavailableError (Some e))"
  by (simp_all add: enough_def body_unfold)

section \<open>How far a transaction is\<close>

definition product_row_of :: "tables \<Rightarrow> string \<Rightarrow> sql_row list" where
  "product_row_of t u = (case tb_products t u of None \<Rightarrow> [] | Some p \<Rightarrow> [ProductRow p])"

definition product_lock_of :: "tables \<Rightarrow> string \<Rightarrow> row_lock list" where
  "product_lock_of t u = (if tb_products t u = None then [] else [LockProduct u])"

definition reserved_row :: "order_call \<Rightarrow> product_row \<Rightarrow> product_row" where
  "reserved_row c p = p\<lparr>pr_stock := pr_stock p - rq_quantity (rq_of c), pr_version := pr_version p + 1\<rparr>"

text \<open>The product \<open>u\<close> of the call, its row \<open>p\<close>, and the reservation of it.\<close>

definition reserves :: "order_call \<Rightarrow> tables \<Rightarrow> string \<Rightarrow> product_row \<Rightarrow> bool" where
  "reserves c t u p \<longleftrightarrow> pg_uuid (cl_pg c) (rq_productId (rq_of c)) = Some u \<and> tb_products t u = Some p \<and> enough c p"

definition reservation_ok :: "order_call \<Rightarrow> product_row \<Rightarrow> bool" where
  "reservation_ok c p \<longleftrightarrow> in_int4 (rq_quantity (rq_of c)) \<and> first_violation (product_rules (reserved_row c p)) = None"

definition insert_ok :: "(string \<Rightarrow> string) \<Rightarrow> order_call \<Rightarrow> tables \<Rightarrow> order_row \<Rightarrow> bool" where
  "insert_ok sha c t row \<longleftrightarrow>
     order_row_of (cl_pg c) (new_order_of (cl_id c) (rq_of c)) (Some (fp_of sha c)) = Some row
   \<and> first_violation (order_rules row) = None \<and> key_row t (rq_idempotencyKey (rq_of c)) = None \<and> order_id_free t row"

definition order_lock_of :: "order_call \<Rightarrow> row_lock list" where
  "order_lock_of c = order_locks (cl_pg c) (new_order_of (cl_id c) (rq_of c))"

definition pending_row :: "order_call \<Rightarrow> order_row \<Rightarrow> processing_row" where
  "pending_row c row = \<lparr>op_order_id = or_id row, op_status = ''PENDING'', op_created_at = pg_now (cl_pg c),
     op_updated_at = pg_now (cl_pg c)\<rparr>"

definition replay_stored :: "order_call \<Rightarrow> tables \<Rightarrow> order \<Rightarrow> bool" where
  "replay_stored c t ord \<longleftrightarrow> (\<exists>f. stored_at t (rq_idempotencyKey (rq_of c)) = Some (ord, f))"

inductive progress :: "(string \<Rightarrow> string) \<Rightarrow> order_call \<Rightarrow> tables \<Rightarrow> answers \<Rightarrow> changes \<Rightarrow> row_lock list \<Rightarrow> bool"
  for sha c t where
  begun: "progress sha c t [] no_changes []"
| looked: "pg_uuid (cl_pg c) (rq_productId (rq_of c)) = Some u \<Longrightarrow>
    progress sha c t [Inr (product_row_of t u)] no_changes (product_lock_of t u)"
| replays: "pg_uuid (cl_pg c) (rq_productId (rq_of c)) = Some u \<Longrightarrow>
    key_row t (rq_idempotencyKey (rq_of c)) = Some r \<Longrightarrow> a = [] \<or> (\<exists>p. a = [ProductRow p]) \<Longrightarrow>
    progress sha c t [Inr a, Inr [OrderRow r]] no_changes L"
| chosen: "reserves c t u p \<Longrightarrow> progress sha c t [Inr [ProductRow p], Inr []] no_changes [LockProduct u]"
| reserved: "reserves c t u p \<Longrightarrow> reservation_ok c p \<Longrightarrow>
    progress sha c t [Inr [ProductRow p], Inr [], Inr [ProductRow (reserved_row c p)]]
      (no_changes\<lparr>ch_products := [u \<mapsto> reserved_row c p]\<rparr>) [LockProduct u, LockProduct u]"
| clashed: "enough c p \<Longrightarrow> ch_orders ch = [] \<Longrightarrow>
    progress sha c t [Inr [ProductRow p], Inr [], Inr [ProductRow p'], Inr []] ch L"
| inserted: "reserves c t u p \<Longrightarrow> reservation_ok c p \<Longrightarrow> insert_ok sha c t row \<Longrightarrow>
    progress sha c t [Inr [ProductRow p], Inr [], Inr [ProductRow (reserved_row c p)], Inr [OrderRow row]]
      (no_changes\<lparr>ch_products := [u \<mapsto> reserved_row c p], ch_orders := [row]\<rparr>)
      ([LockProduct u, LockProduct u] @ order_lock_of c)"
| recorded: "reserves c t u p \<Longrightarrow> reservation_ok c p \<Longrightarrow> insert_ok sha c t row \<Longrightarrow>
    tb_order_processing t (or_id row) = None \<Longrightarrow>
    progress sha c t [Inr [ProductRow p], Inr [], Inr [ProductRow (reserved_row c p)], Inr [OrderRow row],
        Inr [ProcessingRow (pending_row c row)]]
      (no_changes\<lparr>ch_products := [u \<mapsto> reserved_row c p], ch_orders := [row],
         ch_order_processing := [or_id row \<mapsto> pending_row c row]\<rparr>)
      ([LockProduct u, LockProduct u] @ order_lock_of c @ [LockProcessing (or_id row)])"
| stopped: "asks sha c as = Inr (Inl e) \<Longrightarrow> (\<And>ord. e = IdempotentReplay ord \<Longrightarrow> replay_stored c t ord) \<Longrightarrow>
    progress sha c t as ch L"

lemma no_changes_simps [simp]:
  "ch_products no_changes = Map.empty" "ch_orders no_changes = []" "ch_order_processing no_changes = Map.empty"
  "ch_processed_messages no_changes = Map.empty" "apply_changes no_changes t = t"
  by (simp_all add: no_changes_def apply_changes_def)

lemma changed_rows_simps [simp]:
  "changed_rows m m = Map.empty"
  "m k \<noteq> Some v \<Longrightarrow> changed_rows m (m(k \<mapsto> v)) = [k \<mapsto> v]"
  by (auto simp: changed_rows_def fun_eq_iff)

lemma apply_changes_simps [simp]:
  "tb_products (apply_changes ch t) = tb_products t ++ ch_products ch"
  "tb_orders (apply_changes ch t) = tb_orders t @ ch_orders ch"
  "tb_order_processing (apply_changes ch t) = tb_order_processing t ++ ch_order_processing ch"
  "tb_processed_messages (apply_changes ch t) = tb_processed_messages t ++ ch_processed_messages ch"
  by (simp_all add: apply_changes_def)

lemma record_changes_same [simp]: "record_changes ch t t = ch"
  by (cases ch) (simp add: record_changes_def)

text \<open>An error of a statement ends the body; it is no replay signal.\<close>

definition no_replay :: "exn \<Rightarrow> bool" where
  "no_replay e \<longleftrightarrow> (\<forall>ord. e \<noteq> IdempotentReplay ord)"

lemma stopped_after_error:
  assumes "\<exists>x. asks sha c as = Inr (Inl x) \<and> (x = e \<or> x = DatabaseUnavailableError (Some e))" and "no_replay e"
  shows "progress sha c t as ch L"
  using assms by (auto simp: no_replay_def intro: stopped)

lemma no_replay_sql [simp]:
  "no_replay (ErrorObj n m x)" "no_replay invalid_uuid" "no_replay integer_out_of_range"
  by (simp_all add: no_replay_def invalid_uuid_def integer_out_of_range_def sql_error_def)

lemma no_replay_violation:
  "first_violation (product_rules r) = Some e \<Longrightarrow> no_replay e"
  "first_violation (order_rules o') = Some e \<Longrightarrow> no_replay e"
  by (auto simp: product_rules_def order_rules_def check_violation_def sql_error_def split: if_splits)


lemma step_looked:
  assumes "exec_statement (cl_pg c) (SelectProductForUpdate (rq_productId (rq_of c))) t = (t', a)"
  shows "progress sha c t [a] (record_changes no_changes t t')
    (locks_taken a (locks_wanted (cl_pg c) t (SelectProductForUpdate (rq_productId (rq_of c)))))"
proof (cases "pg_uuid (cl_pg c) (rq_productId (rq_of c))")
  case None
  then have "a = Inl invalid_uuid" using assms by (simp add: select_product_def)
  then show ?thesis using stopped_after_error [OF asks_after_error(1)] by simp
next
  case (Some u)
  then have "t' = t" "a = Inr (product_row_of t u)"
    using assms by (auto simp: select_product_def product_row_of_def)
  moreover have "locks_taken (Inr (product_row_of t u)) (product_locks (cl_pg c) t (rq_productId (rq_of c)))
      = product_lock_of t u"
    using Some by (auto simp: locks_taken_def product_row_of_def product_locks_def product_lock_of_def split: option.split)
  ultimately show ?thesis using looked [OF Some] by simp
qed

lemma step_key:
  assumes u: "pg_uuid (cl_pg c) (rq_productId (rq_of c)) = Some u" and q: "0 < rq_quantity (rq_of c)"
    and run: "exec_statement (cl_pg c) (SelectOrderByKey (rq_idempotencyKey (rq_of c))) t = (t', a)"
  shows "progress sha c t [Inr (product_row_of t u), a] (record_changes no_changes t t') (product_lock_of t u)"
proof (cases "key_row t (rq_idempotencyKey (rq_of c))")
  case (Some r)
  then have "t' = t" "a = Inr [OrderRow r]" using run by (auto simp: select_order_by_key_def)
  moreover have "product_row_of t u = [] \<or> (\<exists>p. product_row_of t u = [ProductRow p])"
    by (auto simp: product_row_of_def split: option.split)
  ultimately show ?thesis using replays [OF u Some] by simp
next
  case None
  then have a: "t' = t" "a = Inr []" using run by (auto simp: select_order_by_key_def)
  show ?thesis
  proof (cases "tb_products t u")
    case None
    then show ?thesis unfolding a by (intro stopped [where e = ProductNotFoundError]) (simp_all add: product_row_of_def asks_reservation(1))
  next
    case (Some p)
    show ?thesis
    proof (cases "enough c p")
      case True
      then show ?thesis
        using chosen [of c t u p sha] Some u by (simp add: a reserves_def product_row_of_def product_lock_of_def)
    next
      case False
      then have "asks sha c [Inr [ProductRow p], Inr []] = Inr (Inl OrderInsufficientInventoryError)"
        using asks_reservation(2) [OF q] q by (simp add: enough_def)
      then show ?thesis using Some unfolding a by (intro stopped) (auto simp: product_row_of_def)
    qed
  qed
qed

lemma step_reserve:
  assumes r: "reserves c t u p"
    and run: "exec_statement (cl_pg c) (UpdateReserveLocked (rq_productId (rq_of c)) (rq_quantity (rq_of c))) t = (t', a)"
  shows "progress sha c t [Inr [ProductRow p], Inr [], a] (record_changes no_changes t t') (LockProduct u #
     locks_taken a (locks_wanted (cl_pg c) t (UpdateReserveLocked (rq_productId (rq_of c)) (rq_quantity (rq_of c)))))"
proof -
  have e: "enough c p" and u: "pg_uuid (cl_pg c) (rq_productId (rq_of c)) = Some u" "tb_products t u = Some p"
    using r by (simp_all add: reserves_def)
  show ?thesis
  proof (cases "reservation_ok c p")
    case True
    then have "t' = t\<lparr>tb_products := (tb_products t)(u \<mapsto> reserved_row c p)\<rparr>" "a = Inr [ProductRow (reserved_row c p)]"
      using run u e by (simp_all add: update_reserve_def reservation_ok_def enough_def reserved_row_def Let_def)
    moreover have "Some p \<noteq> Some (reserved_row c p)"
      by (metis option.inject product_row.select_convs(4) product_row.surjective product_row.update_convs(3,4)
          reserved_row_def less_add_one less_irrefl)
    ultimately show ?thesis
      using reserved [OF r True, of sha] u
      by (simp add: record_changes_def no_changes_def locks_taken_def product_locks_def)
  next
    case False
    then obtain x where "t' = t" "a = Inl x" "no_replay x"
      using run u e no_replay_violation(1)
      by (auto simp: update_reserve_def reservation_ok_def enough_def reserved_row_def Let_def split: if_splits option.splits)
    then show ?thesis using stopped_after_error [OF asks_after_error(4) [OF e]] by simp
  qed
qed

lemma step_insert:
  assumes r: "reserves c t u p" and ok: "reservation_ok c p"
    and ch: "ch = no_changes\<lparr>ch_products := [u \<mapsto> reserved_row c p]\<rparr>"
    and run: "exec_statement (cl_pg c) (InsertOrderIdempotent (new_order_of (cl_id c) (rq_of c)) (Some (fp_of sha c)))
      (apply_changes ch t) = (t', a)"
  shows "progress sha c t [Inr [ProductRow p], Inr [], Inr [ProductRow (reserved_row c p)], a]
     (record_changes ch (apply_changes ch t) t') ([LockProduct u, LockProduct u] @ locks_taken a (order_lock_of c))"
proof -
  let ?o = "new_order_of (cl_id c) (rq_of c)" and ?v = "apply_changes ch t"
  have e: "enough c p" using r by (simp add: reserves_def)
  have key: "no_idempotencyKey ?o = rq_idempotencyKey (rq_of c)" by (simp add: new_order_of_def)
  note failed = stopped_after_error [OF asks_after_error(5) [OF e]]
  have same: "key_row ?v = key_row t" "order_id_free ?v = order_id_free t"
    by (simp_all add: ch key_row_def order_id_free_def fun_eq_iff)
  have run: "insert_order (cl_pg c) True ?o (Some (fp_of sha c)) ?v = (t', a)" using run by simp
  show ?thesis
  proof (cases "order_row_of (cl_pg c) ?o (Some (fp_of sha c))")
    case None
    then have "a = Inl invalid_uuid" using run by (simp add: insert_order_def)
    then show ?thesis using failed by simp
  next
    case (Some row)
    note f = order_row_of_fields [OF Some]
    have prod: "ch_products ch (or_product_id row) = Some (reserved_row c p)"
      using f(4) r by (simp add: ch reserves_def new_order_of_def)
    show ?thesis
    proof (cases "first_violation (order_rules row)")
      case (Some x)
      then have "a = Inl x" using run \<open>order_row_of _ _ _ = _\<close> by (simp add: insert_order_def)
      then show ?thesis using failed no_replay_violation(2) [OF Some] by simp
    next
      case rules: None
      show ?thesis
      proof (cases "key_row t (rq_idempotencyKey (rq_of c))")
        case (Some r')
        then have "t' = ?v" "a = Inr []"
          using run rules \<open>order_row_of _ _ _ = _\<close> by (simp_all add: insert_order_def same f(2) key)
        then show ?thesis using clashed [OF e] by (simp add: ch)
      next
        case free: None
        show ?thesis
        proof (cases "order_id_free t row")
          case False
          then have "a = Inl (unique_violation ''orders_pkey'')"
            using run rules free \<open>order_row_of _ _ _ = _\<close> by (simp add: insert_order_def same f(2) key)
          then show ?thesis using failed by (simp add: unique_violation_def sql_error_def)
        next
          case True
          then have "t' = ?v\<lparr>tb_orders := tb_orders ?v @ [row]\<rparr>" "a = Inr [OrderRow row]"
            using run rules free prod \<open>order_row_of _ _ _ = _\<close> by (simp_all add: insert_order_def same f(2) key)
          moreover have "insert_ok sha c t row"
            using True rules free \<open>order_row_of _ _ _ = _\<close> by (simp add: insert_ok_def)
          ultimately show ?thesis
            using inserted [OF r ok] by (simp add: record_changes_def ch no_changes_def locks_taken_def)
        qed
      qed
    qed
  qed
qed

lemma step_clash:
  assumes e: "enough c p" and ch: "ch_orders ch = []"
    and run: "exec_statement (cl_pg c) (SelectOrderByKey (rq_idempotencyKey (rq_of c))) (apply_changes ch t) = (t', a)"
  shows "progress sha c t [Inr [ProductRow p], Inr [], Inr [ProductRow p'], Inr [], a] ch' L'"
proof (cases "key_row t (rq_idempotencyKey (rq_of c))")
  case None
  then have "a = Inr []" using run ch by (simp add: select_order_by_key_def key_row_def)
  then show ?thesis
    using asks_nothing(2) [OF e] by (intro stopped [where e = no_row]) (simp_all add: no_row_def type_error_def)
next
  case (Some r)
  then have a: "a = Inr [OrderRow r]" using run ch by (simp add: select_order_by_key_def key_row_def)
  have "replay_stored c t ord"
    if "(case resolveIdempotentOrder sha (mapIdempotencyRecord r False) (fp_of sha c) of
          Inl e \<Rightarrow> e | Inr ord \<Rightarrow> IdempotentReplay ord) = IdempotentReplay ord" for ord
    using that Some
    by (auto simp: resolveIdempotentOrder_def mapIdempotencyRecord_def replay_stored_def stored_at_def split: if_splits)
  then show ?thesis unfolding a using asks_nothing(3) [OF e] by (rule stopped [rotated])
qed

lemma step_record:
  assumes uuid: "uuid_canonical (cl_pg c)" and r: "reserves c t u p" and ok: "reservation_ok c p"
    and i: "insert_ok sha c t row"
    and ch: "ch = no_changes\<lparr>ch_products := [u \<mapsto> reserved_row c p], ch_orders := [row]\<rparr>"
    and run: "exec_statement (cl_pg c) (InsertProcessing (or_id row) ''PENDING'') (apply_changes ch t) = (t', a)"
  shows "progress sha c t
     [Inr [ProductRow p], Inr [], Inr [ProductRow (reserved_row c p)], Inr [OrderRow row], a]
     (record_changes ch (apply_changes ch t) t') (([LockProduct u, LockProduct u] @ order_lock_of c)
       @ locks_taken a (locks_wanted (cl_pg c) (apply_changes ch t) (InsertProcessing (or_id row) ''PENDING'')))"
proof -
  let ?v = "apply_changes ch t"
  have e: "enough c p" using r by (simp add: reserves_def)
  have "pg_uuid (cl_pg c) (cl_id c) = Some (or_id row)"
    using order_row_of_fields(5) i by (fastforce simp: insert_ok_def new_order_of_def)
  then have id: "pg_uuid (cl_pg c) (or_id row) = Some (or_id row)" using uuid by (simp add: uuid_canonical_def)
  show ?thesis
  proof (cases "tb_order_processing t (or_id row)")
    case None
    then have "t' = ?v\<lparr>tb_order_processing := (tb_order_processing ?v)(or_id row \<mapsto> pending_row c row)\<rparr>"
      "a = Inr [ProcessingRow (pending_row c row)]"
      using run id by (simp_all add: insert_processing_def processing_rules_def STATUSES_def ch Let_def pending_row_def)
    then show ?thesis
      using recorded [OF r ok i None] id None by (simp add: record_changes_def ch no_changes_def locks_taken_def)
  next
    case (Some x)
    then have "a = Inl (unique_violation ''order_processing_pkey'')"
      using run id by (simp add: insert_processing_def processing_rules_def STATUSES_def ch Let_def)
    then show ?thesis
      using stopped_after_error [OF asks_after_error(6) [OF e]] by (simp add: unique_violation_def sql_error_def)
  qed
qed

lemma progress_step:
  assumes uuid: "uuid_canonical (cl_pg c)" and q: "0 < rq_quantity (rq_of c)"
    and p: "progress sha c t as ch L" and nx: "asks sha c as = Inl st"
    and run: "exec_statement (cl_pg c) st (apply_changes ch t) = (t', a)"
  shows "progress sha c t (as @ [a]) (record_changes ch (apply_changes ch t) t')
    (L @ locks_taken a (locks_wanted (cl_pg c) (apply_changes ch t) st))"
  using p
proof cases
  case begun
  then show ?thesis using step_looked [of c t t' a sha] nx run by (auto simp: asks_product)
next
  case (looked u)
  have "st = SelectOrderByKey (rq_idempotencyKey (rq_of c))"
    using nx looked(1) by (auto simp: product_row_of_def asks_key split: option.splits)
  then show ?thesis using step_key [OF looked(4) q] run looked by (simp add: locks_taken_def split: sum.split list.split)
next
  case (replays u r b)
  then show ?thesis using nx by (auto simp: asks_replays)
next
  case (chosen u p)
  then have e: "enough c p" by (simp add: reserves_def)
  then have "st = UpdateReserveLocked (rq_productId (rq_of c)) (rq_quantity (rq_of c))"
    using nx chosen asks_reservation(2) [OF q] by (simp add: enough_def)
  then show ?thesis using step_reserve [OF chosen(4)] run chosen by simp
next
  case (reserved u p)
  then have e: "enough c p" by (simp add: reserves_def)
  then have st: "st = InsertOrderIdempotent (new_order_of (cl_id c) (rq_of c)) (Some (fp_of sha c))"
    using nx reserved(1) asks_insert(2) by simp
  show ?thesis using step_insert [OF reserved(4,5) refl, of sha t' a] run reserved(1-3)
    by (simp add: st order_lock_of_def)
next
  case (clashed p p')
  then have "st = SelectOrderByKey (rq_idempotencyKey (rq_of c))" using nx asks_processing(2) by simp
  then show ?thesis using step_clash [OF clashed(2,3)] run clashed(1) by simp
next
  case (inserted u p row)
  then have e: "enough c p" by (simp add: reserves_def)
  then have st: "st = InsertProcessing (or_id row) ''PENDING''" using nx inserted(1) asks_processing(1) by simp
  show ?thesis using step_record [OF uuid inserted(4-6) refl, of t' a] run inserted(1-3) by (simp add: st)
next
  case (recorded u p row)
  then show ?thesis using nx asks_nothing(1) by (simp add: reserves_def)
next
  case (stopped e)
  then show ?thesis using nx by simp
qed

lemma progress_fails:
  assumes q: "0 < rq_quantity (rq_of c)"
    and p: "progress sha c t as ch L" and nx: "asks sha c as = Inl st" and e: "no_replay e"
  shows "progress sha c t (as @ [Inl e]) ch L"
  using p
proof cases
  case begun
  then show ?thesis using stopped_after_error [OF asks_after_error(1) e] by simp
next
  case (looked u)
  then show ?thesis
    using stopped_after_error [OF asks_after_error(2) e] stopped_after_error [OF asks_after_error(3) e]
    by (simp add: product_row_of_def split: option.split)
next
  case (replays u r b)
  then show ?thesis using nx by (auto simp: asks_replays)
next
  case (chosen u p)
  then have "enough c p" by (simp add: reserves_def)
  then show ?thesis using stopped_after_error [OF asks_after_error(4) e] chosen by simp
next
  case (reserved u p)
  then have "enough c p" by (simp add: reserves_def)
  then show ?thesis using stopped_after_error [OF asks_after_error(5) e] reserved by simp
next
  case (clashed p p')
  then show ?thesis using stopped_after_error [OF asks_after_error(7) e] by simp
next
  case (inserted u p row)
  then have "enough c p" by (simp add: reserves_def)
  then show ?thesis using stopped_after_error [OF asks_after_error(6) e] inserted by simp
next
  case (recorded u p row)
  then show ?thesis using nx asks_nothing(1) by (simp add: reserves_def)
next
  case (stopped x)
  then show ?thesis using nx by simp
qed

section \<open>The commit\<close>

text \<open>What a transaction that is about to commit writes, it has locked.\<close>

definition writes_locked :: "changes \<Rightarrow> row_lock list \<Rightarrow> tables \<Rightarrow> bool" where
  "writes_locked ch L t \<longleftrightarrow>
     (\<forall>u. ch_products ch u \<noteq> None \<longrightarrow> tb_products t u \<noteq> None \<and> LockProduct u \<in> set L)
   \<and> (\<forall>r\<in>set (ch_orders ch). LockOrderKey (or_idempotency_key r) \<in> set L \<and> LockOrderId (or_id r) \<in> set L)
   \<and> (\<forall>i. ch_order_processing ch i \<noteq> None \<longrightarrow> LockProcessing i \<in> set L)"

lemma insert_ok_fields:
  assumes "insert_ok sha c t row"
  shows "or_idempotency_key row = rq_idempotencyKey (rq_of c)" "LockOrderKey (or_idempotency_key row) \<in> set (order_lock_of c)"
    "LockOrderId (or_id row) \<in> set (order_lock_of c)" "pg_uuid (cl_pg c) (cl_id c) = Some (or_id row)"
    "pg_uuid (cl_pg c) (rq_productId (rq_of c)) = Some (or_product_id row)"
  using order_row_of_fields [of "cl_pg c" "new_order_of (cl_id c) (rq_of c)" "Some (fp_of sha c)" row] assms
  by (auto simp: insert_ok_def order_lock_of_def order_locks_def new_order_of_def)

text \<open>The body, run on the committed rows alone, does what the transaction did.\<close>

lemma commit_is_serial:
  assumes uuid: "uuid_canonical (cl_pg c)" and q: "0 < rq_quantity (rq_of c)"
    and p: "progress sha c t as ch L" and nx: "asks sha c as = Inr (Inr ord)"
  shows "call_body sha c (exec_statement (cl_pg c)) t = (apply_changes ch t, Inr ord) \<and> writes_locked ch L t"
  using p
proof cases
  case (replays u r b)
  then have "resolveIdempotentOrder sha (mapIdempotencyRecord r False) (fp_of sha c) = Inr ord"
    using nx by (auto simp: asks_replays)
  moreover have "findByIdempotencyKey (exec_statement (cl_pg c)) (rq_idempotencyKey (rq_of c)) t
      = (t, Inr (Some (mapIdempotencyRecord r False)))"
    using replays(4) by (simp add: findByIdempotencyKey_exec stored_at_def mapIdempotencyRecord_record)
  ultimately show ?thesis
    using replays by (simp add: call_body_def atomic_order_body_def Let_def then_do_def findById_exec writes_locked_def)
next
  case (recorded u p row)
  note i = insert_ok_fields [OF recorded(6)]
  have e: "enough c p" and u: "pg_uuid (cl_pg c) (rq_productId (rq_of c)) = Some u" "tb_products t u = Some p"
    using recorded(4) by (simp_all add: reserves_def)
  have ord: "ord = mapOrder row" using nx recorded(1) asks_nothing(1) [OF e] by simp
  have row: "order_row_of (cl_pg c) (new_order_of (cl_id c) (rq_of c)) (Some (fp_of sha c)) = Some row"
    "first_violation (order_rules row) = None" "key_row t (rq_idempotencyKey (rq_of c)) = None" "order_id_free t row"
    using recorded(6) by (simp_all add: insert_ok_def)
  let ?t1 = "t\<lparr>tb_products := (tb_products t)(u \<mapsto> reserved_row c p)\<rparr>"
  let ?t2 = "?t1\<lparr>tb_orders := tb_orders t @ [row]\<rparr>"
  have reserve: "reserveLocked (exec_statement (cl_pg c)) (rq_productId (rq_of c)) (JInt (rq_quantity (rq_of c))) t
      = (?t1, Inr (Some (mapProduct (reserved_row c p))))"
    using u e recorded(5) by (simp add: reserveLocked_def then_do_def update_reserve_def Let_def null_or_def
        enough_def reservation_ok_def reserved_row_def)
  have create: "createIdempotent (exec_statement (cl_pg c)) (new_order_of (cl_id c) (rq_of c)) (Some (fp_of sha c)) ?t1
      = (?t2, Inr (Some (mapIdempotencyRecord row True)))"
    using createIdempotent_succeeds [OF row(1,2), of ?t1] row(3,4) i(1,5) u(1)
    by (simp add: key_row_def order_id_free_def)
  have id: "pg_uuid (cl_pg c) (or_id row) = Some (or_id row)" using uuid i(4) by (simp add: uuid_canonical_def)
  have processed: "createOrderProcessing (exec_statement (cl_pg c)) (or_id row) None ?t2
      = (?t2\<lparr>tb_order_processing := (tb_order_processing t)(or_id row \<mapsto> pending_row c row)\<rparr>,
         Inr (mapOrderProcessing (pending_row c row)))"
    using id recorded(7) by (simp add: createOrderProcessing_def then_do_def insert_processing_def
        processing_rules_def STATUSES_def Let_def pending_row_def)
  have "call_body sha c (exec_statement (cl_pg c)) t
      = (?t2\<lparr>tb_order_processing := (tb_order_processing t)(or_id row \<mapsto> pending_row c row)\<rparr>, Inr (mapOrder row))"
    using u row(3) e reserve create processed
    by (simp add: call_body_def atomic_order_body_def Let_def then_do_def findById_exec findByIdempotencyKey_exec
        stored_at_def product_at_def mapProduct_def mapIdempotencyRecord_def mapOrder_def enough_def)
  moreover have "writes_locked ch L t"
    using recorded(2,3) u(2) i by (auto simp: writes_locked_def no_changes_def split: if_splits)
  moreover have "apply_changes ch t
      = ?t2\<lparr>tb_order_processing := (tb_order_processing t)(or_id row \<mapsto> pending_row c row)\<rparr>"
    by (simp add: recorded(2) apply_changes_def no_changes_def)
  ultimately show ?thesis by (simp add: ord)
qed (use nx in \<open>auto simp: asks_product asks_key asks_reservation(2) [OF q] reserves_def product_row_of_def enough_def
    asks_insert asks_processing split: option.splits\<close>)

section \<open>Commits of others\<close>

lemma key_row_other:
  assumes "writes_locked ch Lo t" and "LockOrderKey k \<notin> set Lo"
  shows "key_row (apply_changes ch t) k = key_row t k"
proof -
  have "List.find (\<lambda>r. or_idempotency_key r = k) (ch_orders ch) = None"
    using assms by (auto simp: find_None_iff writes_locked_def)
  moreover have "List.find P (xs @ ys) = (case List.find P xs of None \<Rightarrow> List.find P ys | Some x \<Rightarrow> Some x)" for P :: "order_row \<Rightarrow> bool" and xs ys
    by (induction xs) auto
  ultimately show ?thesis by (simp add: key_row_def split: option.split)
qed

lemma key_row_stays: "key_row t k = Some r \<Longrightarrow> key_row (apply_changes ch t) k = Some r"
proof -
  have "List.find P xs = Some x \<Longrightarrow> List.find P (xs @ ys) = Some x" for P :: "order_row \<Rightarrow> bool" and xs ys x
    by (induction xs) (auto split: if_splits)
  then show "key_row t k = Some r \<Longrightarrow> key_row (apply_changes ch t) k = Some r" by (simp add: key_row_def)
qed

lemma product_other:
  assumes "writes_locked ch Lo t" and "LockProduct u \<notin> set Lo \<or> tb_products t u = None"
  shows "tb_products (apply_changes ch t) u = tb_products t u"
  using assms by (auto simp: writes_locked_def map_add_def split: option.split)

lemma reserves_other:
  assumes "reserves c t u p" and "writes_locked ch Lo t" and "LockProduct u \<notin> set Lo"
  shows "reserves c (apply_changes ch t) u p"
  using assms product_other [OF assms(2)] by (simp add: reserves_def)

lemma insert_ok_other:
  assumes i: "insert_ok sha c t row" and w: "writes_locked ch Lo t" and "set (order_lock_of c) \<inter> set Lo = {}"
  shows "insert_ok sha c (apply_changes ch t) row"
proof -
  note f = insert_ok_fields [OF i]
  have "LockOrderKey (rq_idempotencyKey (rq_of c)) \<notin> set Lo" "LockOrderId (or_id row) \<notin> set Lo"
    using f(1-3) assms(3) by auto
  then show ?thesis
    using i key_row_other [OF w] w by (auto simp: insert_ok_def order_id_free_def writes_locked_def list_all_iff)
qed

text \<open>A commit leaves alone what another transaction has learnt, because it writes only what it has locked.\<close>

lemma progress_other:
  assumes p: "progress sha c t as ch L" and w: "writes_locked ch' Lo t" and disjoint: "set L \<inter> set Lo = {}"
  shows "progress sha c (apply_changes ch' t) as ch L"
  using p
proof cases
  case begun
  then show ?thesis by (simp add: progress.begun)
next
  case (looked u)
  have same: "tb_products (apply_changes ch' t) u = tb_products t u"
    by (rule product_other [OF w]) (use disjoint looked(3) in \<open>auto simp: product_lock_of_def split: if_splits\<close>)
  then have "product_row_of (apply_changes ch' t) u = product_row_of t u"
    "product_lock_of (apply_changes ch' t) u = product_lock_of t u"
    by (simp_all only: product_row_of_def product_lock_of_def)
  then show ?thesis using progress.looked [OF looked(4), of sha "apply_changes ch' t"] looked(1-3) by simp
next
  case (replays u r b)
  then show ?thesis
    using progress.replays [OF replays(3) key_row_stays [OF replays(4)] replays(5)] by simp
next
  case (chosen u p)
  then show ?thesis using progress.chosen reserves_other [OF _ w] disjoint by simp
next
  case (reserved u p)
  then show ?thesis using progress.reserved reserves_other [OF _ w] disjoint by simp
next
  case (clashed p p')
  then show ?thesis by (simp add: progress.clashed)
next
  case (inserted u p row)
  have "set (order_lock_of c) \<inter> set Lo = {}" "LockProduct u \<notin> set Lo" using disjoint inserted(3) by auto
  then show ?thesis
    using progress.inserted [OF reserves_other [OF inserted(4) w] inserted(5) insert_ok_other [OF inserted(6) w]] inserted(1-3)
    by simp
next
  case (recorded u p row)
  have d: "set (order_lock_of c) \<inter> set Lo = {}" "LockProduct u \<notin> set Lo" "LockProcessing (or_id row) \<notin> set Lo"
    using disjoint recorded(3) by auto
  have "tb_order_processing (apply_changes ch' t) (or_id row) = None"
    using recorded(7) d(3) w by (auto simp: writes_locked_def map_add_def split: option.split)
  then show ?thesis
    using progress.recorded [OF reserves_other [OF recorded(4) w d(2)] recorded(5) insert_ok_other [OF recorded(6) w d(1)]]
      recorded(1-3)
    by simp
next
  case (stopped e)
  have "replay_stored c t ord \<Longrightarrow> replay_stored c (apply_changes ch' t) ord" for ord
    using key_row_stays by (auto simp: replay_stored_def stored_at_def)
  then show ?thesis using progress.stopped [OF stopped(1)] stopped(2) by blast
qed

end
