(* ===== verification/Concurrent_Orders.thy ===== *)
theory Concurrent_Orders
  imports Order_Locks
begin

text \<open>
  Concurrent calls of \<open>createOrder\<close> of \<open>apps/api/src/create-atomic-order.js\<close>, each on a connection of
  its own.  A statement reads the committed rows and the changes of its own transaction, and runs
  only when no other transaction holds a lock it wants.  A connection may fail at any call.

  Every reachable state is one of a serial run of the same transactions, and the locks, always taken
  in the order product, order, processing state, cannot deadlock.
\<close>

section \<open>The system\<close>

text \<open>\<open>Checking\<close>: before the lookup outside the transaction.\<close>

datatype call_pc =
    Checking
  | Working answers changes "row_lock list"
  | Finished "order result"

record locking_system =
  lk_committed :: tables
  lk_calls :: "(order_call \<times> call_pc) list"

definition locks_of :: "call_pc \<Rightarrow> row_lock list" where
  "locks_of pc = (case pc of Working as ch L \<Rightarrow> L | _ \<Rightarrow> [])"

definition must_wait :: "(order_call \<times> call_pc) list \<Rightarrow> nat \<Rightarrow> row_lock list \<Rightarrow> bool" where
  "must_wait calls i wanted =
     list_ex (\<lambda>j. j \<noteq> i \<and> list_ex (\<lambda>l. l \<in> set (locks_of (snd (calls ! j)))) wanted) [0..<length calls]"

text \<open>What \<open>withTransaction\<close> and the \<open>catch\<close> around it make of the outcome of a transaction.\<close>

definition call_outcome :: "order result \<Rightarrow> order result" where
  "call_outcome r = (case r of
      Inr ord \<Rightarrow> Inr ord
    | Inl (IdempotentReplay ord) \<Rightarrow> Inr ord
    | Inl e \<Rightarrow> Inl (translateAvailabilityError e))"

definition start_call :: "order_call \<Rightarrow> call_pc" where
  "start_call c = (case validateOrderInput (cl_input c) of Inl e \<Rightarrow> Finished (Inl e) | Inr _ \<Rightarrow> Checking)"

definition proceed :: "(string \<Rightarrow> string) \<Rightarrow> nat \<Rightarrow> order_call \<Rightarrow> call_pc \<Rightarrow> locking_system \<Rightarrow> (tables \<times> call_pc) option" where
  "proceed sha i c pc sys = (let t = lk_committed sys; rq = request_of (cl_input c) in case pc of
      Checking \<Rightarrow> Some (t, case snd (findByIdempotencyKey (exec_statement (cl_pg c)) (rq_idempotencyKey rq) t) of
          Inl e \<Rightarrow> Finished (Inl e)
        | Inr (Some r) \<Rightarrow> Finished (resolveIdempotentOrder sha r (request_fingerprint sha rq))
        | Inr None \<Rightarrow> Working [] no_changes [])
    | Working as ch L \<Rightarrow> (case next_query (call_body sha c scripted) as of
          Inl st \<Rightarrow>
            (let view = apply_changes ch t; wanted = locks_wanted (cl_pg c) view st in
             if must_wait (lk_calls sys) i wanted then None
             else (case exec_statement (cl_pg c) st view of (view', a) \<Rightarrow>
               Some (t, Working (as @ [a]) (record_changes ch view view') (L @ locks_taken a wanted))))
        | Inr (Inr ord) \<Rightarrow> Some (apply_changes ch t, Finished (call_outcome (Inr ord)))
        | Inr (Inl e) \<Rightarrow> Some (t, Finished (call_outcome (Inl e))))
    | Finished r \<Rightarrow> None)"

text \<open>
  A call of the connection fails with \<open>e\<close>: a statement inside the transaction then has no lasting
  effect, while a \<open>COMMIT\<close> may have taken effect.
\<close>

definition connection_fails ::
  "(string \<Rightarrow> string) \<Rightarrow> exn \<Rightarrow> bool \<Rightarrow> order_call \<Rightarrow> call_pc \<Rightarrow> locking_system \<Rightarrow> (tables \<times> call_pc) option" where
  "connection_fails sha e took_effect c pc sys = (let t = lk_committed sys in case pc of
      Checking \<Rightarrow> Some (t, Finished (Inl (translateAvailabilityError e)))
    | Working as ch L \<Rightarrow> (case next_query (call_body sha c scripted) as of
          Inl st \<Rightarrow> Some (t, Working (as @ [Inl e]) ch L)
        | Inr (Inr ord) \<Rightarrow> Some (if took_effect then apply_changes ch t else t,
            Finished (Inl (translateAvailabilityError e)))
        | Inr (Inl x) \<Rightarrow> Some (t, Finished (call_outcome (Inl x))))
    | Finished r \<Rightarrow> None)"

datatype lock_event = Proceed nat | ConnectionFails nat exn bool

definition call_moves :: "nat \<Rightarrow> (order_call \<Rightarrow> call_pc \<Rightarrow> locking_system \<Rightarrow> (tables \<times> call_pc) option)
    \<Rightarrow> locking_system \<Rightarrow> locking_system option" where
  "call_moves i f sys =
     (if i < length (lk_calls sys) then (case lk_calls sys ! i of (c, pc) \<Rightarrow> (case f c pc sys of
          None \<Rightarrow> None
        | Some (t, pc') \<Rightarrow> Some \<lparr>lk_committed = t, lk_calls = (lk_calls sys)[i := (c, pc')]\<rparr>))
      else None)"

fun locking_step :: "(string \<Rightarrow> string) \<Rightarrow> lock_event \<Rightarrow> locking_system \<Rightarrow> locking_system option" where
  "locking_step sha (Proceed i) sys = call_moves i (proceed sha i) sys"
| "locking_step sha (ConnectionFails i e took_effect) sys = call_moves i (connection_fails sha e took_effect) sys"

definition locking_start :: "tables \<Rightarrow> order_call list \<Rightarrow> locking_system" where
  "locking_start t cs = \<lparr>lk_committed = t, lk_calls = map (\<lambda>c. (c, start_call c)) cs\<rparr>"

text \<open>The replay signal is private to the service: no connection throws it.\<close>

definition honest_event :: "lock_event \<Rightarrow> bool" where
  "honest_event ev = (case ev of ConnectionFails i (IdempotentReplay ord) b \<Rightarrow> False | _ \<Rightarrow> True)"

inductive locking_reachable :: "(string \<Rightarrow> string) \<Rightarrow> tables \<Rightarrow> order_call list \<Rightarrow> locking_system \<Rightarrow> bool"
  for sha t cs where
  locking_init: "locking_reachable sha t cs (locking_start t cs)"
| locking_next: "locking_reachable sha t cs sys \<Longrightarrow> honest_event ev \<Longrightarrow> locking_step sha ev sys = Some sys' \<Longrightarrow>
    locking_reachable sha t cs sys'"

section \<open>Every reachable state\<close>

definition pc_ok :: "(string \<Rightarrow> string) \<Rightarrow> tables \<Rightarrow> order_call \<times> call_pc \<Rightarrow> bool" where
  "pc_ok sha t call = (case call of (c, pc) \<Rightarrow> (case pc of
      Checking \<Rightarrow> validateOrderInput (cl_input c) = Inr ()
    | Working as ch L \<Rightarrow> validateOrderInput (cl_input c) = Inr () \<and> progress sha c t as ch L
    | Finished r \<Rightarrow> (\<forall>ord. r = Inr ord \<longrightarrow> replay_stored c t ord)))"

definition locks_disjoint :: "(order_call \<times> call_pc) list \<Rightarrow> bool" where
  "locks_disjoint calls \<longleftrightarrow> (\<forall>i<length calls. \<forall>j<length calls. i \<noteq> j \<longrightarrow>
     set (locks_of (snd (calls ! i))) \<inter> set (locks_of (snd (calls ! j))) = {})"

text \<open>The tables are those of a run of the transactions of some of the calls, one after the other.\<close>

inductive serial_run :: "(string \<Rightarrow> string) \<Rightarrow> order_call list \<Rightarrow> tables \<Rightarrow> order list \<Rightarrow> tables \<Rightarrow> bool"
  for sha cs t where
  serial_none: "serial_run sha cs t [] t"
| serial_more: "serial_run sha cs t ords t' \<Longrightarrow> c \<in> set cs \<Longrightarrow> validateOrderInput (cl_input c) = Inr () \<Longrightarrow>
    call_body sha c (exec_statement (cl_pg c)) t' = (t'', Inr ord) \<Longrightarrow> serial_run sha cs t (ords @ [ord]) t''"

definition locking_inv :: "(string \<Rightarrow> string) \<Rightarrow> tables \<Rightarrow> order_call list \<Rightarrow> locking_system \<Rightarrow> bool" where
  "locking_inv sha t cs sys \<longleftrightarrow> map fst (lk_calls sys) = cs \<and> locks_disjoint (lk_calls sys)
     \<and> (\<forall>call\<in>set (lk_calls sys). pc_ok sha (lk_committed sys) call)
     \<and> (\<exists>ords. serial_run sha cs t ords (lk_committed sys))"

lemma must_wait_iff:
  "must_wait calls i wanted \<longleftrightarrow>
     (\<exists>j<length calls. j \<noteq> i \<and> set wanted \<inter> set (locks_of (snd (calls ! j))) \<noteq> {})"
  by (auto simp: must_wait_def list_ex_iff)

lemma locks_disjoint_update:
  assumes "locks_disjoint calls" and "i < length calls"
    and "\<forall>j<length calls. j \<noteq> i \<longrightarrow> set (locks_of pc) \<inter> set (locks_of (snd (calls ! j))) = {}"
  shows "locks_disjoint (calls[i := (c, pc)])"
  using assms unfolding locks_disjoint_def by (auto simp: nth_list_update)

lemma serial_run_outcome:
  assumes "serial_run sha cs t ords t'" and "tables_ok t" and "\<forall>c\<in>set cs. uuid_canonical (cl_pg c)"
  shows "tables_ok t' \<and> orders_only_added t t'"
  using assms(1)
proof (induction rule: serial_run.induct)
  case serial_none
  then show ?case using assms(2) orders_only_added_refl by simp
next
  case (serial_more ords t' c t'' ord)
  have run: "atomic_order_body (exec_statement (cl_pg c)) sha (cl_id c) (rq_of c) t' = (t'', Inr ord)"
    using serial_more.hyps(4) by (simp add: call_body_def)
  have ok: "tables_ok t''"
    using atomic_body_tables_ok [of "cl_pg c" sha "cl_id c" "rq_of c"] serial_more.IH run
    unfolding preserves_def by (metis fst_conv)
  have "uuid_canonical (cl_pg c)" using assms(3) serial_more.hyps(2) by blast
  from atomic_body_exec [OF this validateOrderInput_positive(1) [OF serial_more.hyps(3)] run]
  show ?case using order_placed_adds(1) [OF _ ok] serial_more.IH ok by blast
qed

lemma serial_stores:
  assumes uuid: "uuid_canonical (cl_pg c)" and valid: "validateOrderInput (cl_input c) = Inr ()" and ok: "tables_ok t"
    and run: "call_body sha c (exec_statement (cl_pg c)) t = (t', Inr ord)"
  shows "replay_stored c t' ord"
proof -
  have run: "atomic_order_body (exec_statement (cl_pg c)) sha (cl_id c) (rq_of c) t = (t', Inr ord)"
    using run by (simp add: call_body_def)
  have ok': "tables_ok t'"
    using atomic_body_tables_ok [of "cl_pg c" sha "cl_id c" "rq_of c"] ok run unfolding preserves_def by (metis fst_conv)
  show ?thesis
    using atomic_body_exec [OF uuid validateOrderInput_positive(1) [OF valid] run]
      order_placed_adds(2) [OF _ ok' orders_only_added_refl]
    by (auto simp: replay_stored_def order_replayed_def)
qed

lemma inv_same:
  assumes inv: "locking_inv sha t cs sys" and i: "i < length (lk_calls sys)" "lk_calls sys ! i = (c, pc)"
    and pc': "pc_ok sha (lk_committed sys) (c, pc')"
    and d: "\<forall>j<length (lk_calls sys). j \<noteq> i \<longrightarrow> set (locks_of pc') \<inter> set (locks_of (snd (lk_calls sys ! j))) = {}"
  shows "locking_inv sha t cs \<lparr>lk_committed = lk_committed sys, lk_calls = (lk_calls sys)[i := (c, pc')]\<rparr>"
proof -
  have "map fst ((lk_calls sys)[i := (c, pc')]) = map fst (lk_calls sys)"
    using i by (simp add: map_update) (metis fst_conv list_update_id nth_map)
  moreover have "locks_disjoint ((lk_calls sys)[i := (c, pc')])"
    using inv i(1) d by (intro locks_disjoint_update) (simp_all add: locking_inv_def)
  moreover have "\<forall>call\<in>set ((lk_calls sys)[i := (c, pc')]). pc_ok sha (lk_committed sys) call"
    using inv pc' by (auto simp: locking_inv_def dest!: set_update_subset_insert [THEN subsetD])
  ultimately show ?thesis using inv by (simp add: locking_inv_def)
qed

lemma pc_ok_other:
  assumes pc: "pc_ok sha t (c, pc)" and w: "writes_locked ch Lo t" and d: "set (locks_of pc) \<inter> set Lo = {}"
  shows "pc_ok sha (apply_changes ch t) (c, pc)"
proof (cases pc)
  case (Working as ch' L)
  then show ?thesis using pc progress_other [OF _ w] d by (simp add: pc_ok_def locks_of_def)
next
  case (Finished r)
  then show ?thesis using pc key_row_stays by (auto simp: pc_ok_def replay_stored_def stored_at_def)
qed (use pc in \<open>simp add: pc_ok_def\<close>)

lemma inv_commit:
  assumes inv: "locking_inv sha t cs sys" and t: "tables_ok t" and uuid: "\<forall>c\<in>set cs. uuid_canonical (cl_pg c)"
    and i: "i < length (lk_calls sys)" "lk_calls sys ! i = (c, Working as ch L)"
    and nx: "asks sha c as = Inr (Inr ord)" and r: "\<forall>x. r = Inr x \<longrightarrow> x = ord"
  shows "locking_inv sha t cs \<lparr>lk_committed = apply_changes ch (lk_committed sys), lk_calls = (lk_calls sys)[i := (c, Finished r)]\<rparr>"
proof -
  let ?t = "lk_committed sys"
  have mem: "(c, Working as ch L) \<in> set (lk_calls sys)" using i nth_mem by metis
  have c: "c \<in> set cs" using inv mem by (force simp: locking_inv_def)
  have pc: "validateOrderInput (cl_input c) = Inr ()" "progress sha c ?t as ch L"
    using inv mem by (auto simp: locking_inv_def pc_ok_def)
  have u: "uuid_canonical (cl_pg c)" using uuid c by blast
  note commit = commit_is_serial [OF u validateOrderInput_positive(1) [OF pc(1)] pc(2) nx]
  obtain ords where ords: "serial_run sha cs t ords ?t" using inv by (auto simp: locking_inv_def)
  have serial: "serial_run sha cs t (ords @ [ord]) (apply_changes ch ?t)"
    using serial_more [OF ords c pc(1)] commit by blast
  have ok: "tables_ok ?t" using serial_run_outcome [OF ords t uuid] by simp
  have "map fst ((lk_calls sys)[i := (c, Finished r)]) = map fst (lk_calls sys)"
    using i by (simp add: map_update) (metis fst_conv list_update_id nth_map)
  moreover have "locks_disjoint ((lk_calls sys)[i := (c, Finished r)])"
    using inv i(1) by (intro locks_disjoint_update) (simp_all add: locking_inv_def locks_of_def)
  moreover have "pc_ok sha (apply_changes ch ?t) (c, Finished r)"
    using serial_stores [OF u pc(1) ok] commit r by (auto simp: pc_ok_def)
  moreover have "pc_ok sha (apply_changes ch ?t) (lk_calls sys ! j)" if j: "j < length (lk_calls sys)" "j \<noteq> i" for j
  proof -
    obtain c' pc' where cj: "lk_calls sys ! j = (c', pc')" by force
    have "pc_ok sha ?t (c', pc')" using inv j(1) cj nth_mem by (fastforce simp: locking_inv_def)
    moreover have "set (locks_of pc') \<inter> set L = {}"
      using inv i j cj unfolding locking_inv_def locks_disjoint_def by (fastforce simp: locks_of_def)
    ultimately show ?thesis unfolding cj using pc_ok_other commit by blast
  qed
  then have "\<forall>call\<in>set ((lk_calls sys)[i := (c, Finished r)]). pc_ok sha (apply_changes ch ?t) call"
    using \<open>pc_ok sha (apply_changes ch ?t) (c, Finished r)\<close>
    using i(1) by (auto simp: all_set_conv_all_nth nth_list_update)
  ultimately show ?thesis using inv serial by (auto simp: locking_inv_def)
qed

lemma call_outcome_cases:
  "call_outcome (Inl e) = Inr ord \<Longrightarrow> e = IdempotentReplay ord"
  "call_outcome (Inr ord) = Inr ord"
  by (cases e) (simp_all add: call_outcome_def)

lemma calls_disjoint:
  assumes "locking_inv sha t cs sys" and "i < length (lk_calls sys)" and "lk_calls sys ! i = (c, Working as ch L)"
  shows "\<forall>j<length (lk_calls sys). j \<noteq> i \<longrightarrow> set L \<inter> set (locks_of (snd (lk_calls sys ! j))) = {}"
proof (intro allI impI)
  fix j
  assume "j < length (lk_calls sys)" "j \<noteq> i"
  then have "set (locks_of (snd (lk_calls sys ! i))) \<inter> set (locks_of (snd (lk_calls sys ! j))) = {}"
    using assms(1,2) unfolding locking_inv_def locks_disjoint_def by metis
  then show "set L \<inter> set (locks_of (snd (lk_calls sys ! j))) = {}" using assms(3) by (simp add: locks_of_def)
qed

lemma inv_finish:
  assumes "locking_inv sha t cs sys" and "i < length (lk_calls sys)" and "lk_calls sys ! i = (c, pc)"
    and "\<forall>ord. r = Inr ord \<longrightarrow> replay_stored c (lk_committed sys) ord"
  shows "locking_inv sha t cs \<lparr>lk_committed = lk_committed sys, lk_calls = (lk_calls sys)[i := (c, Finished r)]\<rparr>"
  by (rule inv_same [OF assms(1-3)]) (use assms(4) in \<open>simp_all add: pc_ok_def locks_of_def\<close>)

lemma stopped_outcome:
  assumes "progress sha c t as ch L" and "asks sha c as = Inr (Inl e)" and "0 < rq_quantity (rq_of c)"
  shows "\<forall>ord. call_outcome (Inl e) = Inr ord \<longrightarrow> replay_stored c t ord"
  using assms(1)
proof cases
  case (replays u r b)
  then have "resolveIdempotentOrder sha (mapIdempotencyRecord r False) (fp_of sha c) = Inl e"
    using assms(2) by (auto simp: asks_replays)
  then have "e = IdempotencyKeyReusedError" by (auto simp: resolveIdempotentOrder_def split: if_splits)
  then show ?thesis by (auto dest: call_outcome_cases(1))
next
  case (stopped x)
  then show ?thesis using assms(2) by (auto dest: call_outcome_cases(1))
qed (use assms(2,3) in \<open>auto simp: asks_product asks_key asks_reservation(2) reserves_def product_row_of_def enough_def
    asks_insert asks_processing asks_nothing split: option.splits\<close>)


lemma call_movesE:
  assumes "call_moves i f sys = Some sys'"
  obtains c pc t pc' where "i < length (lk_calls sys)" "lk_calls sys ! i = (c, pc)" "f c pc sys = Some (t, pc')"
    "sys' = \<lparr>lk_committed = t, lk_calls = (lk_calls sys)[i := (c, pc')]\<rparr>"
  using assms by (auto simp: call_moves_def split: if_splits prod.splits option.splits)

lemma inv_call:
  assumes "locking_inv sha t cs sys" and "i < length (lk_calls sys)" and "lk_calls sys ! i = (c, pc)"
  shows "pc_ok sha (lk_committed sys) (c, pc)" and "c \<in> set cs"
  using assms nth_mem [OF assms(2)] by (force simp: locking_inv_def)+

lemma inv_checked:
  assumes inv: "locking_inv sha t cs sys" and i: "i < length (lk_calls sys)" "lk_calls sys ! i = (c, Checking)"
    and pc': "pc' = (case snd (findByIdempotencyKey (exec_statement (cl_pg c)) (rq_idempotencyKey (rq_of c)) (lk_committed sys)) of
          Inl e \<Rightarrow> Finished (Inl e)
        | Inr (Some r) \<Rightarrow> Finished (resolveIdempotentOrder sha r (fp_of sha c))
        | Inr None \<Rightarrow> Working [] no_changes [])"
  shows "locking_inv sha t cs \<lparr>lk_committed = lk_committed sys, lk_calls = (lk_calls sys)[i := (c, pc')]\<rparr>"
proof (rule inv_same [OF inv i])
  have "validateOrderInput (cl_input c) = Inr ()" using inv_call(1) [OF inv i] by (simp add: pc_ok_def)
  then show "pc_ok sha (lk_committed sys) (c, pc')"
    by (auto simp: pc' findByIdempotencyKey_exec pc_ok_def replay_stored_def resolveIdempotentOrder_def record_of_def begun
        split: option.split)
  show "\<forall>j<length (lk_calls sys). j \<noteq> i \<longrightarrow> set (locks_of pc') \<inter> set (locks_of (snd (lk_calls sys ! j))) = {}"
    by (auto simp: pc' locks_of_def split: option.split sum.split)
qed

lemma inv_query:
  assumes inv: "locking_inv sha t cs sys" and uuid: "\<forall>c\<in>set cs. uuid_canonical (cl_pg c)"
    and i: "i < length (lk_calls sys)" "lk_calls sys ! i = (c, Working as ch L)"
    and nx: "asks sha c as = Inl st" and run: "exec_statement (cl_pg c) st (apply_changes ch (lk_committed sys)) = (v, a)"
    and free: "\<not> must_wait (lk_calls sys) i (locks_wanted (cl_pg c) (apply_changes ch (lk_committed sys)) st)"
  shows "locking_inv sha t cs \<lparr>lk_committed = lk_committed sys, lk_calls = (lk_calls sys)[i := (c, Working (as @ [a])
      (record_changes ch (apply_changes ch (lk_committed sys)) v)
      (L @ locks_taken a (locks_wanted (cl_pg c) (apply_changes ch (lk_committed sys)) st)))]\<rparr>"
    (is "locking_inv _ _ _ \<lparr>lk_committed = _, lk_calls = _[i := (c, ?pc)]\<rparr>")
proof (rule inv_same [OF inv i])
  have ok: "validateOrderInput (cl_input c) = Inr ()" "progress sha c (lk_committed sys) as ch L"
    using inv_call(1) [OF inv i] by (simp_all add: pc_ok_def)
  have "uuid_canonical (cl_pg c)" using inv_call(2) [OF inv i] uuid by blast
  from progress_step [OF this validateOrderInput_positive(1) [OF ok(1)] ok(2) nx run]
  show "pc_ok sha (lk_committed sys) (c, ?pc)" using ok(1) by (simp add: pc_ok_def)
  have "set (locks_taken a w) \<subseteq> set w" for w by (auto simp: locks_taken_def split: sum.splits list.splits)
  then show "\<forall>j<length (lk_calls sys). j \<noteq> i \<longrightarrow> set (locks_of ?pc) \<inter> set (locks_of (snd (lk_calls sys ! j))) = {}"
    using free calls_disjoint [OF inv i] by (fastforce simp: must_wait_iff locks_of_def)
qed

lemma inv_proceed:
  assumes inv: "locking_inv sha t cs sys" and t: "tables_ok t" and uuid: "\<forall>c\<in>set cs. uuid_canonical (cl_pg c)"
    and i: "i < length (lk_calls sys)" "lk_calls sys ! i = (c, pc)" and run: "proceed sha i c pc sys = Some (t', pc')"
  shows "locking_inv sha t cs \<lparr>lk_committed = t', lk_calls = (lk_calls sys)[i := (c, pc')]\<rparr>"
proof (cases pc)
  case Checking
  have "t' = lk_committed sys" using run by (auto simp: proceed_def Checking Let_def)
  then show ?thesis using inv_checked [OF inv i(1) i(2) [unfolded Checking]] run by (simp add: proceed_def Checking Let_def)
next
  case (Working as ch L)
  note i = i(1) i(2) [unfolded Working]
  have ok: "validateOrderInput (cl_input c) = Inr ()" "progress sha c (lk_committed sys) as ch L"
    using inv_call(1) [OF inv i] by (simp_all add: pc_ok_def)
  show ?thesis
  proof (cases "asks sha c as")
    case (Inl st)
    then show ?thesis
      using run inv_query [OF inv uuid i Inl] by (auto simp: proceed_def Working Let_def split: if_splits prod.splits)
  next
    case (Inr r)
    show ?thesis
    proof (cases r)
      case (Inl e)
      then show ?thesis
        using run Inr stopped_outcome [OF ok(2) _ validateOrderInput_positive(1) [OF ok(1)]] inv_finish [OF inv i]
        by (auto simp: proceed_def Working Let_def)
    next
      case (Inr ord)
      then show ?thesis
        using run \<open>asks sha c as = Inr r\<close> inv_commit [OF inv t uuid i, of ord "call_outcome (Inr ord)"] call_outcome_cases(2)
        by (auto simp: proceed_def Working Let_def)
    qed
  qed
qed (use run in \<open>simp add: proceed_def Let_def\<close>)

lemma inv_fails:
  assumes inv: "locking_inv sha t cs sys" and t: "tables_ok t" and uuid: "\<forall>c\<in>set cs. uuid_canonical (cl_pg c)"
    and e: "no_replay e" and i: "i < length (lk_calls sys)" "lk_calls sys ! i = (c, pc)"
    and run: "connection_fails sha e b c pc sys = Some (t', pc')"
  shows "locking_inv sha t cs \<lparr>lk_committed = t', lk_calls = (lk_calls sys)[i := (c, pc')]\<rparr>"
proof (cases pc)
  case Checking
  then show ?thesis using run inv_finish [OF inv i] by (auto simp: connection_fails_def Let_def)
next
  case (Working as ch L)
  note i = i(1) i(2) [unfolded Working]
  have ok: "validateOrderInput (cl_input c) = Inr ()" "progress sha c (lk_committed sys) as ch L"
    using inv_call(1) [OF inv i] by (simp_all add: pc_ok_def)
  note q = validateOrderInput_positive(1) [OF ok(1)]
  show ?thesis
  proof (cases "asks sha c as")
    case (Inl st)
    then have "t' = lk_committed sys" "pc' = Working (as @ [Inl e]) ch L"
      using run by (auto simp: connection_fails_def Working Let_def)
    then show ?thesis
      using inv_same [OF inv i, of pc'] progress_fails [OF q ok(2) Inl e] calls_disjoint [OF inv i] ok(1)
      by (simp add: pc_ok_def locks_of_def)
  next
    case (Inr r)
    show ?thesis
    proof (cases r)
      case (Inl x)
      then show ?thesis
        using run Inr stopped_outcome [OF ok(2) _ q] inv_finish [OF inv i]
        by (auto simp: connection_fails_def Working Let_def)
    next
      case (Inr ord)
      then have "t' = (if b then apply_changes ch (lk_committed sys) else lk_committed sys)"
        "pc' = Finished (Inl (translateAvailabilityError e))"
        using run \<open>asks sha c as = Inr r\<close> by (auto simp: connection_fails_def Working Let_def)
      then show ?thesis
        using Inr \<open>asks sha c as = Inr r\<close> inv_commit [OF inv t uuid i, of ord "Inl (translateAvailabilityError e)"]
          inv_finish [OF inv i, of "Inl (translateAvailabilityError e)"] by (cases b) simp_all
    qed
  qed
qed (use run in \<open>simp add: connection_fails_def Let_def\<close>)

lemma locking_inv_step:
  assumes inv: "locking_inv sha t cs sys" and t: "tables_ok t" and uuid: "\<forall>c\<in>set cs. uuid_canonical (cl_pg c)"
    and ev: "honest_event ev" and step: "locking_step sha ev sys = Some sys'"
  shows "locking_inv sha t cs sys'"
proof (cases ev)
  case (Proceed i)
  with step have "call_moves i (proceed sha i) sys = Some sys'" by simp
  then show ?thesis by (rule call_movesE) (use inv_proceed [OF inv t uuid] in blast)
next
  case (ConnectionFails i e b)
  have "no_replay e" using ev ConnectionFails by (auto simp: honest_event_def no_replay_def split: exn.splits)
  moreover have "call_moves i (connection_fails sha e b) sys = Some sys'" using step ConnectionFails by simp
  ultimately show ?thesis by (elim call_movesE) (use inv_fails [OF inv t uuid] in blast)
qed

lemma locking_inv_start: "locking_inv sha t cs (locking_start t cs)"
proof -
  have "locks_of (start_call c) = []" for c by (simp add: start_call_def locks_of_def split: sum.split)
  then have "locks_disjoint (lk_calls (locking_start t cs))" by (simp add: locks_disjoint_def locking_start_def)
  moreover have "pc_ok sha t (c, start_call c)" for c by (simp add: start_call_def pc_ok_def split: sum.split)
  ultimately show ?thesis by (auto simp: locking_inv_def locking_start_def comp_def intro: serial_none)
qed

lemma reachable_inv:
  assumes "locking_reachable sha t cs sys" and "tables_ok t" and "\<forall>c\<in>set cs. uuid_canonical (cl_pg c)"
  shows "locking_inv sha t cs sys"
  using assms(1)
proof (induction rule: locking_reachable.induct)
  case (locking_next sys ev sys')
  then show ?case using locking_inv_step assms(2,3) by blast
qed (rule locking_inv_start)


section \<open>No deadlock\<close>

text \<open>The transactions take their locks in one order: the product, the order, its processing state.\<close>

fun lock_class :: "row_lock \<Rightarrow> nat" where
  "lock_class (LockProduct u) = 0"
| "lock_class (LockOrderKey k) = 1"
| "lock_class (LockOrderId i) = 1"
| "lock_class (LockProcessing i) = 2"
| "lock_class (LockMessage m) = 3"

lemma lock_class_bound: "lock_class l \<le> 3"
  by (cases l) simp_all

lemma order_lock_class: "l \<in> set (order_lock_of c) \<Longrightarrow> lock_class l = 1"
  by (auto simp: order_lock_of_def order_locks_def split: option.splits)

lemma locks_in_order:
  assumes q: "0 < rq_quantity (rq_of c)" and p: "progress sha c t as ch L" and nx: "asks sha c as = Inl st"
    and l: "l \<in> set (locks_wanted (cl_pg c) (apply_changes ch t) st)" "l \<notin> set L" and h: "h \<in> set L"
  shows "lock_class h < lock_class l"
  using p
proof cases
  case begun
  then show ?thesis using h by simp
next
  case (looked u)
  have "st = SelectOrderByKey (rq_idempotencyKey (rq_of c))"
    using nx looked(1) by (auto simp: product_row_of_def asks_key split: option.splits)
  then show ?thesis using l by simp
next
  case (replays u r b)
  then show ?thesis using nx by (auto simp: asks_replays)
next
  case (chosen u p)
  then have "st = UpdateReserveLocked (rq_productId (rq_of c)) (rq_quantity (rq_of c))"
    using nx asks_reservation(2) [OF q] by (simp add: reserves_def enough_def)
  then show ?thesis using l chosen by (auto simp: product_locks_def reserves_def)
next
  case (reserved u p)
  then have "st = InsertOrderIdempotent (new_order_of (cl_id c) (rq_of c)) (Some (fp_of sha c))"
    using nx asks_insert(2) by (simp add: reserves_def)
  then have "l \<in> set (order_lock_of c)" using l(1) by (simp add: order_lock_of_def)
  then show ?thesis using order_lock_class h reserved(3) by auto
next
  case (clashed p p')
  then have "st = SelectOrderByKey (rq_idempotencyKey (rq_of c))" using nx asks_processing(2) by simp
  then show ?thesis using l by simp
next
  case (inserted u p row)
  then have "st = InsertProcessing (or_id row) ''PENDING''" using nx asks_processing(1) by (simp add: reserves_def)
  then have "lock_class l = 2" using l(1) by (auto split: option.splits)
  moreover have "lock_class h \<le> 1" using h inserted(3) order_lock_class by fastforce
  ultimately show ?thesis by simp
next
  case (recorded u p row)
  then show ?thesis using nx asks_nothing(1) by (simp add: reserves_def)
next
  case (stopped e)
  then show ?thesis using nx by simp
qed

definition finished :: "call_pc \<Rightarrow> bool" where
  "finished pc = (case pc of Finished r \<Rightarrow> True | _ \<Rightarrow> False)"

lemma finished_simps [simp]:
  "finished (Finished r)" "\<not> finished Checking" "\<not> finished (Working as ch L)"
  by (simp_all add: finished_def)

text \<open>Call \<open>i\<close> waits for the lock \<open>l\<close> of the call \<open>j\<close>.\<close>

definition waits_for :: "(string \<Rightarrow> string) \<Rightarrow> locking_system \<Rightarrow> nat \<Rightarrow> row_lock \<Rightarrow> nat \<Rightarrow> bool" where
  "waits_for sha sys i l j \<longleftrightarrow> i < length (lk_calls sys) \<and> j < length (lk_calls sys) \<and> j \<noteq> i
     \<and> l \<in> set (locks_of (snd (lk_calls sys ! j)))
     \<and> (\<exists>c as ch L st. lk_calls sys ! i = (c, Working as ch L) \<and> asks sha c as = Inl st
          \<and> l \<in> set (locks_wanted (cl_pg c) (apply_changes ch (lk_committed sys)) st))"

lemma stuck_waits:
  assumes i: "i < length (lk_calls sys)" and stuck: "locking_step sha (Proceed i) sys = None"
    and un: "\<not> finished (snd (lk_calls sys ! i))"
  shows "\<exists>l j. waits_for sha sys i l j"
proof -
  obtain c pc where ci: "lk_calls sys ! i = (c, pc)" by force
  have none: "proceed sha i c pc sys = None"
    using stuck i ci by (auto simp: call_moves_def split: option.splits prod.splits)
  then obtain as ch L where pc: "pc = Working as ch L"
    using un ci by (cases pc) (auto simp: proceed_def Let_def)
  obtain st where nx: "asks sha c as = Inl st"
    using none pc by (cases "asks sha c as") (auto simp: proceed_def Let_def split: sum.splits)
  have "must_wait (lk_calls sys) i (locks_wanted (cl_pg c) (apply_changes ch (lk_committed sys)) st)"
    using none pc nx by (auto simp: proceed_def Let_def split: if_splits prod.splits)
  then show ?thesis using i ci pc nx unfolding waits_for_def must_wait_iff by blast
qed

text \<open>The lock a call waits for comes after every lock it holds.\<close>

lemma waits_upwards:
  assumes inv: "locking_inv sha t cs sys" and w: "waits_for sha sys i l j" and h: "h \<in> set (locks_of (snd (lk_calls sys ! i)))"
  shows "lock_class h < lock_class l"
proof -
  obtain c as ch L st where ci: "i < length (lk_calls sys)" "lk_calls sys ! i = (c, Working as ch L)" "asks sha c as = Inl st"
    and l: "l \<in> set (locks_wanted (cl_pg c) (apply_changes ch (lk_committed sys)) st)"
    using w unfolding waits_for_def by blast
  have ok: "validateOrderInput (cl_input c) = Inr ()" "progress sha c (lk_committed sys) as ch L"
    using inv_call(1) [OF inv ci(1,2)] by (simp_all add: pc_ok_def)
  have "l \<notin> set L" using calls_disjoint [OF inv ci(1,2)] w unfolding waits_for_def by blast
  moreover have "h \<in> set L" using h ci(2) by (simp add: locks_of_def)
  ultimately show ?thesis by (rule locks_in_order [OF validateOrderInput_positive(1) [OF ok(1)] ok(2) ci(3) l])
qed

lemma some_call_proceeds:
  assumes inv: "locking_inv sha t cs sys" and un: "i < length (lk_calls sys)" "\<not> finished (snd (lk_calls sys ! i))"
  shows "\<exists>j<length (lk_calls sys). locking_step sha (Proceed j) sys \<noteq> None"
proof (rule ccontr)
  assume "\<not> ?thesis"
  then have stuck: "locking_step sha (Proceed j) sys = None" if "j < length (lk_calls sys)" for j using that by blast
  have "\<exists>i l j. waits_for sha sys i l j \<and> n \<le> lock_class l" for n
  proof (induction n)
    case 0
    then show ?case using stuck_waits [OF un(1) stuck un(2)] un(1) by blast
  next
    case (Suc n)
    then obtain i l j where w: "waits_for sha sys i l j" and n: "n \<le> lock_class l" by blast
    have j: "j < length (lk_calls sys)" "l \<in> set (locks_of (snd (lk_calls sys ! j)))" using w unfolding waits_for_def by blast+
    then have "\<not> finished (snd (lk_calls sys ! j))" by (auto simp: finished_def locks_of_def split: call_pc.splits)
    then obtain l' k where w': "waits_for sha sys j l' k" using stuck_waits [OF j(1) stuck] j(1) by blast
    then show ?case using waits_upwards [OF inv w' j(2)] n by (metis Suc_leI le_less_trans)
  qed
  then obtain l where "4 \<le> lock_class l" by blast
  then show False using lock_class_bound [of l] by simp
qed


text \<open>Every step takes a call closer to its end.\<close>

definition steps_left :: "(string \<Rightarrow> string) \<Rightarrow> order_call \<times> call_pc \<Rightarrow> nat" where
  "steps_left sha call = (case call of (c, pc) \<Rightarrow> (case pc of
      Checking \<Rightarrow> 7
    | Working as ch L \<Rightarrow> (case asks sha c as of Inl st \<Rightarrow> 6 - length as | Inr r \<Rightarrow> 1)
    | Finished r \<Rightarrow> 0))"

lemma asks_length: "progress sha c t as ch L \<Longrightarrow> asks sha c as = Inl st \<Longrightarrow> length as \<le> 4"
  by (cases rule: progress.cases) (auto simp: asks_nothing(1) reserves_def)

lemma steps_left_query:
  assumes "progress sha c t as ch L" "asks sha c as = Inl st" and "progress sha c t (as @ [a]) ch' L'"
  shows "steps_left sha (c, Working (as @ [a]) ch' L') < steps_left sha (c, Working as ch L)"
  using asks_length [OF assms(1,2)] assms(2)
  by (auto simp: steps_left_def dest: asks_length [OF assms(3)] split: sum.split)

lemma steps_left_checked: "steps_left sha (c, Working [] no_changes []) < steps_left sha (c, Checking)"
  by (simp add: steps_left_def asks_product)

lemma proceed_closer:
  assumes inv: "locking_inv sha t cs sys" and t: "tables_ok t" and uuid: "\<forall>c\<in>set cs. uuid_canonical (cl_pg c)"
    and i: "i < length (lk_calls sys)" "lk_calls sys ! i = (c, pc)" and run: "proceed sha i c pc sys = Some (t', pc')"
  shows "steps_left sha (c, pc') < steps_left sha (c, pc)"
proof (cases pc)
  case Checking
  then show ?thesis
    using run steps_left_checked by (auto simp: proceed_def Let_def steps_left_def split: sum.splits option.splits)
next
  case (Working as ch L)
  note i = i(1) i(2) [unfolded Working]
  have ok: "progress sha c (lk_committed sys) as ch L" using inv_call(1) [OF inv i] by (simp add: pc_ok_def)
  show ?thesis
  proof (cases "asks sha c as")
    case (Inl st)
    obtain v a where e: "exec_statement (cl_pg c) st (apply_changes ch (lk_committed sys)) = (v, a)" by force
    have free: "\<not> must_wait (lk_calls sys) i (locks_wanted (cl_pg c) (apply_changes ch (lk_committed sys)) st)"
      using run Working Inl by (auto simp: proceed_def Let_def split: if_splits)
    have "pc_ok sha (lk_committed sys) (c, pc')"
      using inv_call(1) [OF inv_query [OF inv uuid i Inl e free], of i] i(1) run Working Inl e free
      by (auto simp: proceed_def Let_def)
    then show ?thesis
      using steps_left_query [OF ok Inl] run Working Inl e free by (auto simp: proceed_def Let_def pc_ok_def)
  next
    case (Inr r)
    then show ?thesis using run Working by (cases r) (auto simp: proceed_def Let_def steps_left_def)
  qed
qed (use run in \<open>simp add: proceed_def Let_def\<close>)

lemma fails_closer:
  assumes inv: "locking_inv sha t cs sys" and e: "no_replay e"
    and i: "i < length (lk_calls sys)" "lk_calls sys ! i = (c, pc)" and run: "connection_fails sha e b c pc sys = Some (t', pc')"
  shows "steps_left sha (c, pc') < steps_left sha (c, pc)"
proof (cases pc)
  case Checking
  then show ?thesis using run by (auto simp: connection_fails_def Let_def steps_left_def)
next
  case (Working as ch L)
  note i = i(1) i(2) [unfolded Working]
  have ok: "validateOrderInput (cl_input c) = Inr ()" "progress sha c (lk_committed sys) as ch L"
    using inv_call(1) [OF inv i] by (simp_all add: pc_ok_def)
  show ?thesis
  proof (cases "asks sha c as")
    case (Inl st)
    then show ?thesis
      using run Working steps_left_query [OF ok(2) Inl progress_fails [OF validateOrderInput_positive(1) [OF ok(1)] ok(2) Inl e]]
      by (auto simp: connection_fails_def Let_def)
  next
    case (Inr r)
    then show ?thesis using run Working by (cases r) (auto simp: connection_fails_def Let_def steps_left_def)
  qed
qed (use run in \<open>simp add: connection_fails_def Let_def\<close>)

definition work_left :: "(string \<Rightarrow> string) \<Rightarrow> locking_system \<Rightarrow> nat" where
  "work_left sha sys = (\<Sum>i<length (lk_calls sys). steps_left sha (lk_calls sys ! i))"

lemma sum_update_less:
  assumes "i < length xs" and "f y < (f (xs ! i) :: nat)"
  shows "(\<Sum>j<length (xs[i := y]). f (xs[i := y] ! j)) < (\<Sum>j<length xs. f (xs ! j))"
proof -
  have "f (xs[i := y] ! j) \<le> f (xs ! j)" for j using assms by (cases "j = i") simp_all
  moreover have "f (xs[i := y] ! i) < f (xs ! i)" using assms by simp
  ultimately show ?thesis using assms(1) unfolding length_list_update by (intro sum_strict_mono_ex1 bexI [of _ i]) auto
qed

lemma step_closer:
  assumes inv: "locking_inv sha t cs sys" and t: "tables_ok t" and uuid: "\<forall>c\<in>set cs. uuid_canonical (cl_pg c)"
    and ev: "honest_event ev" and step: "locking_step sha ev sys = Some sys'"
  shows "work_left sha sys' < work_left sha sys"
proof (cases ev)
  case (Proceed i)
  with step have "call_moves i (proceed sha i) sys = Some sys'" by simp
  then show ?thesis
  proof (rule call_movesE)
    fix c pc t' pc'
    assume a: "i < length (lk_calls sys)" "lk_calls sys ! i = (c, pc)" "proceed sha i c pc sys = Some (t', pc')"
      "sys' = \<lparr>lk_committed = t', lk_calls = (lk_calls sys)[i := (c, pc')]\<rparr>"
    show ?thesis using sum_update_less [OF a(1), of "steps_left sha"] proceed_closer [OF inv t uuid a(1-3)] a(2,4)
      by (simp add: work_left_def)
  qed
next
  case (ConnectionFails i e b)
  have "no_replay e" using ev ConnectionFails by (auto simp: honest_event_def no_replay_def split: exn.splits)
  have "call_moves i (connection_fails sha e b) sys = Some sys'" using step ConnectionFails by simp
  then show ?thesis
  proof (rule call_movesE)
    fix c pc t' pc'
    assume a: "i < length (lk_calls sys)" "lk_calls sys ! i = (c, pc)" "connection_fails sha e b c pc sys = Some (t', pc')"
      "sys' = \<lparr>lk_committed = t', lk_calls = (lk_calls sys)[i := (c, pc')]\<rparr>"
    show ?thesis using sum_update_less [OF a(1), of "steps_left sha"] fails_closer [OF inv \<open>no_replay e\<close> a(1-3)] a(2,4)
      by (simp add: work_left_def)
  qed
qed

fun locking_run :: "(string \<Rightarrow> string) \<Rightarrow> lock_event list \<Rightarrow> locking_system \<Rightarrow> locking_system option" where
  "locking_run sha [] sys = Some sys"
| "locking_run sha (ev # evs) sys = (case locking_step sha ev sys of
      None \<Rightarrow> None
    | Some sys' \<Rightarrow> locking_run sha evs sys')"

lemma locking_run_inv:
  assumes "tables_ok t" and "\<forall>c\<in>set cs. uuid_canonical (cl_pg c)"
  shows "locking_inv sha t cs sys \<Longrightarrow> \<forall>ev\<in>set evs. honest_event ev \<Longrightarrow> locking_run sha evs sys = Some sys' \<Longrightarrow>
    locking_inv sha t cs sys' \<and> work_left sha sys' + length evs \<le> work_left sha sys"
proof (induction evs arbitrary: sys)
  case (Cons ev evs)
  then obtain s where s: "locking_step sha ev sys = Some s" "locking_run sha evs s = Some sys'"
    by (auto split: option.splits)
  have "honest_event ev" using Cons.prems(2) by simp
  then show ?case
    using Cons.IH [OF locking_inv_step [OF Cons.prems(1) assms _ s(1)] _ s(2)] Cons.prems(2)
      step_closer [OF Cons.prems(1) assms _ s(1)] by fastforce
qed simp

lemma locking_run_reachable:
  "locking_reachable sha t cs sys \<Longrightarrow> \<forall>ev\<in>set evs. honest_event ev \<Longrightarrow> locking_run sha evs sys = Some sys' \<Longrightarrow>
    locking_reachable sha t cs sys'"
proof (induction evs arbitrary: sys)
  case (Cons ev evs)
  then obtain s where "locking_step sha ev sys = Some s" "locking_run sha evs s = Some sys'"
    by (auto split: option.splits)
  moreover have "honest_event ev" "\<forall>ev\<in>set evs. honest_event ev" using Cons.prems(2) by simp_all
  ultimately show ?case using Cons.IH locking_next [OF Cons.prems(1)] by blast
qed simp

lemma work_left_bound: "work_left sha sys \<le> 7 * length (lk_calls sys)"
proof -
  have "steps_left sha x \<le> 7" for x by (auto simp: steps_left_def split: prod.split call_pc.split sum.split)
  then have "work_left sha sys \<le> (\<Sum>i<length (lk_calls sys). 7)" unfolding work_left_def by (intro sum_mono)
  then show ?thesis by simp
qed


section \<open>Properties\<close>

lemma pc_ok_finished: "pc_ok sha t (c, Finished (Inr ord)) \<Longrightarrow> replay_stored c t ord"
  by (simp add: pc_ok_def)

text \<open>
  C3. Row locks serialize the orders.  Any number of calls run at once, each on a connection that may
  fail at any statement or lose the answer to its \<open>COMMIT\<close>.  Whatever the interleaving, the committed
  tables are those of some of the transactions run one after the other; no constraint is broken and no
  stock goes negative, the stock and the ordered quantities of every product still add up, no order is
  lost or changed and every new one has its pending processing state; and the order that a call returned
  is the one stored under its key, so calls with one key return the same order.
\<close>

theorem row_locks_serialize:
  assumes "locking_reachable sha t cs sys" and "tables_ok t" and "\<forall>c\<in>set cs. uuid_canonical (cl_pg c)"
  shows "(\<exists>ords. serial_run sha cs t ords (lk_committed sys))
    \<and> tables_ok (lk_committed sys) \<and> orders_only_added t (lk_committed sys)
    \<and> (\<forall>c ord. (c, Finished (Inr ord)) \<in> set (lk_calls sys) \<longrightarrow>
         (\<exists>f. stored_at (lk_committed sys) (rq_idempotencyKey (request_of (cl_input c))) = Some (ord, f)))"
proof -
  have inv: "locking_inv sha t cs sys" by (rule reachable_inv [OF assms])
  then obtain ords where ords: "serial_run sha cs t ords (lk_committed sys)" by (auto simp: locking_inv_def)
  have "\<forall>c ord. (c, Finished (Inr ord)) \<in> set (lk_calls sys) \<longrightarrow> replay_stored c (lk_committed sys) ord"
    using inv pc_ok_finished unfolding locking_inv_def by blast
  then show ?thesis using ords serial_run_outcome [OF ords assms(2,3)] by (auto simp: replay_stored_def)
qed

lemma inv_length: "locking_inv sha t cs sys \<Longrightarrow> length (lk_calls sys) = length cs"
  by (auto simp: locking_inv_def)

text \<open>
  C15. The locks never deadlock.  From any reachable state, a run of any events has at most seven
  steps for every call, and where it ends, either every call has its outcome or some call can proceed:
  so every schedule that goes on while a call can proceed brings every call to its outcome.
\<close>

theorem row_locks_never_deadlock:
  assumes "locking_reachable sha t cs sys" and "tables_ok t" and "\<forall>c\<in>set cs. uuid_canonical (cl_pg c)"
    and "\<forall>ev\<in>set evs. honest_event ev" and "locking_run sha evs sys = Some sys'"
  shows "length evs \<le> 7 * length cs
    \<and> ((\<forall>call\<in>set (lk_calls sys'). finished (snd call)) \<or> (\<exists>i<length cs. locking_step sha (Proceed i) sys' \<noteq> None))"
proof -
  have inv: "locking_inv sha t cs sys" by (rule reachable_inv [OF assms(1-3)])
  note run = locking_run_inv [OF assms(2,3) inv assms(4,5)]
  have n: "length (lk_calls sys) = length cs" "length (lk_calls sys') = length cs"
    using inv_length [OF inv] inv_length [OF conjunct1 [OF run]] .
  have "length evs \<le> 7 * length cs" using run work_left_bound [of sha sys] n(1) by simp
  moreover have "\<exists>i<length cs. locking_step sha (Proceed i) sys' \<noteq> None"
    if un: "call \<in> set (lk_calls sys')" "\<not> finished (snd call)" for call
  proof -
    obtain i where "i < length (lk_calls sys')" "\<not> finished (snd (lk_calls sys' ! i))"
      using un by (metis in_set_conv_nth)
    from some_call_proceeds [OF conjunct1 [OF run] this] show ?thesis unfolding n(2) .
  qed
  ultimately show ?thesis by blast
qed

section \<open>Sample calls\<close>

definition sample_calls :: "order_call list" where
  "sample_calls = map (\<lambda>i. \<lparr>cl_pg = sample_pg, cl_id = i, cl_input = sample_request\<rparr>) [''o1'', ''o2'']"

text \<open>Both calls find the key free; the second waits for the product and then replays the first.\<close>

definition sample_schedule :: "lock_event list" where
  "sample_schedule = [Proceed 0, Proceed 1, Proceed 0, Proceed 0, Proceed 0, Proceed 0, Proceed 0, Proceed 0,
     Proceed 1, Proceed 1, Proceed 1]"

definition call_result :: "call_pc \<Rightarrow> order result option" where
  "call_result pc = (case pc of Finished r \<Rightarrow> Some r | _ \<Rightarrow> None)"

definition sample_first_order :: order where
  "sample_first_order = \<lparr>ord_id = ''o1'', ord_customerId = ''c'', ord_productId = ''p'', ord_quantity = 3,
     ord_amount = 5, ord_status = ''PENDING'', ord_version = 1, ord_idempotencyKey = ''k'',
     ord_createdAt = 1000, ord_updatedAt = 1000\<rparr>"

lemma sample_run_outcome:
  "map_option (\<lambda>sys. map (\<lambda>call. call_result (snd call)) (lk_calls sys))
     (locking_run sample_sha sample_schedule (locking_start sample_tables sample_calls))
   = Some [Some (Inr sample_first_order), Some (Inr sample_first_order)]"
  by code_simp

lemma sample_second_waits:
  "map_option (\<lambda>sys. locking_step sample_sha (Proceed 1) sys = None)
     (locking_run sample_sha (take 3 sample_schedule) (locking_start sample_tables sample_calls)) = Some True"
  by code_simp

lemma sample_honest: "\<forall>ev\<in>set sample_schedule. honest_event ev"
  by code_simp

lemma sample_calls_canonical: "\<forall>c\<in>set sample_calls. uuid_canonical (cl_pg c)"
  by (simp add: sample_calls_def sample_canonical)

lemma sample_run:
  obtains sys where "locking_run sample_sha sample_schedule (locking_start sample_tables sample_calls) = Some sys"
    and "map (\<lambda>call. call_result (snd call)) (lk_calls sys) = [Some (Inr sample_first_order), Some (Inr sample_first_order)]"
  using sample_run_outcome by (auto simp: map_option_eq_Some)

lemma call_result_Some: "call_result pc = Some r \<longleftrightarrow> pc = Finished r"
  by (simp add: call_result_def split: call_pc.split)

theorem row_locks_serialize_witness:
  "\<exists>sys. locking_run sample_sha sample_schedule (locking_start sample_tables sample_calls) = Some sys
    \<and> map (\<lambda>call. call_result (snd call)) (lk_calls sys) = [Some (Inr sample_first_order), Some (Inr sample_first_order)]
    \<and> (\<exists>ords. serial_run sample_sha sample_calls sample_tables ords (lk_committed sys))
    \<and> (\<exists>f. stored_at (lk_committed sys) ''k'' = Some (sample_first_order, f))"
proof -
  obtain sys where run: "locking_run sample_sha sample_schedule (locking_start sample_tables sample_calls) = Some sys"
    and out: "map (\<lambda>call. call_result (snd call)) (lk_calls sys) = [Some (Inr sample_first_order), Some (Inr sample_first_order)]"
    by (rule sample_run)
  note reach = locking_run_reachable [OF locking_init sample_honest run]
  note serial = row_locks_serialize [OF reach sample_tables_ok sample_calls_canonical]
  obtain x y where calls: "lk_calls sys = [x, y]" using out by (auto simp: map_eq_Cons_conv)
  have "map fst (lk_calls sys) = sample_calls"
    using reachable_inv [OF reach sample_tables_ok sample_calls_canonical] by (simp add: locking_inv_def)
  then have "rq_idempotencyKey (request_of (cl_input (fst x))) = ''k''"
    using calls by (simp add: sample_calls_def sample_request_fields)
  moreover have "(fst x, Finished (Inr sample_first_order)) \<in> set (lk_calls sys)"
    using out calls by (cases x) (simp add: call_result_Some)
  ultimately have "\<exists>f. stored_at (lk_committed sys) ''k'' = Some (sample_first_order, f)" using serial by metis
  then show ?thesis using conjunct1 [OF serial] run out by (intro exI [of _ sys] conjI)
qed

theorem row_locks_never_deadlock_witness:
  "\<exists>sys. locking_run sample_sha (take 3 sample_schedule) (locking_start sample_tables sample_calls) = Some sys
    \<and> locking_step sample_sha (Proceed 1) sys = None
    \<and> ((\<forall>call\<in>set (lk_calls sys). finished (snd call)) \<or> (\<exists>i<length sample_calls. locking_step sample_sha (Proceed i) sys \<noteq> None))"
proof -
  obtain sys where run: "locking_run sample_sha (take 3 sample_schedule) (locking_start sample_tables sample_calls) = Some sys"
    and waits: "locking_step sample_sha (Proceed 1) sys = None"
    using sample_second_waits by (auto simp: map_option_eq_Some)
  have "\<forall>ev\<in>set (take 3 sample_schedule). honest_event ev" using sample_honest by (meson in_set_takeD)
  from row_locks_never_deadlock [OF locking_init sample_tables_ok sample_calls_canonical this run]
  show ?thesis using run waits by blast
qed

end
