(* ===== verification/Order_Http.thy ===== *)
theory Order_Http
  imports Order_Requests Observability
begin

text \<open>
  The HTTP surface of the orders: the error handler of \<open>apps/api/src/app.js\<close> and the
  hooks and handler of \<open>apps/api/src/orders-route.js\<close>.  The framework is not modelled:
  whether a request passes its schema is an argument, and \<open>serve_order\<close> calls the hooks in
  the documented order of a request (\<open>onRequest\<close>, validation, \<open>preHandler\<close>, the handler,
  on an error \<open>onError\<close> and the error handler, after the reply \<open>onResponse\<close>).
\<close>

section \<open>Error handler (\<open>app.js\<close>)\<close>

definition requestValidationErrorCodes :: "string list" where
  "requestValidationErrorCodes =
     [''FST_ERR_CTP_EMPTY_JSON_BODY'', ''FST_ERR_CTP_INVALID_JSON_BODY'', ''FST_ERR_CTP_INVALID_MEDIA_TYPE'']"

record error_reply =
  er_status :: nat
  er_code :: string
  er_message :: string

text \<open>The status of an \<open>OrderApplicationError\<close> (\<open>order-errors.js\<close>); \<open>None\<close> for any other error.\<close>

fun application_status :: "exn \<Rightarrow> nat option" where
  "application_status OrderValidationError = Some 400"
| "application_status ProductNotFoundError = Some 404"
| "application_status OrderInsufficientInventoryError = Some 409"
| "application_status IdempotencyKeyReusedError = Some 409"
| "application_status _ = None"

fun is_database_unavailable_error :: "exn \<Rightarrow> bool" where
  "is_database_unavailable_error (DatabaseUnavailableError c) = True"
| "is_database_unavailable_error e = (exn_code e = Some ''DATABASE_UNAVAILABLE'')"

definition has_code :: "string list \<Rightarrow> exn \<Rightarrow> bool" where
  "has_code cs e = (case exn_code e of None \<Rightarrow> False | Some c \<Rightarrow> c \<in> set cs)"

lemma has_code_iff [simp]: "has_code cs e \<longleftrightarrow> (\<exists>c. exn_code e = Some c \<and> c \<in> set cs)"
  by (simp add: has_code_def split: option.split)

text \<open>\<open>validation\<close>: whether the error has the framework's \<open>validation\<close> property.\<close>

definition handleError :: "exn \<Rightarrow> bool \<Rightarrow> error_reply" where
  "handleError e validation =
     (if validation \<or> has_code requestValidationErrorCodes e
      then \<lparr>er_status = 400, er_code = ''VALIDATION_ERROR'', er_message = ''Invalid request''\<rparr>
      else (case application_status e of
          Some status \<Rightarrow>
            (let code = (case exn_code e of Some c \<Rightarrow> c | None \<Rightarrow> [])
             in \<lparr>er_status = status, er_code = code,
                 er_message = (if code = ''VALIDATION_ERROR'' then ''Invalid request'' else exn_message e)\<rparr>)
        | None \<Rightarrow>
            if is_database_unavailable_error e
            then \<lparr>er_status = 503, er_code = ''DATABASE_UNAVAILABLE'', er_message = ''Database unavailable''\<rparr>
            else \<lparr>er_status = 500, er_code = ''INTERNAL_ERROR'', er_message = ''Internal server error''\<rparr>))"

section \<open>Hooks (\<open>orders-route.js\<close>)\<close>

record request_state =
  rs_requestContext :: jsval
  rs_operation :: "operation option"
  rs_error :: "exn option"
  rs_orderId :: jsval

definition onRequest :: "bool \<Rightarrow> jsval \<Rightarrow> jsval \<Rightarrow> request_state option" where
  "onRequest observed requestId correlationId =
     (if \<not> observed then None
      else Some \<lparr>rs_requestContext = createRequestContext requestId correlationId, rs_operation = None,
                 rs_error = None, rs_orderId = JUndefined\<rparr>)"

definition preHandler :: "clocks \<Rightarrow> request_state option \<Rightarrow> request_state option" where
  "preHandler ck st = map_option
     (\<lambda>s. s\<lparr>rs_operation := Some (startOperation ck ''order.create'' (rs_requestContext s))\<rparr>) st"

text \<open>An error \<open>undefined\<close> leaves the field undefined.\<close>

definition onError :: "exn \<Rightarrow> request_state option \<Rightarrow> request_state option" where
  "onError e st = map_option
     (\<lambda>s. if rs_operation s \<noteq> None \<and> rs_error s = None \<and> e \<noteq> Thrown JUndefined
          then s\<lparr>rs_error := Some e\<rparr> else s) st"

fun truthy_error :: "exn option \<Rightarrow> bool" where
  "truthy_error None = False"
| "truthy_error (Some (Thrown v)) = truthy v"
| "truthy_error (Some _) = True"

definition request_failed_error :: "nat \<Rightarrow> exn" where
  "request_failed_error status =
     ErrorObj ''Error'' (''Request failed with status '' @ show_nat status) (Some ''REQUEST_FAILED'')"

definition finished_as :: "string \<Rightarrow> string list \<Rightarrow> request_state \<Rightarrow> finish_options" where
  "finished_as status counters s = \<lparr>fo_status = status, fo_context = JObj [(''orderId'', rs_orderId s)],
     fo_counters = counters, fo_error = None\<rparr>"

definition reported_error :: "nat \<Rightarrow> request_state \<Rightarrow> exn" where
  "reported_error status s = (case rs_error s of
      None \<Rightarrow> request_failed_error status
    | Some e \<Rightarrow> if e = Thrown JNull then request_failed_error status else e)"

definition onResponse ::
  "(jsval \<Rightarrow> string) \<Rightarrow> clocks \<Rightarrow> nat \<Rightarrow> request_state option \<times> telemetry \<Rightarrow> request_state option \<times> telemetry" where
  "onResponse str ck status st = (case st of
      (Some s, t) \<Rightarrow>
        (case rs_operation s of
           None \<Rightarrow> (Some s, t)
         | Some op \<Rightarrow>
             if truthy_error (rs_error s) \<or> 400 \<le> status then
               (case fail_operation str ck (reported_error status s)
                       (finished_as ''FAILED'' [''orders_failed_total''] s) (op, t) of
                  ((op', t'), _) \<Rightarrow> (Some (s\<lparr>rs_operation := Some op'\<rparr>), t'))
             else (case complete_operation str ck (finished_as ''CREATED'' [] s) (op, t) of
                  ((op', t'), _) \<Rightarrow> (Some (s\<lparr>rs_operation := Some op'\<rparr>), t')))
    | (None, t) \<Rightarrow> (None, t))"

section \<open>Serving a request\<close>

text \<open>\<open>{ ...request.body, idempotencyKey, ...(requestContext ? { requestContext } : {}) }\<close>\<close>

definition order_input :: "jsval \<Rightarrow> jsval \<Rightarrow> request_state option \<Rightarrow> jsval" where
  "order_input body key st =
     (let fields = put_prop ''idempotencyKey'' key (own_fields body)
      in JObj (case st of
           None \<Rightarrow> fields
         | Some s \<Rightarrow> put_prop ''requestContext'' (rs_requestContext s) fields))"

record http_request =
  hr_id :: jsval
  hr_correlationId :: jsval
  hr_idempotencyKey :: jsval
  hr_body :: jsval

datatype http_reply = OrderCreatedReply order | ErrorReply error_reply

definition reply_status :: "http_reply \<Rightarrow> nat" where
  "reply_status r = (case r of OrderCreatedReply ord \<Rightarrow> 201 | ErrorReply e \<Rightarrow> er_status e)"

text \<open>
  The reply of a handler whose service call settled with \<open>r\<close>, and the hooks after it.
\<close>

definition settle_request ::
  "(jsval \<Rightarrow> string) \<Rightarrow> clocks \<Rightarrow> order result \<Rightarrow> request_state option \<Rightarrow> telemetry
     \<Rightarrow> http_reply \<times> request_state option \<times> telemetry" where
  "settle_request str ck r st t =
     (let (reply, st1) = (case r of
            Inr ord \<Rightarrow> (OrderCreatedReply ord, map_option (\<lambda>x. x\<lparr>rs_orderId := JStr (ord_id ord)\<rparr>) st)
          | Inl e \<Rightarrow> (ErrorReply (handleError e False), onError e st))
      in (reply, onResponse str ck (reply_status reply) (st1, t)))"

text \<open>
  The service shares the metrics registry with the hooks, so it acts on its own state and the
  telemetry; a service call that does not settle leaves the request without a reply.
\<close>

definition serve_order ::
  "(jsval \<Rightarrow> string) \<Rightarrow> bool \<Rightarrow> clocks \<Rightarrow> clocks \<Rightarrow> exn option
     \<Rightarrow> (jsval \<Rightarrow> 's \<times> telemetry \<Rightarrow> ('s \<times> telemetry) \<times> order result option)
     \<Rightarrow> http_request \<Rightarrow> 's \<Rightarrow> telemetry \<Rightarrow> ('s \<times> telemetry) \<times> (http_reply \<times> request_state option) option" where
  "serve_order str observed ck0 ck1 invalid service req s t =
     (let st = onRequest observed (hr_id req) (hr_correlationId req) in
      case invalid of
        Some e \<Rightarrow>
          (let reply = ErrorReply (handleError e True);
               (st', t') = onResponse str ck1 (reply_status reply) (onError e st, t)
           in ((s, t'), Some (reply, st')))
      | None \<Rightarrow>
          (let st1 = preHandler ck0 st in
           (case service (order_input (hr_body req) (hr_idempotencyKey req) st1) (s, t) of
              (w, None) \<Rightarrow> (w, None)
            | ((s', t1), Some r) \<Rightarrow>
                (let (reply, st', t') = settle_request str ck1 r st1 t1
                 in ((s', t'), Some (reply, st'))))))"

section \<open>The end of a request\<close>

lemma reported_error_some: "reported_error status s \<noteq> Thrown JUndefined \<or> rs_error s = Some (Thrown JUndefined)"
  by (auto simp: reported_error_def request_failed_error_def split: option.split)

text \<open>A request with an open operation ends with one record and at most one counted failure.\<close>

lemma onResponse_finishes:
  assumes t: "metrics_ok (tl_metrics t)" and op: "rs_operation s = Some op" "ot_terminal op = None"
    and ck: "\<bar>ck_wall ck\<bar> \<le> MAX_TIME" and err: "rs_error s \<noteq> Some (Thrown JUndefined)"
    and run: "onResponse str ck status (Some s, t) = (st', t')"
  shows "\<exists>r. tl_written t' = tl_written t @ [r]
      \<and> (lr_level r, lr_status r) = (if truthy_error (rs_error s) \<or> 400 \<le> status
           then (''error'', ''FAILED'') else (''info'', ''CREATED''))
      \<and> (\<forall>n. mt_counters (tl_metrics t) ''orders_failed_total'' = Some n \<longrightarrow>
           mt_counters (tl_metrics t') ''orders_failed_total'' =
             Some (n + (if truthy_error (rs_error s) \<or> 400 \<le> status then 1 else 0)))"
proof -
  let ?failed = "truthy_error (rs_error s) \<or> 400 \<le> status"
  let ?o = "if ?failed
    then (finished_as ''FAILED'' [''orders_failed_total''] s)\<lparr>fo_error := Some (reported_error status s)\<rparr>
    else finished_as ''CREATED'' [] s"
  have "set (fo_counters ?o) \<subseteq> set counterNames" by (simp add: finished_as_def counterNames_def)
  from finish_first [OF t op(2) this ck, of str] obtain op' t1 r where
    f: "finish str ck ?o (op, t) = ((op', t1), Inr r)" "tl_written t1 = tl_written t @ [r]"
    "lr_status r = fo_status ?o" "lr_level r = (if fo_error ?o = None then ''info'' else ''error'')"
    "\<forall>c n. mt_counters (tl_metrics t) c = Some n \<longrightarrow>
         mt_counters (tl_metrics t1) c = Some (n + of_nat (count_list (fo_counters ?o) c))"
    by blast
  have "reported_error status s \<noteq> Thrown JUndefined" using reported_error_some err by blast
  then have "t' = t1"
    using run op(1) f(1)
    by (cases ?failed) (auto simp: onResponse_def fail_operation_def complete_operation_def)
  then show ?thesis
    using f(2-5) by (cases ?failed) (auto simp: finished_as_def)
qed

section \<open>Properties\<close>

text \<open>
  Every failure has its documented reply.  The reply is one of six, chosen by the kind of the error
  alone; an error that is none of the known ones is always a 500 with a constant
  body, so no message of an internal error reaches the client, and no error is answered
  with a success.
\<close>

theorem error_replies:
  "handleError e validation \<in>
     {\<lparr>er_status = 400, er_code = ''VALIDATION_ERROR'', er_message = ''Invalid request''\<rparr>,
      \<lparr>er_status = 404, er_code = ''PRODUCT_NOT_FOUND'', er_message = ''Product not found''\<rparr>,
      \<lparr>er_status = 409, er_code = ''INSUFFICIENT_INVENTORY'', er_message = ''Insufficient inventory''\<rparr>,
      \<lparr>er_status = 409, er_code = ''IDEMPOTENCY_KEY_REUSED'',
        er_message = ''Idempotency key already used for a different request''\<rparr>,
      \<lparr>er_status = 503, er_code = ''DATABASE_UNAVAILABLE'', er_message = ''Database unavailable''\<rparr>,
      \<lparr>er_status = 500, er_code = ''INTERNAL_ERROR'', er_message = ''Internal server error''\<rparr>}
   \<and> handleError OrderValidationError False
       = \<lparr>er_status = 400, er_code = ''VALIDATION_ERROR'', er_message = ''Invalid request''\<rparr>
   \<and> er_status (handleError ProductNotFoundError False) = 404
   \<and> er_status (handleError OrderInsufficientInventoryError False) = 409
   \<and> er_status (handleError IdempotencyKeyReusedError False) = 409
   \<and> er_status (handleError (DatabaseUnavailableError c) False) = 503
   \<and> er_status (handleError (IdempotentReplay ord) False) = 500"
proof -
  have "handleError e validation \<in>
     {\<lparr>er_status = 400, er_code = ''VALIDATION_ERROR'', er_message = ''Invalid request''\<rparr>,
      \<lparr>er_status = 404, er_code = ''PRODUCT_NOT_FOUND'', er_message = ''Product not found''\<rparr>,
      \<lparr>er_status = 409, er_code = ''INSUFFICIENT_INVENTORY'', er_message = ''Insufficient inventory''\<rparr>,
      \<lparr>er_status = 409, er_code = ''IDEMPOTENCY_KEY_REUSED'',
        er_message = ''Idempotency key already used for a different request''\<rparr>,
      \<lparr>er_status = 503, er_code = ''DATABASE_UNAVAILABLE'', er_message = ''Database unavailable''\<rparr>,
      \<lparr>er_status = 500, er_code = ''INTERNAL_ERROR'', er_message = ''Internal server error''\<rparr>}"
    by (cases e rule: application_status.cases) (simp_all add: handleError_def)
  then show ?thesis by (simp add: handleError_def requestValidationErrorCodes_def)
qed

lemma error_status: "400 \<le> er_status (handleError e validation)"
  by (cases e rule: application_status.cases) (simp_all add: handleError_def)

text \<open>The reply to a settled call, and what is recorded of it.\<close>

lemma settle_request_observed:
  assumes "metrics_ok (tl_metrics t)" and "\<bar>ck_wall ck\<bar> \<le> MAX_TIME"
    and op: "rs_operation st = Some op" "ot_terminal op = None" and fresh: "rs_error st = None"
    and run: "settle_request str ck r (Some st) t = (reply, st', t')"
  shows "reply = (case r of Inr ord \<Rightarrow> OrderCreatedReply ord | Inl e \<Rightarrow> ErrorReply (handleError e False))
    \<and> (\<exists>x. tl_written t' = tl_written t @ [x]
         \<and> (lr_level x, lr_status x) = (if isl r then (''error'', ''FAILED'') else (''info'', ''CREATED'')))
    \<and> (\<forall>n. mt_counters (tl_metrics t) ''orders_failed_total'' = Some n \<longrightarrow>
         mt_counters (tl_metrics t') ''orders_failed_total'' = Some (n + (if isl r then 1 else 0)))"
proof (cases r)
  case (Inr ord)
  then have "reply = OrderCreatedReply ord"
    "onResponse str ck 201 (Some (st\<lparr>rs_orderId := JStr (ord_id ord)\<rparr>), t) = (st', t')"
    using run by (auto simp: settle_request_def reply_status_def)
  with onResponse_finishes [OF assms(1) _ op(2) assms(2) _ this(2)] show ?thesis
    using op(1) fresh Inr by auto
next
  case (Inl e)
  obtain st2 where st2: "onError e (Some st) = Some st2" "rs_operation st2 = Some op"
    "rs_error st2 \<noteq> Some (Thrown JUndefined)"
    using op(1) fresh by (auto simp: onError_def)
  then have "reply = ErrorReply (handleError e False)"
    "onResponse str ck (er_status (handleError e False)) (Some st2, t) = (st', t')"
    using run Inl by (auto simp: settle_request_def reply_status_def)
  with onResponse_finishes [OF assms(1) st2(2) op(2) assms(2) st2(3) this(2)] show ?thesis
    using error_status [of e False] Inl by auto
qed

text \<open>
  C37. One request, one record.  A request that passed its schema on an observed server calls the
  service once, with the idempotency key of the header whatever the body holds.  When that
  call settles, whatever it did to the shared telemetry, the reply is the order or the
  error's reply and exactly one terminal record is written: an error record, counted once in
  \<open>orders_failed_total\<close>, for an error, and a \<open>CREATED\<close> record with no failure counted for a 201.
\<close>

theorem request_observed_once:
  assumes "\<bar>ck_wall ck1\<bar> \<le> MAX_TIME"
    and "serve_order str True ck0 ck1 None service req s t = ((s', t'), Some (reply, st'))"
  shows "\<exists>input t1 r. get_prop input ''idempotencyKey'' = hr_idempotencyKey req
    \<and> service input (s, t) = ((s', t1), Some r)
    \<and> (metrics_ok (tl_metrics t1) \<longrightarrow>
         reply = (case r of Inr ord \<Rightarrow> OrderCreatedReply ord | Inl e \<Rightarrow> ErrorReply (handleError e False))
       \<and> (\<exists>x. tl_written t' = tl_written t1 @ [x]
            \<and> (lr_level x, lr_status x) = (if isl r then (''error'', ''FAILED'') else (''info'', ''CREATED'')))
       \<and> (\<forall>n. mt_counters (tl_metrics t1) ''orders_failed_total'' = Some n \<longrightarrow>
            mt_counters (tl_metrics t') ''orders_failed_total'' = Some (n + (if isl r then 1 else 0))))"
proof -
  let ?st0 = "\<lparr>rs_requestContext = createRequestContext (hr_id req) (hr_correlationId req), rs_operation = None,
                 rs_error = None, rs_orderId = JUndefined\<rparr>"
  let ?op = "startOperation ck0 ''order.create'' (rs_requestContext ?st0)"
  let ?st1 = "?st0\<lparr>rs_operation := Some ?op\<rparr>"
  let ?input = "order_input (hr_body req) (hr_idempotencyKey req) (Some ?st1)"
  have key: "get_prop ?input ''idempotencyKey'' = hr_idempotencyKey req"
    by (simp add: order_input_def Let_def)
  obtain t1 r where r: "service ?input (s, t) = ((s', t1), Some r)"
    and run: "settle_request str ck1 r (Some ?st1) t1 = (reply, st', t')"
    using assms(2)
    by (auto simp: serve_order_def onRequest_def preHandler_def Let_def split: prod.splits option.splits)
  show ?thesis
    using settle_request_observed [OF _ assms(1) _ _ _ run, of ?op] key r
    by (intro exI [of _ ?input] exI [of _ t1] exI [of _ r]) (simp add: startOperation_def)
qed

definition sample_http :: http_request where
  "sample_http = \<lparr>hr_id = JStr ''r1'', hr_correlationId = JUndefined, hr_idempotencyKey = JStr ''k'',
     hr_body = JObj [(''idempotencyKey'', JStr ''forged'')]\<rparr>"

definition sample_clocks :: clocks where
  "sample_clocks = \<lparr>ck_monotonic = 1, ck_wall = 0\<rparr>"

definition sample_telemetry :: telemetry where
  "sample_telemetry = \<lparr>tl_metrics = createMetricsRegistry, tl_written = []\<rparr>"

theorem request_observed_once_witness:
  "\<exists>t' reply st'. serve_order js_str True sample_clocks sample_clocks None
      (\<lambda>input (n, t). ((n + 1, t), Some (Inl ProductNotFoundError))) sample_http (0 :: nat) sample_telemetry
        = ((1, t'), Some (reply, st'))
    \<and> mt_counters (tl_metrics t') ''orders_failed_total'' = Some 1
    \<and> reply = ErrorReply (handleError ProductNotFoundError False)"
proof -
  let ?service = "\<lambda>input (n :: nat, t). ((n + 1, t), Some (Inl ProductNotFoundError))"
  obtain t' reply st' where run: "serve_order js_str True sample_clocks sample_clocks None ?service
      sample_http 0 sample_telemetry = ((1, t'), Some (reply, st'))"
    by (cases "settle_request js_str sample_clocks (Inl ProductNotFoundError) (preHandler sample_clocks
          (onRequest True (hr_id sample_http) (hr_correlationId sample_http))) sample_telemetry")
      (auto simp: serve_order_def Let_def)
  have t: "metrics_ok (tl_metrics sample_telemetry)" "\<bar>ck_wall sample_clocks\<bar> \<le> MAX_TIME"
    "mt_counters (tl_metrics sample_telemetry) ''orders_failed_total'' = Some 0"
    by (simp_all add: sample_telemetry_def metrics_ok_initial sample_clocks_def MAX_TIME_def)
      (simp add: createMetricsRegistry_def counterNames_def)
  from request_observed_once [OF t(2) run] t(1,3) run show ?thesis by auto
qed

end
