(* ===== verification/Redis_Lock.thy ===== *)
theory Redis_Lock
  imports Database
begin

text \<open>
  The token lock of \<open>packages/locks/src/index.js\<close> and the claims of
  \<open>apps/worker/src/redis-processed-message-store.js\<close>.  The Redis client is a pair of
  functions on a server state; the locale \<open>lease_server\<close> states what the lock relies on.
  It is interpreted on a server with keys that expire, on which the release script is
  executed as written, and on the client of the distributed-lock experiment.
\<close>

section \<open>The lock\<close>

record 's lock_client =
  lc_set :: "string \<Rightarrow> string \<Rightarrow> int \<Rightarrow> ('s, string option) action"
  lc_eval :: "string \<Rightarrow> string \<Rightarrow> ('s, int) action"

record lease =
  ls_resource :: string
  ls_token :: string
  ls_ttlMs :: int

definition MAX_SAFE_INTEGER :: int where
  "MAX_SAFE_INTEGER = 9007199254740991"

definition valid_ttl :: "jsval \<Rightarrow> bool" where
  "valid_ttl ttlMs = (is_positive_integer ttlMs \<and> int_of_js ttlMs \<le> MAX_SAFE_INTEGER)"

definition lock_key :: "string \<Rightarrow> string \<Rightarrow> string" where
  "lock_key keyPrefix resource = keyPrefix @ resource"

text \<open>\<open>token\<close> is what \<open>tokenFactory\<close> returns in the call.\<close>

definition acquire ::
  "'s lock_client \<Rightarrow> string \<Rightarrow> string \<Rightarrow> string \<Rightarrow> jsval \<Rightarrow> ('s, lease option) action" where
  "acquire client keyPrefix token resource ttlMs s =
     (if \<not> valid_ttl ttlMs then (s, Inl InvalidLockTtlError)
      else (case lc_set client (lock_key keyPrefix resource) token (int_of_js ttlMs) s of
          (s', Inl cause) \<Rightarrow> (s', Inl (RedisLockUnavailableError ACQUIRE cause))
        | (s', Inr acquired) \<Rightarrow>
            (s', Inr (if acquired = Some ''OK''
               then Some \<lparr>ls_resource = resource, ls_token = token, ls_ttlMs = int_of_js ttlMs\<rparr>
               else None))))"

definition release :: "'s lock_client \<Rightarrow> string \<Rightarrow> lease \<Rightarrow> ('s, bool) action" where
  "release client keyPrefix l s =
     (case lc_eval client (lock_key keyPrefix (ls_resource l)) (ls_token l) s of
        (s', Inl cause) \<Rightarrow> (s', Inl (RedisLockUnavailableError RELEASE cause))
      | (s', Inr released) \<Rightarrow> (s', Inr (released = 1)))"

section \<open>What the lock relies on\<close>

text \<open>
  \<open>holder s k\<close>: the token that key \<open>k\<close> holds.  A call that throws may have taken
  effect before its reply was lost.
\<close>

locale lease_server =
  fixes client :: "'s lock_client" and holder :: "'s \<Rightarrow> string \<rightharpoonup> string"
  assumes set_ok: "lc_set client k t ttl s = (s', Inr (Some ''OK'')) \<Longrightarrow> 0 < ttl \<Longrightarrow>
      holder s k = None \<and> holder s' = (holder s)(k \<mapsto> t)"
    and set_refused: "lc_set client k t ttl s = (s', Inr r) \<Longrightarrow> r \<noteq> Some ''OK'' \<Longrightarrow> holder s' = holder s"
    and set_lost: "lc_set client k t ttl s = (s', Inl e) \<Longrightarrow> 0 < ttl \<Longrightarrow>
      holder s' = holder s \<or> holder s k = None \<and> holder s' = (holder s)(k \<mapsto> t)"
    and eval_released: "lc_eval client k t s = (s', Inr 1) \<Longrightarrow>
      holder s k = Some t \<and> holder s' = (holder s)(k := None)"
    and eval_refused: "lc_eval client k t s = (s', Inr n) \<Longrightarrow> n \<noteq> 1 \<Longrightarrow>
      holder s k \<noteq> Some t \<and> holder s' = holder s"
    and eval_lost: "lc_eval client k t s = (s', Inl e) \<Longrightarrow>
      holder s' = holder s \<or> holder s k = Some t \<and> holder s' = (holder s)(k := None)"
begin

lemma valid_ttl_positive: "valid_ttl v \<Longrightarrow> 0 < int_of_js v"
  by (auto simp: valid_ttl_def elim: is_positive_integerE)

text \<open>Acquiring never takes a key from another holder; it is granted only on a free key.\<close>

lemma acquire_effect:
  assumes "acquire client p t res ttl s = (s', r)"
  shows "(\<exists>l. r = Inr (Some l) \<and> ls_resource l = res \<and> ls_token l = t
        \<and> holder s (lock_key p res) = None \<and> holder s' = (holder s)(lock_key p res \<mapsto> t))
    \<or> (\<forall>l. r \<noteq> Inr (Some l)) \<and> (holder s' = holder s
        \<or> (\<exists>e. r = Inl e) \<and> holder s (lock_key p res) = None \<and> holder s' = (holder s)(lock_key p res \<mapsto> t))"
proof (cases "valid_ttl ttl")
  case False
  then show ?thesis using assms by (auto simp: acquire_def)
next
  case True
  note pos = valid_ttl_positive [OF True]
  obtain s1 x where x: "lc_set client (lock_key p res) t (int_of_js ttl) s = (s1, x)" by force
  show ?thesis
  proof (cases x)
    case (Inl e)
    then show ?thesis using assms True x set_lost [OF x [unfolded Inl] pos] by (auto simp: acquire_def)
  next
    case (Inr a)
    show ?thesis
    proof (cases "a = Some ''OK''")
      case ok: True
      show ?thesis using assms True x Inr ok set_ok [OF x [unfolded Inr ok] pos] by (auto simp: acquire_def)
    next
      case False
      then show ?thesis using assms True x Inr set_refused [OF x [unfolded Inr] False] by (auto simp: acquire_def)
    qed
  qed
qed

text \<open>Releasing removes the key only when it holds the lease's own token.\<close>

lemma release_effect:
  assumes "release client p l s = (s', r)"
  shows "case r of
      Inr b \<Rightarrow> b = (holder s (lock_key p (ls_resource l)) = Some (ls_token l))
        \<and> holder s' = (if b then (holder s)(lock_key p (ls_resource l) := None) else holder s)
    | Inl e \<Rightarrow> holder s' = holder s \<or> holder s (lock_key p (ls_resource l)) = Some (ls_token l)
        \<and> holder s' = (holder s)(lock_key p (ls_resource l) := None)"
proof -
  obtain s1 x where x: "lc_eval client (lock_key p (ls_resource l)) (ls_token l) s = (s1, x)" by force
  show ?thesis
  proof (cases x)
    case (Inl e)
    then show ?thesis using assms x eval_lost by (auto simp: release_def)
  next
    case (Inr n)
    then show ?thesis
      using assms x eval_released eval_refused by (cases "n = 1") (auto simp: release_def)
  qed
qed

end

section \<open>A server with expiring keys\<close>

record redis =
  rd_entries :: "string \<rightharpoonup> string \<times> int"
  rd_now :: int

definition redis_get :: "string \<Rightarrow> redis \<Rightarrow> string option" where
  "redis_get k s = (case rd_entries s k of
      Some (v, expiry) \<Rightarrow> if rd_now s < expiry then Some v else None
    | None \<Rightarrow> None)"

definition redis_set_nx :: "string \<Rightarrow> string \<Rightarrow> int \<Rightarrow> (redis, string option) action" where
  "redis_set_nx k v ttl s = (case redis_get k s of
      Some _ \<Rightarrow> (s, Inr None)
    | None \<Rightarrow> (s\<lparr>rd_entries := (rd_entries s)(k \<mapsto> (v, rd_now s + ttl))\<rparr>, Inr (Some ''OK'')))"

definition redis_del :: "string \<Rightarrow> redis \<Rightarrow> redis \<times> int" where
  "redis_del k s = (s\<lparr>rd_entries := (rd_entries s)(k := None)\<rparr>, if redis_get k s = None then 0 else 1)"

text \<open>\<open>if GET(KEYS[1]) == ARGV[1] then return DEL(KEYS[1]) end return 0\<close>\<close>

definition releaseScript :: "string \<Rightarrow> string \<Rightarrow> (redis, int) action" where
  "releaseScript k token s =
     (if redis_get k s = Some token
      then (case redis_del k s of (s', n) \<Rightarrow> (s', Inr n)) else (s, Inr 0))"

text \<open>A call may fail, before or after it took effect: \<open>fault\<close> decides in which state.\<close>

type_synonym redis_fault = "redis \<Rightarrow> (exn \<times> bool) option"

definition lossy :: "redis_fault \<Rightarrow> (redis, 'a) action \<Rightarrow> (redis, 'a) action" where
  "lossy fault m s = (case fault s of
      None \<Rightarrow> m s
    | Some (e, took_effect) \<Rightarrow> (if took_effect then fst (m s) else s, Inl e))"

definition redis_client :: "redis_fault \<Rightarrow> redis lock_client" where
  "redis_client fault = \<lparr>lc_set = (\<lambda>k t ttl. lossy fault (redis_set_nx k t ttl)),
     lc_eval = (\<lambda>k t. lossy fault (releaseScript k t))\<rparr>"

definition reliable :: redis_fault where
  "reliable s = None"

definition redis_holder :: "redis \<Rightarrow> string \<rightharpoonup> string" where
  "redis_holder s k = redis_get k s"

lemma redis_set_holder:
  "0 < ttl \<Longrightarrow> redis_set_nx k t ttl s = (s', r) \<Longrightarrow>
     (case redis_holder s k of
        None \<Rightarrow> r = Inr (Some ''OK'') \<and> redis_holder s' = (redis_holder s)(k \<mapsto> t)
      | Some _ \<Rightarrow> r = Inr None \<and> s' = s)"
  by (auto simp: redis_set_nx_def redis_holder_def redis_get_def fun_eq_iff split: option.splits if_splits)

lemma releaseScript_holder:
  "releaseScript k t s = (s', r) \<Longrightarrow>
     (if redis_holder s k = Some t then r = Inr 1 \<and> redis_holder s' = (redis_holder s)(k := None)
      else r = Inr 0 \<and> s' = s)"
  by (auto simp: releaseScript_def redis_del_def redis_holder_def redis_get_def fun_eq_iff
      split: option.splits if_splits)

lemma lossy_cases:
  assumes "lossy fault m s = (s', r)"
  obtains (replied) "m s = (s', r)" | (lost) e where "r = Inl e" "s' = s \<or> s' = fst (m s)"
  using assms by (auto simp: lossy_def split: option.splits if_splits)

interpretation redis_lock: lease_server "redis_client fault" redis_holder for fault
proof unfold_locales
  fix k t :: string and ttl :: int and s s' :: redis and r
  assume "lc_set (redis_client fault) k t ttl s = (s', Inr r)" "r \<noteq> Some ''OK''"
  then show "redis_holder s' = redis_holder s"
    by (auto simp: redis_client_def redis_set_nx_def elim!: lossy_cases split: option.splits)
next
  fix k t :: string and ttl :: int and s s' :: redis
  assume "lc_set (redis_client fault) k t ttl s = (s', Inr (Some ''OK''))" "0 < ttl"
  then show "redis_holder s k = None \<and> redis_holder s' = (redis_holder s)(k \<mapsto> t)"
    using redis_set_holder [of ttl k t s s']
    by (auto simp: redis_client_def elim!: lossy_cases split: option.splits)
next
  fix k t :: string and ttl :: int and s s' :: redis and e
  assume run: "lc_set (redis_client fault) k t ttl s = (s', Inl e)" and ttl: "0 < ttl"
  from run have "lossy fault (redis_set_nx k t ttl) s = (s', Inl e)" by (simp add: redis_client_def)
  then have "s' = s \<or> s' = fst (redis_set_nx k t ttl s)"
    by (cases rule: lossy_cases) (use redis_set_holder [OF ttl, of k t s s'] in \<open>auto split: option.splits\<close>)
  then show "redis_holder s' = redis_holder s \<or> redis_holder s k = None \<and> redis_holder s' = (redis_holder s)(k \<mapsto> t)"
    using redis_set_holder [OF ttl, of k t s "fst (redis_set_nx k t ttl s)" "snd (redis_set_nx k t ttl s)"]
    by (auto split: option.splits)
next
  fix k t :: string and s s' :: redis
  assume "lc_eval (redis_client fault) k t s = (s', Inr 1)"
  then show "redis_holder s k = Some t \<and> redis_holder s' = (redis_holder s)(k := None)"
    using releaseScript_holder [of k t s s']
    by (auto simp: redis_client_def elim!: lossy_cases split: if_splits)
next
  fix k t :: string and s s' :: redis and n :: int
  assume "lc_eval (redis_client fault) k t s = (s', Inr n)" "n \<noteq> 1"
  then show "redis_holder s k \<noteq> Some t \<and> redis_holder s' = redis_holder s"
    using releaseScript_holder [of k t s s']
    by (auto simp: redis_client_def elim!: lossy_cases split: if_splits)
next
  fix k t :: string and s s' :: redis and e
  assume "lc_eval (redis_client fault) k t s = (s', Inl e)"
  then have "lossy fault (releaseScript k t) s = (s', Inl e)" by (simp add: redis_client_def)
  then have "s' = s \<or> s' = fst (releaseScript k t s)"
    by (cases rule: lossy_cases) (use releaseScript_holder [of k t s s'] in \<open>auto split: if_splits\<close>)
  then show "redis_holder s' = redis_holder s \<or> redis_holder s k = Some t \<and> redis_holder s' = (redis_holder s)(k := None)"
    using releaseScript_holder [of k t s "fst (releaseScript k t s)" "snd (releaseScript k t s)"]
    by (auto split: if_splits)
qed

section \<open>The client of the distributed-lock experiment\<close>

text \<open>\<open>storedLease\<close> of \<open>runDistributedLock\<close> in \<open>concurrency-experiments.js\<close>: one lease for all keys.\<close>

type_synonym stored_lease = "(string \<times> string) option"

definition experiment_client :: "stored_lease lock_client" where
  "experiment_client = \<lparr>
     lc_set = (\<lambda>key token ttl storedLease. case storedLease of
        Some _ \<Rightarrow> (storedLease, Inr None)
      | None \<Rightarrow> (Some (key, token), Inr (Some ''OK''))),
     lc_eval = (\<lambda>key token storedLease.
        if storedLease \<noteq> Some (key, token) then (storedLease, Inr 0) else (None, Inr 1))\<rparr>"

definition experiment_holder :: "stored_lease \<Rightarrow> string \<rightharpoonup> string" where
  "experiment_holder storedLease k = (case storedLease of
      Some (key, token) \<Rightarrow> if key = k then Some token else None
    | None \<Rightarrow> None)"

interpretation experiment_lock: lease_server experiment_client experiment_holder
  by unfold_locales
    (auto simp: experiment_client_def experiment_holder_def fun_eq_iff split: option.splits if_splits)

section \<open>A lease over time\<close>

datatype lock_event = TryAcquire string string jsval | TryRelease lease | Elapse nat

fun lock_step :: "string \<Rightarrow> redis_fault \<times> lock_event \<Rightarrow> redis \<Rightarrow> redis" where
  "lock_step p (fault, TryAcquire t res ttl) s = fst (acquire (redis_client fault) p t res ttl s)"
| "lock_step p (fault, TryRelease l) s = fst (release (redis_client fault) p l s)"
| "lock_step p (fault, Elapse ms) s = s\<lparr>rd_now := rd_now s + int ms\<rparr>"

definition lock_run :: "string \<Rightarrow> (redis_fault \<times> lock_event) list \<Rightarrow> redis \<Rightarrow> redis" where
  "lock_run p evs s = fold (lock_step p) evs s"

definition elapsed :: "redis_fault \<times> lock_event \<Rightarrow> int" where
  "elapsed ev = (case snd ev of Elapse ms \<Rightarrow> int ms | _ \<Rightarrow> 0)"

text \<open>The lease's own release of the key.\<close>

definition releases_own :: "string \<Rightarrow> string \<Rightarrow> redis_fault \<times> lock_event \<Rightarrow> bool" where
  "releases_own res t ev = (case snd ev of
      TryRelease l \<Rightarrow> ls_resource l = res \<and> ls_token l = t
    | _ \<Rightarrow> False)"

lemma redis_set_entries:
  "redis_set_nx k' t' ttl s = (s', r) \<Longrightarrow> rd_entries s k = Some (t, expiry) \<Longrightarrow> rd_now s < expiry \<Longrightarrow>
     rd_entries s' k = Some (t, expiry) \<and> rd_now s' = rd_now s"
  by (auto simp: redis_set_nx_def redis_get_def split: option.splits if_splits)

lemma releaseScript_entries:
  "releaseScript k' t' s = (s', r) \<Longrightarrow> rd_entries s k = Some (t, expiry) \<Longrightarrow> rd_now s < expiry \<Longrightarrow>
     (k', t') \<noteq> (k, t) \<Longrightarrow> rd_entries s' k = Some (t, expiry) \<and> rd_now s' = rd_now s"
  by (auto simp: releaseScript_def redis_del_def redis_get_def split: option.splits if_splits)

lemma lossy_entries:
  assumes "lossy fault m s = (s', r)" and "P s" and "\<And>s1 r1. m s = (s1, r1) \<Longrightarrow> P s1"
  shows "P s'"
  using assms(1)
proof (cases rule: lossy_cases)
  case replied
  then show ?thesis using assms(3) by blast
next
  case (lost e)
  then show ?thesis using assms(2,3) by (metis prod.collapse)
qed

lemma lock_step_keeps:
  assumes entry: "rd_entries s (lock_key p res) = Some (t, expiry)" "rd_now s < expiry"
    and own: "\<not> releases_own res t ev"
  shows "rd_entries (lock_step p ev s) (lock_key p res) = Some (t, expiry)
    \<and> rd_now (lock_step p ev s) = rd_now s + elapsed ev"
proof -
  obtain fault e where ev: "ev = (fault, e)" by force
  let ?P = "\<lambda>s'. rd_entries s' (lock_key p res) = Some (t, expiry) \<and> rd_now s' = rd_now s"
  show ?thesis
  proof (cases e)
    case (TryAcquire t' res' ttl)
    obtain s1 r where run: "lossy fault (redis_set_nx (lock_key p res') t' (int_of_js ttl)) s = (s1, r)" by force
    have "?P s1"
    proof (rule lossy_entries [OF run, where P = ?P])
      show "?P s" using entry(1) by simp
      show "?P s2" if "redis_set_nx (lock_key p res') t' (int_of_js ttl) s = (s2, r2)" for s2 r2
        by (rule redis_set_entries [OF that entry])
    qed
    then show ?thesis
      using run entry ev TryAcquire
      by (auto simp: acquire_def redis_client_def elapsed_def split: sum.splits)
  next
    case (TryRelease l)
    obtain s1 r where run: "lossy fault (releaseScript (lock_key p (ls_resource l)) (ls_token l)) s = (s1, r)" by force
    have "(lock_key p (ls_resource l), ls_token l) \<noteq> (lock_key p res, t)"
      using own ev TryRelease by (auto simp: releases_own_def lock_key_def)
    note other = this
    have "?P s1"
    proof (rule lossy_entries [OF run, where P = ?P])
      show "?P s" using entry(1) by simp
      show "?P s2" if "releaseScript (lock_key p (ls_resource l)) (ls_token l) s = (s2, r2)" for s2 r2
        by (rule releaseScript_entries [OF that entry other])
    qed
    then show ?thesis
      using run ev TryRelease by (auto simp: release_def redis_client_def elapsed_def split: sum.splits)
  next
    case (Elapse ms)
    then show ?thesis using entry ev by (simp add: elapsed_def)
  qed
qed

lemma elapsed_nonneg: "0 \<le> elapsed ev"
  by (simp add: elapsed_def split: lock_event.split)

lemma lock_run_keeps:
  assumes "rd_entries s (lock_key p res) = Some (t, expiry)"
    and "rd_now s + sum_list (map elapsed evs) < expiry" and "\<forall>ev\<in>set evs. \<not> releases_own res t ev"
  shows "redis_holder (lock_run p evs s) (lock_key p res) = Some t"
  using assms
proof (induction evs arbitrary: s)
  case Nil
  then show ?case by (simp add: lock_run_def redis_holder_def redis_get_def)
next
  case (Cons ev evs)
  have nonneg: "0 \<le> sum_list (map elapsed evs)" by (rule sum_list_nonneg) (auto simp: elapsed_nonneg)
  then have "rd_now s < expiry" using Cons.prems(2) elapsed_nonneg [of ev] by simp
  with Cons.prems have "rd_entries (lock_step p ev s) (lock_key p res) = Some (t, expiry)
      \<and> rd_now (lock_step p ev s) = rd_now s + elapsed ev"
    by (intro lock_step_keeps) simp_all
  then show ?case using Cons.IH [of "lock_step p ev s"] Cons.prems by (simp add: lock_run_def)
qed

lemma acquire_entry:
  assumes "acquire (redis_client fault) p t res ttl s = (s', Inr (Some l))"
  shows "rd_entries s' (lock_key p res) = Some (t, rd_now s' + ls_ttlMs l)" and "ls_token l = t"
    and "ls_ttlMs l = int_of_js ttl"
  using assms
  by (auto simp: acquire_def redis_client_def redis_set_nx_def elim!: lossy_cases
      split: if_splits sum.splits option.splits prod.splits)

section \<open>Claims of processed messages\<close>

definition upper_hex :: "nat \<Rightarrow> char" where
  "upper_hex d = char_of (if d < 10 then 48 + d else 55 + d)"

definition percent_byte :: "nat \<Rightarrow> string" where
  "percent_byte b = [CHR ''%'', upper_hex (b div 16), upper_hex (b mod 16)]"

definition unreserved :: "char \<Rightarrow> bool" where
  "unreserved c = (let n = (of_char c :: nat) in
     48 \<le> n \<and> n \<le> 57 \<or> 65 \<le> n \<and> n \<le> 90 \<or> 97 \<le> n \<and> n \<le> 122
     \<or> c \<in> set ''-_.!~*'' \<or> c = CHR 0x27 \<or> c = CHR ''('' \<or> c = CHR '')'')"

text \<open>\<open>encodeURIComponent\<close> of a text: the UTF-8 bytes of every other character, escaped.\<close>

definition encode_char :: "char \<Rightarrow> string" where
  "encode_char c = (let n = of_char c in
     if unreserved c then [c]
     else if n < 128 then percent_byte n
     else percent_byte (192 + n div 64) @ percent_byte (128 + n mod 64))"

definition encodeKeyPart :: "string \<Rightarrow> string" where
  "encodeKeyPart s = concat (map encode_char s)"

definition claim_key :: "string \<Rightarrow> string \<Rightarrow> string \<Rightarrow> string" where
  "claim_key keyPrefix consumer messageId =
     keyPrefix @ encodeKeyPart consumer @ '':'' @ encodeKeyPart messageId"

text \<open>The expiry is given in seconds (\<open>EX\<close>).\<close>

definition tryClaim ::
  "'s lock_client \<Rightarrow> string \<Rightarrow> string \<Rightarrow> string \<Rightarrow> int \<Rightarrow> ('s, bool) action" where
  "tryClaim client keyPrefix consumer messageId ttlSeconds s =
     (case lc_set client (claim_key keyPrefix consumer messageId) ''1'' (1000 * ttlSeconds) s of
        (s', Inl e) \<Rightarrow> (s', Inl e)
      | (s', Inr r) \<Rightarrow> (s', Inr (r = Some ''OK'')))"

text \<open>Reading an encoded text back.\<close>

definition hex_upper_value :: "char \<Rightarrow> nat" where
  "hex_upper_value c = (let n = of_char c in if n < 58 then n - 48 else n - 55)"

definition byte_at :: "nat \<Rightarrow> string \<Rightarrow> nat" where
  "byte_at i s = 16 * hex_upper_value (s ! (i + 1)) + hex_upper_value (s ! (i + 2))"

definition decode_first :: "string \<Rightarrow> char \<times> string" where
  "decode_first s =
     (if hd s \<noteq> CHR ''%'' then (hd s, tl s)
      else if byte_at 0 s < 128 then (char_of (byte_at 0 s), drop 3 s)
      else (char_of ((byte_at 0 s - 192) * 64 + (byte_at 3 s - 128)), drop 6 s))"

lemma hex_upper_value_inverse: "d < 16 \<Longrightarrow> hex_upper_value (upper_hex d) = d"
  by (auto simp: hex_upper_value_def upper_hex_def Let_def)

lemma byte_at_percent:
  "b < 256 \<Longrightarrow> byte_at 0 (percent_byte b @ r) = b" "b < 256 \<Longrightarrow> byte_at 3 (percent_byte a @ percent_byte b @ r) = b"
  by (simp_all add: byte_at_def percent_byte_def hex_upper_value_inverse less_mult_imp_div_less)

lemma unreserved_not_percent: "unreserved c \<Longrightarrow> c \<noteq> CHR ''%''"
  by (auto simp: unreserved_def)

lemma latin_bytes: "192 + (of_char c :: nat) div 64 < 256" "128 + (of_char c :: nat) mod 64 < 256"
proof -
  have "(of_char c :: nat) < 256" by (rule nat_of_char_less_256)
  then show "192 + (of_char c :: nat) div 64 < 256" by linarith
  have "(of_char c :: nat) mod 64 < 64" by simp
  then show "128 + (of_char c :: nat) mod 64 < 256" by linarith
qed

lemma decode_encode_char: "decode_first (encode_char c @ r) = (c, r)"
proof -
  let ?n = "of_char c :: nat"
  have n: "?n < 256" by (rule nat_of_char_less_256)
  consider (plain) "unreserved c" | (ascii) "\<not> unreserved c" "?n < 128" | (latin) "\<not> unreserved c" "128 \<le> ?n"
    by linarith
  then show ?thesis
  proof cases
    case plain
    then show ?thesis using unreserved_not_percent by (simp add: encode_char_def Let_def decode_first_def)
  next
    case ascii
    then show ?thesis
      using byte_at_percent(1) [of ?n r] n
      by (simp add: encode_char_def Let_def decode_first_def) (simp add: percent_byte_def)
  next
    case latin
    have b: "192 + ?n div 64 < 256" "128 + ?n mod 64 < 256" "\<not> 192 + ?n div 64 < 128"
      by (rule latin_bytes)+ simp
    have e: "encode_char c @ r = percent_byte (192 + ?n div 64) @ percent_byte (128 + ?n mod 64) @ r"
      using latin by (simp add: encode_char_def Let_def)
    have d: "drop 6 (percent_byte (192 + ?n div 64) @ percent_byte (128 + ?n mod 64) @ r) = r"
      "hd (percent_byte (192 + ?n div 64) @ percent_byte (128 + ?n mod 64) @ r) = CHR ''%''"
      by (simp_all add: percent_byte_def)
    have "(192 + ?n div 64 - 192) * 64 + (128 + ?n mod 64 - 128) = ?n" by simp
    then show ?thesis
      unfolding e decode_first_def d byte_at_percent(1) [OF b(1)] byte_at_percent(2) [OF b(2)]
      using b(3) by (simp del: add_diff_cancel_left')
  qed
qed

lemma encode_char_nonempty: "encode_char c \<noteq> []"
  by (simp add: encode_char_def Let_def percent_byte_def)

lemma encodeKeyPart_inject: "encodeKeyPart s = encodeKeyPart s' \<longleftrightarrow> s = s'"
proof
  assume "encodeKeyPart s = encodeKeyPart s'"
  then show "s = s'"
  proof (induction s arbitrary: s')
    case Nil
    then show ?case using encode_char_nonempty by (cases s') (auto simp: encodeKeyPart_def)
  next
    case (Cons c s)
    then obtain c' t where s': "s' = c' # t"
      using encode_char_nonempty by (cases s') (auto simp: encodeKeyPart_def)
    have "decode_first (encode_char c @ encodeKeyPart s) = decode_first (encode_char c' @ encodeKeyPart t)"
      using Cons.prems by (simp add: s' encodeKeyPart_def)
    then show ?case using Cons.IH by (simp add: s' decode_encode_char)
  qed
qed simp

lemma upper_hex_not_colon: "d < 16 \<Longrightarrow> upper_hex d \<noteq> CHR '':''"
proof -
  assume d: "d < 16"
  have "(of_char (upper_hex d) :: nat) = (if d < 10 then 48 + d else 55 + d)"
    using d by (simp add: upper_hex_def)
  then show ?thesis using d by (auto split: if_splits)
qed

lemma percent_byte_no_colon: "b < 256 \<Longrightarrow> CHR '':'' \<notin> set (percent_byte b)"
  using upper_hex_not_colon [of "b div 16"] upper_hex_not_colon [of "b mod 16"]
  by (auto simp: percent_byte_def less_mult_imp_div_less)

lemma encode_char_no_colon: "CHR '':'' \<notin> set (encode_char c)"
proof -
  have n: "(of_char c :: nat) < 256" by (rule nat_of_char_less_256)
  show ?thesis
    using percent_byte_no_colon [OF n] percent_byte_no_colon [OF latin_bytes(1) [of c]]
      percent_byte_no_colon [OF latin_bytes(2) [of c]]
    by (auto simp: encode_char_def Let_def unreserved_def)
qed

lemma claim_key_inject: "claim_key p c m = claim_key p c' m' \<longleftrightarrow> c = c' \<and> m = m'"
proof
  have nc: "CHR '':'' \<notin> set (encodeKeyPart x)" for x
    using encode_char_no_colon by (simp add: encodeKeyPart_def)
  assume "claim_key p c m = claim_key p c' m'"
  then have "encodeKeyPart c @ CHR '':'' # encodeKeyPart m = encodeKeyPart c' @ CHR '':'' # encodeKeyPart m'"
    by (simp add: claim_key_def)
  then have "encodeKeyPart c = encodeKeyPart c' \<and> encodeKeyPart m = encodeKeyPart m'"
    by (rule append_sep_inject_left) (rule nc)+
  then show "c = c' \<and> m = m'" by (simp add: encodeKeyPart_inject)
qed simp

section \<open>What the lock guarantees\<close>

text \<open>
  C13. While a granted lease has not run out and is not released by its own token, whatever
  other clients do and whichever of their calls fail, its key holds its token and nobody
  else is granted the resource.
\<close>

theorem lock_mutual_exclusion:
  assumes granted: "acquire (redis_client fault) p t res ttl s = (s', Inr (Some l))"
    and unexpired: "sum_list (map elapsed evs) < ls_ttlMs l"
    and kept: "\<forall>ev\<in>set evs. \<not> releases_own res t ev"
  shows "redis_holder (lock_run p evs s') (lock_key p res) = Some t
    \<and> snd (acquire (redis_client fault') p t' res ttl' (lock_run p evs s')) \<noteq> Inr (Some l')"
proof -
  have held: "redis_holder (lock_run p evs s') (lock_key p res) = Some t"
    using acquire_entry(1) [OF granted] by (rule lock_run_keeps) (use unexpired kept in auto)
  obtain s2 r where a: "acquire (redis_client fault') p t' res ttl' (lock_run p evs s') = (s2, r)" by force
  from redis_lock.acquire_effect [OF a] held have "r \<noteq> Inr (Some l')" by auto
  with held a show ?thesis by simp
qed

definition empty_redis :: redis where
  "empty_redis = \<lparr>rd_entries = Map.empty, rd_now = 0\<rparr>"

text \<open>A second client that is refused, a foreign release and a reply lost on the way.\<close>

definition contending_events :: "(redis_fault \<times> lock_event) list" where
  "contending_events =
     [(reliable, TryAcquire ''t2'' ''sku'' (JInt 900)), (reliable, Elapse 400),
      (\<lambda>s. Some (plain_error ''connection lost'', True), TryRelease \<lparr>ls_resource = ''sku'', ls_token = ''t2'', ls_ttlMs = 900\<rparr>),
      (reliable, Elapse 99)]"

theorem lock_mutual_exclusion_witness:
  "redis_holder (lock_run ''k:'' contending_events
       (fst (acquire (redis_client reliable) ''k:'' ''t1'' ''sku'' (JInt 500) empty_redis))) (lock_key ''k:'' ''sku'') = Some ''t1''
   \<and> snd (acquire (redis_client reliable) ''k:'' ''t3'' ''sku'' (JInt 100) (lock_run ''k:'' contending_events
       (fst (acquire (redis_client reliable) ''k:'' ''t1'' ''sku'' (JInt 500) empty_redis))))
     \<noteq> Inr (Some \<lparr>ls_resource = ''sku'', ls_token = ''t3'', ls_ttlMs = 100\<rparr>)"
proof -
  let ?s = "fst (acquire (redis_client reliable) ''k:'' ''t1'' ''sku'' (JInt 500) empty_redis)"
  let ?l = "\<lparr>ls_resource = ''sku'', ls_token = ''t1'', ls_ttlMs = 500\<rparr>"
  have "snd (acquire (redis_client reliable) ''k:'' ''t1'' ''sku'' (JInt 500) empty_redis) = Inr (Some ?l)"
    by code_simp
  then have g: "acquire (redis_client reliable) ''k:'' ''t1'' ''sku'' (JInt 500) empty_redis = (?s, Inr (Some ?l))"
    by (simp add: prod_eq_iff)
  have u: "sum_list (map elapsed contending_events) < ls_ttlMs ?l" by code_simp
  have k: "\<forall>ev\<in>set contending_events. \<not> releases_own ''sku'' ''t1'' ev" by code_simp
  show ?thesis by (rule lock_mutual_exclusion [OF g u k])
qed

text \<open>
  A release answers \<open>true\<close> exactly when the key still holds the lease's token, and only
  then removes it; a release that throws removed the lease's own token or nothing.
\<close>

theorem lock_release_is_owned:
  "case release (redis_client fault) p l s of
     (s', Inr b) \<Rightarrow> b = (redis_holder s (lock_key p (ls_resource l)) = Some (ls_token l))
       \<and> redis_holder s' = (if b then (redis_holder s)(lock_key p (ls_resource l) := None) else redis_holder s)
   | (s', Inl e) \<Rightarrow> (\<exists>cause. e = RedisLockUnavailableError RELEASE cause)
       \<and> redis_holder s' \<in> {redis_holder s, if redis_holder s (lock_key p (ls_resource l)) = Some (ls_token l)
           then (redis_holder s)(lock_key p (ls_resource l) := None) else redis_holder s}"
proof -
  obtain s' r where run: "release (redis_client fault) p l s = (s', r)" by force
  have "\<exists>cause. e = RedisLockUnavailableError RELEASE cause" if "r = Inl e" for e
    using run that by (auto simp: release_def split: sum.splits prod.splits)
  then show ?thesis using redis_lock.release_effect [OF run] run by (cases r) auto
qed

text \<open>
  On a server that answers, the first claim of a message by a consumer within the expiry
  is the only one granted, and it does not touch the claim of any other message or consumer.
\<close>

theorem processed_claims_independent:
  assumes "0 < ttl"
  shows "case tryClaim (redis_client reliable) p consumer messageId ttl s of (s', r) \<Rightarrow>
     r = Inr (redis_holder s (claim_key p consumer messageId) = None)
     \<and> redis_holder s' (claim_key p consumer messageId) \<noteq> None
     \<and> (\<forall>c m. (c, m) = (consumer, messageId) \<or> redis_holder s' (claim_key p c m) = redis_holder s (claim_key p c m))"
proof -
  let ?k = "claim_key p consumer messageId"
  obtain s' r where run: "redis_set_nx ?k ''1'' (1000 * ttl) s = (s', r)" by force
  have set: "lc_set (redis_client reliable) ?k ''1'' (1000 * ttl) s = (s', r)"
    using run by (simp add: redis_client_def lossy_def reliable_def)
  have "0 < 1000 * ttl" using assms by simp
  from redis_set_holder [OF this run] show ?thesis
    by (auto simp: tryClaim_def set claim_key_inject split: option.splits)
qed

theorem processed_claims_independent_witness:
  "case tryClaim (redis_client reliable) ''p:'' ''mail/eu'' ''m:1'' 3600 empty_redis of (s', r) \<Rightarrow>
     r = Inr (redis_holder empty_redis (claim_key ''p:'' ''mail/eu'' ''m:1'') = None)
     \<and> redis_holder s' (claim_key ''p:'' ''mail/eu'' ''m:1'') \<noteq> None
     \<and> (\<forall>c m. (c, m) = (''mail/eu'', ''m:1'')
          \<or> redis_holder s' (claim_key ''p:'' c m) = redis_holder empty_redis (claim_key ''p:'' c m))"
  by (rule processed_claims_independent) simp

end
