(* ===== verification/Worker_Messages.thy ===== *)
theory Worker_Messages
  imports Repositories Observability
begin

text \<open>
  The message handlers of the worker: \<open>apps/worker/src/idempotent-message-processor.js\<close>,
  which runs a handler in the transaction that records the message as processed, and
  \<open>apps/worker/src/observed-message-handler.js\<close>, which reports each message to an
  observability object that may throw.  Messages are JavaScript values whose
  \<open>messageId\<close> is a text.
\<close>

section \<open>The idempotent processor\<close>

definition duplicate_result :: jsval where
  "duplicate_result = JObj [(''status'', JStr ''DUPLICATE'')]"

definition processed_result :: "jsval \<Rightarrow> jsval" where
  "processed_result r = JObj [(''status'', JStr ''PROCESSED''), (''result'', r)]"

type_synonym 's message_handler = "jsval \<Rightarrow> 's queryable \<Rightarrow> ('s, jsval) action"

text \<open>The operation that \<open>process\<close> passes to \<open>withTransaction\<close>, on the transaction's client.\<close>

definition process_body :: "'s message_handler \<Rightarrow> jsval \<Rightarrow> 's queryable \<Rightarrow> ('s, jsval) action" where
  "process_body handler message client =
     then_do (tryCreate client (js_str (get_prop message ''messageId''))) (\<lambda>processed.
       case processed of
         None \<Rightarrow> finish_with (Inr duplicate_result)
       | Some _ \<Rightarrow> then_do (handler message client) (\<lambda>result. finish_with (Inr (processed_result result))))"

definition process_message ::
  "'s tx_client \<Rightarrow> 's queryable \<Rightarrow> 's message_handler \<Rightarrow> jsval \<Rightarrow> 's \<Rightarrow> 's \<times> tx_call list \<times> jsval result" where
  "process_message pool client handler message = withTransaction pool (process_body handler message client) None"

subsection \<open>On the tables\<close>

lemma tryCreate_exec:
  "tryCreate (exec_statement pg) m t = (case tb_processed_messages t m of
      Some _ \<Rightarrow> (t, Inr None)
    | None \<Rightarrow> (t\<lparr>tb_processed_messages := (tb_processed_messages t)(m \<mapsto> \<lparr>pm_message_id = m, pm_processed_at = pg_now pg\<rparr>)\<rparr>,
               Inr (Some (mapProcessedMessage \<lparr>pm_message_id = m, pm_processed_at = pg_now pg\<rparr>))))"
  by (simp add: tryCreate_def then_do_def insert_processed_message_def null_or_def Let_def split: option.split)

lemma tryCreate_rules [intro]:
  "inside_server (tryCreate (server_query fl pg) m)"
  "simulates (tryCreate (server_query fl pg) m) (tryCreate (exec_statement pg) m)"
  unfolding tryCreate_def
  by (intro inside_then_do inside_runQuery inside_finish_with simulates_then_do simulates_basic
      simulates_runQuery)+

text \<open>A handler that works through the client it is given, on a server and on plain tables.\<close>

definition transactional_handler ::
  "pg \<Rightarrow> (failures \<Rightarrow> server message_handler) \<Rightarrow> tables message_handler \<Rightarrow> bool" where
  "transactional_handler pg handler handler' \<longleftrightarrow> (\<forall>fl message.
     inside_server (handler fl message (server_query fl pg))
     \<and> simulates (handler fl message (server_query fl pg)) (handler' message (exec_statement pg)))"

lemma process_body_rules:
  assumes "transactional_handler pg handler handler'"
  shows "inside_server (process_body (handler fl) message (server_query fl pg))"
    and "simulates (process_body (handler fl) message (server_query fl pg)) (process_body handler' message (exec_statement pg))"
  using assms unfolding process_body_def transactional_handler_def
  by (intro inside_then_do inside_finish_with simulates_then_do simulates_basic tryCreate_rules
      case_option_rules; simp)+

text \<open>What the message does to the tables: its record and the handler's work, in one piece.\<close>

definition recorded :: "pg \<Rightarrow> string \<Rightarrow> tables \<Rightarrow> tables" where
  "recorded pg m t = t\<lparr>tb_processed_messages := (tb_processed_messages t)
     (m \<mapsto> \<lparr>pm_message_id = m, pm_processed_at = pg_now pg\<rparr>)\<rparr>"

lemma process_body_exec:
  assumes "process_body handler message (exec_statement pg) t = (t', Inr v)"
    and "m = js_str (get_prop message ''messageId'')"
  shows "tb_processed_messages t m \<noteq> None \<and> t' = t \<and> v = duplicate_result
    \<or> tb_processed_messages t m = None \<and> (\<exists>r. handler message (exec_statement pg) (recorded pg m t) = (t', Inr r)
        \<and> v = processed_result r)"
proof (cases "tb_processed_messages t m")
  case None
  obtain t1 r where h: "handler message (exec_statement pg) (recorded pg m t) = (t1, r)" by force
  then show ?thesis
    using assms None by (cases r) (simp_all add: process_body_def then_do_def tryCreate_exec recorded_def)
next
  case (Some x)
  then show ?thesis
    using assms by (simp add: process_body_def then_do_def tryCreate_exec)
qed

section \<open>Redelivery\<close>

text \<open>
  The same message delivered again and again, each time over calls that may fail at
  other points.
\<close>

fun deliveries ::
  "pg \<Rightarrow> (failures \<Rightarrow> server message_handler) \<Rightarrow> jsval \<Rightarrow> failures list \<Rightarrow> server \<Rightarrow> server \<times> jsval result list" where
  "deliveries pg handler message [] s = (s, [])"
| "deliveries pg handler message (fl # fls) s =
     (let (s1, calls, r) = process_message (server_client fl) (server_query fl pg) (handler fl) message s;
          (s2, rs) = deliveries pg handler message fls s1
      in (s2, r # rs))"

text \<open>The handler does not take its own message's record away.\<close>

definition keeps_record :: "pg \<Rightarrow> tables message_handler \<Rightarrow> jsval \<Rightarrow> bool" where
  "keeps_record pg handler' message \<longleftrightarrow> (\<forall>t t' r.
     handler' message (exec_statement pg) t = (t', Inr r) \<longrightarrow>
     tb_processed_messages t (js_str (get_prop message ''messageId'')) \<noteq> None \<longrightarrow>
     tb_processed_messages t' (js_str (get_prop message ''messageId'')) \<noteq> None)"

lemma process_outcome:
  assumes handler: "transactional_handler pg handler handler'"
    and run: "process_message (server_client fl) (server_query fl pg) (handler fl) message s = (s', calls, r)"
    and m: "m = js_str (get_prop message ''messageId'')"
  shows "case r of
      Inr v \<Rightarrow> tb_processed_messages (sv_committed s) m \<noteq> None \<and> sv_committed s' = sv_committed s \<and> v = duplicate_result
        \<or> tb_processed_messages (sv_committed s) m = None
          \<and> (\<exists>x. handler' message (exec_statement pg) (recorded pg m (sv_committed s)) = (sv_committed s', Inr x)
               \<and> v = processed_result x)
    | Inl e \<Rightarrow> sv_committed s' = sv_committed s
        \<or> tb_processed_messages (sv_committed s) m = None \<and> Command ''COMMIT'' \<in> set calls
          \<and> (\<exists>x. handler' message (exec_statement pg) (recorded pg m (sv_committed s)) = (sv_committed s', Inr x))"
proof -
  note outcome = transaction_outcome [OF run [unfolded process_message_def] process_body_rules [OF handler]]
  note effect = process_body_exec [of handler' message pg "sv_committed s" "sv_committed s'", OF _ m]
  show ?thesis
  proof (cases r)
    case (Inl e)
    then show ?thesis using outcome effect by (auto simp only: sum.case)
  next
    case (Inr v)
    then show ?thesis using outcome effect by (simp only: sum.case)
  qed
qed

text \<open>Once the record is there, further deliveries change nothing.\<close>

lemma deliveries_recorded:
  assumes handler: "transactional_handler pg handler handler'"
    and m: "m = js_str (get_prop message ''messageId'')"
    and there: "tb_processed_messages (sv_committed s) m \<noteq> None"
    and run: "deliveries pg handler message fls s = (s', rs)"
  shows "sv_committed s' = sv_committed s \<and> (\<forall>r\<in>set rs. \<forall>v. r = Inr v \<longrightarrow> v = duplicate_result)"
  using run there
proof (induction fls arbitrary: s rs)
  case Nil
  then show ?case by simp
next
  case (Cons fl fls)
  obtain s1 calls r where p: "process_message (server_client fl) (server_query fl pg) (handler fl) message s = (s1, calls, r)"
    by (metis prod_cases3)
  obtain rs2 where d: "deliveries pg handler message fls s1 = (s', rs2)" and eq: "rs = r # rs2"
    using Cons.prems(1) p by (auto split: prod.splits)
  have s1: "sv_committed s1 = sv_committed s" "\<And>v. r = Inr v \<Longrightarrow> v = duplicate_result"
    using process_outcome [OF handler p m] Cons.prems(2) by (auto split: sum.splits)
  then show ?case using Cons.IH [OF d] Cons.prems(2) eq by auto
qed

definition is_processed :: "jsval result \<Rightarrow> bool" where
  "is_processed r = (case r of Inr v \<Rightarrow> get_prop v ''status'' = JStr ''PROCESSED'' | Inl _ \<Rightarrow> False)"

lemma is_processed_simps [simp]:
  "\<not> is_processed (Inl e)" "\<not> is_processed (Inr duplicate_result)" "is_processed (Inr (processed_result x))"
  by (simp_all add: is_processed_def duplicate_result_def processed_result_def)

lemma deliveries_once:
  assumes handler: "transactional_handler pg handler handler'"
    and keeps: "keeps_record pg handler' message"
    and m: "m = js_str (get_prop message ''messageId'')"
    and run: "deliveries pg handler message fls s = (s', rs)"
  shows "(sv_committed s' = sv_committed s
      \<or> tb_processed_messages (sv_committed s) m = None
        \<and> (\<exists>x. handler' message (exec_statement pg) (recorded pg m (sv_committed s)) = (sv_committed s', Inr x)))
    \<and> length (filter is_processed rs) \<le> 1
    \<and> ((\<exists>v. Inr v \<in> set rs) \<longrightarrow> tb_processed_messages (sv_committed s') m \<noteq> None)"
  using run
proof (induction fls arbitrary: s rs)
  case Nil
  then show ?case by simp
next
  case (Cons fl fls)
  obtain s1 calls r where p: "process_message (server_client fl) (server_query fl pg) (handler fl) message s = (s1, calls, r)"
    by (metis prod_cases3)
  obtain rs2 where d: "deliveries pg handler message fls s1 = (s', rs2)" and eq: "rs = r # rs2"
    using Cons.prems p by (auto split: prod.splits)
  note out = process_outcome [OF handler p m]
  show ?case
  proof (cases "sv_committed s1 = sv_committed s \<and> (\<forall>v. r \<noteq> Inr v)")
    case True
    then show ?thesis using Cons.IH [OF d] eq by (cases r) auto
  next
    case False
    have there: "tb_processed_messages (sv_committed s1) m \<noteq> None"
      and effect: "sv_committed s1 = sv_committed s \<or> tb_processed_messages (sv_committed s) m = None
        \<and> (\<exists>x. handler' message (exec_statement pg) (recorded pg m (sv_committed s)) = (sv_committed s1, Inr x))"
      using out False keeps by (cases r; fastforce simp: keeps_record_def m recorded_def)+
    note rest = deliveries_recorded [OF handler m there d]
    have "filter is_processed rs2 = []"
    proof (rule filter_False, rule ballI)
      fix r2
      assume "r2 \<in> set rs2"
      with rest have "\<forall>v. r2 = Inr v \<longrightarrow> v = duplicate_result" by blast
      then show "\<not> is_processed r2" by (cases r2) simp_all
    qed
    then have "length (filter is_processed rs) \<le> 1" using eq by simp
    then show ?thesis using rest effect there eq by simp
  qed
qed

section \<open>The observed handler\<close>

text \<open>
  The injected observability object: its methods may throw, and what they change is their
  own state.  An operation's \<open>complete\<close> and \<open>fail\<close> are functions of the operation.
\<close>

record ('t, 'op) observability =
  ob_createMessageContext :: "jsval \<Rightarrow> jsval \<Rightarrow> 't \<Rightarrow> 't \<times> jsval result"
  ob_startOperation :: "string \<Rightarrow> jsval \<Rightarrow> 't \<Rightarrow> 't \<times> 'op result"
  ob_complete :: "'op \<Rightarrow> finish_options \<Rightarrow> 't \<Rightarrow> 't \<times> unit result"
  ob_fail :: "'op \<Rightarrow> exn \<Rightarrow> finish_options \<Rightarrow> 't \<Rightarrow> 't \<times> unit result"

definition ended_as :: "string \<Rightarrow> string list \<Rightarrow> finish_options" where
  "ended_as status counters = \<lparr>fo_status = status, fo_context = JObj [], fo_counters = counters, fo_error = None\<rparr>"

definition begin_operation :: "('t, 'op) observability \<Rightarrow> jsval \<Rightarrow> jsval \<Rightarrow> 't \<Rightarrow> 't \<times> 'op option" where
  "begin_operation ob workerId message t =
     (case ob_createMessageContext ob message workerId t of
        (t1, Inl e) \<Rightarrow> (t1, None)
      | (t1, Inr context) \<Rightarrow> (case ob_startOperation ob ''message.process'' context t1 of
            (t2, Inl e) \<Rightarrow> (t2, None)
          | (t2, Inr op) \<Rightarrow> (t2, Some op)))"

definition complete_if_started :: "('t, 'op) observability \<Rightarrow> 'op option \<Rightarrow> jsval \<Rightarrow> 't \<Rightarrow> 't" where
  "complete_if_started ob operation result t =
     (let duplicate = (get_prop result ''status'' = JStr ''DUPLICATE'') in
      case operation of
        None \<Rightarrow> t
      | Some op \<Rightarrow> fst (ob_complete ob op
          (ended_as (if duplicate then ''DUPLICATE'' else ''COMPLETED'')
             [if duplicate then ''deduplication_count'' else ''orders_completed_total'']) t))"

definition observedMessageHandler ::
  "('t, 'op) observability \<Rightarrow> (jsval \<Rightarrow> 's \<Rightarrow> 's \<times> jsval result) \<Rightarrow> jsval \<Rightarrow> jsval \<Rightarrow> 's \<times> 't
     \<Rightarrow> ('s \<times> 't) \<times> jsval result" where
  "observedMessageHandler ob handler workerId message st = (case st of (s, t) \<Rightarrow>
     (case begin_operation ob workerId message t of (t1, operation) \<Rightarrow>
       (case handler message s of
          (s', Inr result) \<Rightarrow> ((s', complete_if_started ob operation result t1), Inr result)
        | (s', Inl e) \<Rightarrow>
            ((s', case operation of
                None \<Rightarrow> t1
              | Some op \<Rightarrow> fst (ob_fail ob op e (ended_as ''FAILED'' [''orders_failed_total'']) t1)), Inl e))))"

lemma observed_outcome:
  "observedMessageHandler ob handler workerId message (s, t) = ((s', t'), r) \<Longrightarrow> handler message s = (s', r)"
  by (simp add: observedMessageHandler_def split: prod.splits sum.splits)

text \<open>The object of \<open>createLocalObservability\<close>, read at two instants.\<close>

definition local_observability ::
  "(jsval \<Rightarrow> string) \<Rightarrow> clocks \<Rightarrow> clocks \<Rightarrow> (telemetry, operation) observability" where
  "local_observability str ck0 ck1 = \<lparr>
     ob_createMessageContext = (\<lambda>message workerId t. (t, Inr (createMessageContext message workerId))),
     ob_startOperation = (\<lambda>event context t. (t, Inr (startOperation ck0 event context))),
     ob_complete = (\<lambda>op options t. case complete_operation str ck1 options (op, t) of
        ((op', t'), r) \<Rightarrow> (t', map_sum id (\<lambda>_. ()) r)),
     ob_fail = (\<lambda>op e options t. case fail_operation str ck1 e options (op, t) of
        ((op', t'), r) \<Rightarrow> (t', map_sum id (\<lambda>_. ()) r))\<rparr>"

section \<open>Properties\<close>

text \<open>
  C5. Redelivery applies a message once.  However often a message is delivered and wherever
  the connection fails, lost acknowledgements of \<open>COMMIT\<close> included, the committed tables
  are the initial ones or the result of one run of the handler with the message's record;
  at most one delivery answers \<open>PROCESSED\<close>, and once any delivery answered the record is
  stored.
\<close>

theorem redelivered_message_applied_once:
  assumes "transactional_handler pg handler handler'" and "keeps_record pg handler' message"
    and "deliveries pg handler message fls s = (s', rs)"
    and "m = js_str (get_prop message ''messageId'')"
  shows "(sv_committed s' = sv_committed s
      \<or> tb_processed_messages (sv_committed s) m = None
        \<and> (\<exists>x. handler' message (exec_statement pg) (recorded pg m (sv_committed s)) = (sv_committed s', Inr x)))
    \<and> length (filter is_processed rs) \<le> 1
    \<and> ((\<exists>v. Inr v \<in> set rs) \<longrightarrow> tb_processed_messages (sv_committed s') m \<noteq> None)"
  by (rule deliveries_once [OF assms(1,2,4,3)])

text \<open>A handler that reserves stock; the acknowledgement of its first \<open>COMMIT\<close> is lost.\<close>

definition reserving_handler :: "'s message_handler" where
  "reserving_handler message client =
     then_do (reserveLocked client ''p'' (JInt 3)) (\<lambda>_. finish_with (Inr JNull))"

definition lost_commit :: failures where
  "lost_commit = \<lparr>fl_error = (\<lambda>n. if n = 4 then Some (plain_error ''connection lost'') else None),
     fl_took_effect = (\<lambda>_. True)\<rparr>"

definition sample_delivery :: jsval where
  "sample_delivery = JObj [(''messageId'', JStr ''m1'')]"

lemma reserving_transactional: "transactional_handler pg (\<lambda>_. reserving_handler) reserving_handler"
  unfolding transactional_handler_def reserving_handler_def
  by (intro allI conjI inside_then_do repositories_inside inside_finish_with simulates_then_do
      simulates_repositories simulates_basic)

lemma reserving_keeps_record: "keeps_record pg reserving_handler message"
proof -
  have "tb_processed_messages (fst (update_reserve pg c i q t)) = tb_processed_messages t" for c i q t
    by (simp add: update_reserve_def Let_def split: option.split)
  then have k: "tb_processed_messages (fst (reserveLocked (exec_statement pg) i q t)) = tb_processed_messages t" for i q t
    by (simp add: reserveLocked_def then_do_def split: prod.split sum.split) (metis fst_conv)
  show ?thesis
    unfolding keeps_record_def
  proof (intro allI impI)
    fix t t' r
    assume run: "reserving_handler message (exec_statement pg) t = (t', Inr r)"
      and there: "tb_processed_messages t (js_str (get_prop message ''messageId'')) \<noteq> None"
    obtain t1 r1 where "reserveLocked (exec_statement pg) ''p'' (JInt 3) t = (t1, r1)" by force
    with run k [of "''p''" "JInt 3" t] have "tb_processed_messages t' = tb_processed_messages t"
      by (cases r1) (auto simp: reserving_handler_def)
    with there show "tb_processed_messages t' (js_str (get_prop message ''messageId'')) \<noteq> None" by simp
  qed
qed

theorem redelivered_message_applied_once_witness:
  "\<exists>s' rs. deliveries sample_pg (\<lambda>_. reserving_handler) sample_delivery [lost_commit, no_failures] sample_server = (s', rs)
    \<and> map_option pr_stock (tb_products (sv_committed s') ''p'') = Some 7
    \<and> map isl rs = [True, False]
    \<and> length (filter is_processed rs) \<le> 1"
proof -
  obtain s' rs where run: "deliveries sample_pg (\<lambda>_. reserving_handler) sample_delivery
      [lost_commit, no_failures] sample_server = (s', rs)" by force
  from redelivered_message_applied_once [OF reserving_transactional reserving_keeps_record run refl]
  have once: "length (filter is_processed rs) \<le> 1" by blast
  have "map_option pr_stock (tb_products (sv_committed (fst (deliveries sample_pg (\<lambda>_. reserving_handler) sample_delivery
      [lost_commit, no_failures] sample_server))) ''p'') = Some 7" by code_simp
  moreover have "map isl (snd (deliveries sample_pg (\<lambda>_. reserving_handler)
      sample_delivery [lost_commit, no_failures] sample_server)) = [True, False]" by code_simp
  ultimately show ?thesis using run once by simp
qed

text \<open>
  Telemetry never changes the outcome of a message: whatever the observability object
  does, even when every one of its methods throws, the handler is called once with the
  message and its state and its result or error are what the caller gets.
\<close>

theorem observed_handler_transparent:
  "case observedMessageHandler ob handler workerId message (s, t) of
     ((s', t'), r) \<Rightarrow> (s', r) = handler message s"
  by (auto dest!: observed_outcome split: prod.split)

fun outcome_counter :: "jsval result \<Rightarrow> string" where
  "outcome_counter (Inl e) = ''orders_failed_total''"
| "outcome_counter (Inr v) = (if get_prop v ''status'' = JStr ''DUPLICATE'' then ''deduplication_count''
     else ''orders_completed_total'')"

fun outcome_status :: "jsval result \<Rightarrow> string" where
  "outcome_status (Inl e) = ''FAILED''"
| "outcome_status (Inr v) = (if get_prop v ''status'' = JStr ''DUPLICATE'' then ''DUPLICATE'' else ''COMPLETED'')"

text \<open>
  With the local observability object every message is counted once, under its outcome,
  and leaves one record with that status and one more observed duration.
\<close>

theorem observed_message_counted:
  assumes "metrics_ok (tl_metrics t)" and "\<bar>ck_wall ck1\<bar> \<le> MAX_TIME"
  shows "case observedMessageHandler (local_observability str ck0 ck1) handler workerId message (s, t) of
     ((s', t'), r) \<Rightarrow> (\<exists>rec. tl_written t' = tl_written t @ [rec] \<and> lr_status rec = outcome_status r)
       \<and> mt_durationCount (tl_metrics t') = mt_durationCount (tl_metrics t) + 1
       \<and> (\<forall>c n. mt_counters (tl_metrics t) c = Some n \<longrightarrow>
            mt_counters (tl_metrics t') c = Some (n + of_bool (c = outcome_counter r)))
       \<and> metrics_ok (tl_metrics t')"
proof -
  obtain s' r where h: "handler message s = (s', r)" by force
  let ?op = "startOperation ck0 ''message.process'' (createMessageContext message workerId)"
  define options where "options = (ended_as (outcome_status r) [outcome_counter r])
    \<lparr>fo_error := (case r of Inl e \<Rightarrow> if e = Thrown JUndefined then None else Some e | Inr _ \<Rightarrow> None)\<rparr>"
  have fresh: "ot_terminal ?op = None" by (simp add: startOperation_def)
  have known: "set (fo_counters options) \<subseteq> set counterNames"
    by (cases r) (simp_all add: options_def ended_as_def counterNames_def)
  from finish_first [OF assms(1) fresh known assms(2), of str]
  obtain op' t' rec where fin: "finish str ck1 options (?op, t) = ((op', t'), Inr rec)"
    "tl_written t' = tl_written t @ [rec]" "lr_status rec = fo_status options" "metrics_ok (tl_metrics t')"
    "mt_durationCount (tl_metrics t') = mt_durationCount (tl_metrics t) + 1"
    "\<forall>c n. mt_counters (tl_metrics t) c = Some n \<longrightarrow>
         mt_counters (tl_metrics t') c = Some (n + of_nat (count_list (fo_counters options) c))"
    by blast
  have started: "begin_operation (local_observability str ck0 ck1) workerId message t = (t, Some ?op)"
    by (simp add: begin_operation_def local_observability_def)
  have run: "observedMessageHandler (local_observability str ck0 ck1) handler workerId message (s, t) = ((s', t'), r)"
  proof (cases r)
    case (Inl e)
    then have "options = (ended_as ''FAILED'' [''orders_failed_total''])\<lparr>fo_error := (if e = Thrown JUndefined then None else Some e)\<rparr>"
      by (simp only: options_def sum.case outcome_status.simps outcome_counter.simps)
    then have "fail_operation str ck1 e (ended_as ''FAILED'' [''orders_failed_total'']) (?op, t) = ((op', t'), Inr e)"
      using fin(1) by (simp only: fail_operation_def prod.case sum.case)
    then have "fst (ob_fail (local_observability str ck0 ck1) ?op e (ended_as ''FAILED'' [''orders_failed_total'']) t) = t'"
      by (simp add: local_observability_def)
    then show ?thesis
      by (simp only: observedMessageHandler_def started h Inl prod.case sum.case option.case)
  next
    case (Inr v)
    then have "options = ended_as (outcome_status r) [outcome_counter r]"
      by (simp only: options_def sum.case) (simp add: ended_as_def)
    with fin(1) have "complete_operation str ck1 (ended_as (outcome_status r) [outcome_counter r]) (?op, t) = ((op', t'), Inr rec)"
      by (simp only: complete_operation_def)
    then have "fst (ob_complete (local_observability str ck0 ck1) ?op (ended_as (outcome_status r) [outcome_counter r]) t) = t'"
      by (simp add: local_observability_def)
    then have "complete_if_started (local_observability str ck0 ck1) (Some ?op) v t = t'"
      by (simp only: Inr complete_if_started_def outcome_status.simps outcome_counter.simps Let_def option.case)
    then show ?thesis
      by (simp only: observedMessageHandler_def started h Inr prod.case sum.case)
  qed
  have "fo_status options = outcome_status r" "fo_counters options = [outcome_counter r]"
    by (simp_all add: options_def ended_as_def)
  then show ?thesis using run fin(2-6) by (auto simp: of_bool_def)
qed

theorem observed_message_counted_witness:
  "case observedMessageHandler (local_observability js_str \<lparr>ck_monotonic = 1, ck_wall = 0\<rparr> \<lparr>ck_monotonic = 3, ck_wall = 9\<rparr>)
      (\<lambda>message s. (s + 1, Inr duplicate_result)) (JStr ''w1'') sample_delivery
      (0 :: nat, \<lparr>tl_metrics = createMetricsRegistry, tl_written = []\<rparr>) of
     ((s', t'), r) \<Rightarrow> (\<exists>rec. tl_written t' = [rec] \<and> lr_status rec = ''DUPLICATE'')
       \<and> mt_counters (tl_metrics t') ''deduplication_count'' = Some 1"
proof -
  have zero: "mt_counters createMetricsRegistry ''deduplication_count'' = Some 0"
    by (simp add: createMetricsRegistry_def counterNames_def)
  have wall: "\<bar>ck_wall \<lparr>ck_monotonic = 3, ck_wall = 9\<rparr>\<bar> \<le> MAX_TIME" by (simp add: MAX_TIME_def)
  have ok: "metrics_ok (tl_metrics \<lparr>tl_metrics = createMetricsRegistry, tl_written = []\<rparr>)"
    by (simp add: metrics_ok_initial)
  let ?o = "observedMessageHandler
      (local_observability js_str \<lparr>ck_monotonic = 1, ck_wall = 0\<rparr> \<lparr>ck_monotonic = 3, ck_wall = 9\<rparr>)
      (\<lambda>message s. (s + 1, Inr duplicate_result)) (JStr ''w1'') sample_delivery
      (0 :: nat, \<lparr>tl_metrics = createMetricsRegistry, tl_written = []\<rparr>)"
  have "?o = ((fst (fst ?o), snd (fst ?o)), snd ?o)" by (simp only: prod.collapse)
  then obtain s' t' r where run: "?o = ((s', t'), r)" by blast
  from observed_outcome [OF run] have "r = Inr duplicate_result" by (rule Pair_inject) simp
  then have r: "outcome_status r = ''DUPLICATE''" "outcome_counter r = ''deduplication_count''"
    by (simp_all add: duplicate_result_def)
  from observed_message_counted [OF ok wall, of js_str "\<lparr>ck_monotonic = 1, ck_wall = 0\<rparr>"
      "\<lambda>message s. (s + 1, Inr duplicate_result)" "JStr ''w1''" sample_delivery "0 :: nat", unfolded run prod.case r]
  show ?thesis unfolding run prod.case using zero by auto
qed

end
