(* ===== verification/Messaging_Semantics.thy ===== *)
theory Messaging_Semantics
  imports Message_Queue
begin

text \<open>
  The delivery simulations of \<open>packages/queue/src/messaging-semantics.js\<close>, on the local
  queue.  A simulation is the calling function (a program counter that names its
  \<open>await\<close>) beside the queue's consumer; a step is one turn of either, in any order.
\<close>

section \<open>State\<close>

definition semantics_message :: jsval where
  "semantics_message = JObj [(''messageId'', JStr ''message-1''), (''type'', JStr ''ORDER_CREATED'')]"

definition acknowledgementLostError :: exn where
  "acknowledgementLostError = plain_error ''acknowledgement lost''"

text \<open>\<open>simulateAtMostOnce({ messageLost })\<close>, \<open>simulateRedelivery({ acknowledgementLost, idempotent })\<close>.\<close>

datatype sim_kind = AtMostOnce bool | Redelivery bool bool

record semantics_state =
  sg_deliveryAttempts :: nat
  sg_handlerInvocations :: nat
  sg_effectApplications :: nat
  sg_duplicatesSkipped :: "nat option"
  sg_trace :: "string list"

text \<open>
  \<open>SimConsumeLost\<close>, \<open>SimAwaitLost\<close>: the first \<open>consume\<close> of a redelivery whose
  acknowledgement is lost.  The last four are the \<open>finally\<close> block, with the error it rethrows.
\<close>

datatype sim_pc =
    SimStart
  | SimAwaitPublish
  | SimConsumeLost
  | SimAwaitLost
  | SimConsume
  | SimAwaitHandled
  | SimShutdown "exn option"
  | SimAwaitShutdown "exn option"
  | SimAwaitConsuming "exn option"
  | SimDone "exn option"

text \<open>
  \<open>sm_settled\<close>: the settled \<open>consume\<close> promises.  \<open>sm_outcome\<close>: how the handler call in
  flight will settle.  \<open>sm_handled\<close>: the deferred \<open>handled\<close> or \<open>acknowledged\<close> is resolved.
\<close>

record simulation =
  sm_pc :: sim_pc
  sm_queue :: queue
  sm_state :: semantics_state
  sm_processed :: "string list"
  sm_consuming :: "nat option"
  sm_settled :: "(nat \<times> exn option) list"
  sm_outcome :: "exn option option"
  sm_handled :: bool
  sm_shut :: bool

definition sim_start :: "sim_kind \<Rightarrow> simulation result" where
  "sim_start kind = (case createInMemoryQueue JUndefined JUndefined of
      Inl e \<Rightarrow> Inl e
    | Inr q \<Rightarrow> Inr \<lparr>sm_pc = SimStart, sm_queue = q,
        sm_state = (case kind of
            AtMostOnce _ \<Rightarrow> \<lparr>sg_deliveryAttempts = 1, sg_handlerInvocations = 0, sg_effectApplications = 0,
               sg_duplicatesSkipped = None, sg_trace = [''delivery-attempted'']\<rparr>
          | Redelivery _ idempotent \<Rightarrow> \<lparr>sg_deliveryAttempts = 0, sg_handlerInvocations = 0,
               sg_effectApplications = 0, sg_duplicatesSkipped = (if idempotent then Some 0 else None), sg_trace = []\<rparr>),
        sm_processed = [], sm_consuming = None, sm_settled = [], sm_outcome = None,
        sm_handled = False, sm_shut = False\<rparr>)"

section \<open>Handlers\<close>

definition traced :: "string list \<Rightarrow> semantics_state \<Rightarrow> semantics_state" where
  "traced labels st = st\<lparr>sg_trace := sg_trace st @ labels\<rparr>"

definition handle_at_most_once :: "simulation \<Rightarrow> simulation" where
  "handle_at_most_once s =
     (let st = traced [''handler-invoked'']
            ((sm_state s)\<lparr>sg_handlerInvocations := sg_handlerInvocations (sm_state s) + 1\<rparr>);
          st' = traced [''effect-applied'', ''acknowledged''] (st\<lparr>sg_effectApplications := sg_effectApplications st + 1\<rparr>)
      in s\<lparr>sm_state := st', sm_outcome := Some None, sm_handled := True\<rparr>)"

text \<open>\<open>handle\<close> of \<open>simulateRedelivery\<close>: the state it leaves and whether it throws.\<close>

definition handle_redelivery :: "bool \<Rightarrow> bool \<Rightarrow> jsval \<Rightarrow> simulation \<Rightarrow> simulation \<times> exn option" where
  "handle_redelivery acknowledgementLost idempotent deliveredMessage s =
     (let st0 = sm_state s;
          st = traced [''delivery-attempted'', ''handler-invoked'']
            (st0\<lparr>sg_deliveryAttempts := sg_deliveryAttempts st0 + 1,
                 sg_handlerInvocations := sg_handlerInvocations st0 + 1\<rparr>);
          messageId = js_str (get_prop deliveredMessage ''messageId'')
      in if idempotent \<and> messageId \<in> set (sm_processed s) then
           (s\<lparr>sm_state := traced [''duplicate-skipped'', ''acknowledged'']
                (st\<lparr>sg_duplicatesSkipped := map_option Suc (sg_duplicatesSkipped st)\<rparr>)\<rparr>, None)
         else
           (let st' = traced [''effect-applied''] (st\<lparr>sg_effectApplications := sg_effectApplications st + 1\<rparr>);
                s' = s\<lparr>sm_processed := messageId # sm_processed s\<rparr>
            in if acknowledgementLost \<and> sg_deliveryAttempts st' = 1 then
                 (s'\<lparr>sm_state := traced [''acknowledgement-lost''] st'\<rparr>, Some acknowledgementLostError)
               else (s'\<lparr>sm_state := traced [''acknowledged''] st'\<rparr>, None)))"

text \<open>The first consumer of a redelivery gets \<open>handle\<close>, the second one also resolves \<open>acknowledged\<close>.\<close>

definition invoke_handler :: "sim_kind \<Rightarrow> jsval \<Rightarrow> simulation \<Rightarrow> simulation" where
  "invoke_handler kind m s = (case kind of
      AtMostOnce _ \<Rightarrow> handle_at_most_once s
    | Redelivery acknowledgementLost idempotent \<Rightarrow>
        (let (s', r) = handle_redelivery acknowledgementLost idempotent m s
         in s'\<lparr>sm_outcome := Some r,
               sm_handled := sm_handled s' \<or> (r = None \<and> mq_active (sm_queue s) = Some 1)\<rparr>))"

section \<open>Steps\<close>

fun absorb :: "sim_kind \<Rightarrow> queue_out \<Rightarrow> simulation \<Rightarrow> simulation" where
  "absorb kind (HandlerCalled m) s = invoke_handler kind m s"
| "absorb kind (ConsumeResolved cid) s = s\<lparr>sm_settled := (cid, None) # sm_settled s\<rparr>"
| "absorb kind (ConsumeRejected cid e) s = s\<lparr>sm_settled := (cid, Some e) # sm_settled s\<rparr>"
| "absorb kind (ShutdownResolved sid) s = s\<lparr>sm_shut := True\<rparr>"
| "absorb kind _ s = s"

text \<open>A queue event with its outputs; \<open>[]\<close> when it is not enabled.\<close>

definition queue_turn :: "sim_kind \<Rightarrow> queue_event \<Rightarrow> simulation \<Rightarrow> simulation list" where
  "queue_turn kind ev s = (case queue_step (sm_queue s) ev of
      None \<Rightarrow> []
    | Some (q, outs) \<Rightarrow> [fold (absorb kind) outs (s\<lparr>sm_queue := q\<rparr>)])"

definition consumer_turns :: "sim_kind \<Rightarrow> simulation \<Rightarrow> simulation list" where
  "consumer_turns kind s =
     queue_turn kind ConsumerResume s @ queue_turn kind ConsumerReceive s @ queue_turn kind ConsumerSettle s
     @ (case sm_outcome s of
          None \<Rightarrow> []
        | Some None \<Rightarrow> queue_turn kind HandlerResolves (s\<lparr>sm_outcome := None\<rparr>)
        | Some (Some e) \<Rightarrow> queue_turn kind (HandlerRejects e) (s\<lparr>sm_outcome := None\<rparr>))"

definition driver_turns :: "sim_kind \<Rightarrow> simulation \<Rightarrow> simulation list" where
  "driver_turns kind s = (case sm_pc s of
      SimStart \<Rightarrow>
        if kind = AtMostOnce True
        then [s\<lparr>sm_state := traced [''message-lost''] (sm_state s), sm_pc := SimShutdown None\<rparr>]
        else (case publish 0 semantics_message (sm_queue s) of
            (q, PubResolved) \<Rightarrow> [s\<lparr>sm_queue := q, sm_pc :=
               (case kind of Redelivery True _ \<Rightarrow> SimConsumeLost | _ \<Rightarrow> SimConsume)\<rparr>]
          | (q, PubRejected e) \<Rightarrow> [s\<lparr>sm_queue := q, sm_pc := SimShutdown (Some e)\<rparr>]
          | (q, PubWaiting) \<Rightarrow> [s\<lparr>sm_queue := q, sm_pc := SimAwaitPublish\<rparr>])
    | SimConsumeLost \<Rightarrow> map (\<lambda>s'. s'\<lparr>sm_pc := SimAwaitLost\<rparr>) (queue_turn kind (Consume 0) s)
    | SimAwaitLost \<Rightarrow> (case map_of (sm_settled s) 0 of
          None \<Rightarrow> []
        | Some None \<Rightarrow> [s\<lparr>sm_pc := SimConsume\<rparr>]
        | Some (Some e) \<Rightarrow>
            [s\<lparr>sm_pc := (if e \<noteq> acknowledgementLostError then SimShutdown (Some e) else SimConsume)\<rparr>])
    | SimConsume \<Rightarrow> map (\<lambda>s'. s'\<lparr>sm_consuming := Some 1, sm_pc := SimAwaitHandled\<rparr>) (queue_turn kind (Consume 1) s)
    | SimAwaitHandled \<Rightarrow> if sm_handled s then [s\<lparr>sm_pc := SimShutdown None\<rparr>] else []
    | SimShutdown r \<Rightarrow> map (\<lambda>s'. s'\<lparr>sm_pc := SimAwaitShutdown r\<rparr>) (queue_turn kind (Shutdown 0) s)
    | SimAwaitShutdown r \<Rightarrow> if sm_shut s then [s\<lparr>sm_pc := SimAwaitConsuming r\<rparr>] else []
    | SimAwaitConsuming r \<Rightarrow> (case sm_consuming s of
          None \<Rightarrow> [s\<lparr>sm_pc := SimDone r\<rparr>]
        | Some c \<Rightarrow> (case map_of (sm_settled s) c of
              None \<Rightarrow> []
            | Some None \<Rightarrow> [s\<lparr>sm_pc := SimDone r\<rparr>]
            | Some (Some e) \<Rightarrow> [s\<lparr>sm_pc := SimDone (Some e)\<rparr>]))
    | _ \<Rightarrow> [])"

definition sim_turns :: "sim_kind \<Rightarrow> simulation \<Rightarrow> simulation list" where
  "sim_turns kind s = driver_turns kind s @ consumer_turns kind s"

inductive sim_step :: "sim_kind \<Rightarrow> simulation \<Rightarrow> simulation \<Rightarrow> bool" for kind where
  turn: "s' \<in> set (sim_turns kind s) \<Longrightarrow> sim_step kind s s'"

inductive_simps sim_step_iff: "sim_step kind s s'"

text \<open>One schedule: the caller goes first whenever it can.\<close>

fun simulate :: "nat \<Rightarrow> sim_kind \<Rightarrow> simulation \<Rightarrow> simulation" where
  "simulate 0 kind s = s"
| "simulate (Suc n) kind s = (case sim_turns kind s of [] \<Rightarrow> s | s' # _ \<Rightarrow> simulate n kind s')"

definition sim_result :: "simulation \<Rightarrow> semantics_state result" where
  "sim_result s = (case sm_pc s of SimDone None \<Rightarrow> Inr (sm_state s) | SimDone (Some e) \<Rightarrow> Inl e
     | _ \<Rightarrow> Inl (plain_error ''pending''))"

definition run_simulation :: "sim_kind \<Rightarrow> semantics_state result" where
  "run_simulation kind = (case sim_start kind of Inl e \<Rightarrow> Inl e | Inr s \<Rightarrow> sim_result (simulate 30 kind s))"

definition simulateAtMostOnce :: "bool \<Rightarrow> semantics_state result" where
  "simulateAtMostOnce messageLost = run_simulation (AtMostOnce messageLost)"

definition simulateAtLeastOnce :: "bool \<Rightarrow> semantics_state result" where
  "simulateAtLeastOnce acknowledgementLost = run_simulation (Redelivery acknowledgementLost False)"

definition simulateIdempotentEffects :: "bool \<Rightarrow> semantics_state result" where
  "simulateIdempotentEffects acknowledgementLost = run_simulation (Redelivery acknowledgementLost True)"

section \<open>Every schedule\<close>

text \<open>
  All states that some schedule reaches in the same number of steps, level by level: a
  state without a turn satisfies \<open>P\<close>, and after \<open>n\<close> levels no state is left.
\<close>

fun settles_within :: "nat \<Rightarrow> sim_kind \<Rightarrow> (simulation \<Rightarrow> bool) \<Rightarrow> simulation list \<Rightarrow> bool" where
  "settles_within n kind P ss =
     (list_all (\<lambda>s. sim_turns kind s = [] \<longrightarrow> P s) ss
      \<and> (case remdups (concat (map (sim_turns kind) ss)) of
           [] \<Rightarrow> True
         | s # rest \<Rightarrow> (case n of 0 \<Rightarrow> False | Suc k \<Rightarrow> settles_within k kind P (s # rest))))"

declare settles_within.simps [simp del]

lemma settles_within_step:
  assumes "settles_within n kind P ss" and "s \<in> set ss" and "sim_step kind s s'"
  shows "\<exists>k ss'. n = Suc k \<and> settles_within k kind P ss' \<and> s' \<in> set ss'"
proof -
  have mem: "s' \<in> set (remdups (concat (map (sim_turns kind) ss)))"
    using assms(2,3) by (auto simp: sim_step_iff)
  then obtain s0 rest where level: "remdups (concat (map (sim_turns kind) ss)) = s0 # rest"
    by (metis empty_iff empty_set neq_Nil_conv)
  obtain k where "n = Suc k" "settles_within k kind P (s0 # rest)"
    using assms(1) unfolding settles_within.simps [of n] level by (cases n) auto
  then show ?thesis using mem level by metis
qed

lemma settles_within_run:
  assumes "settles_within n kind P ss" and "s \<in> set ss" and "(sim_step kind ^^ m) s s'"
  shows "m \<le> n \<and> (sim_turns kind s' = [] \<longrightarrow> P s')"
  using assms
proof (induction m arbitrary: n ss s)
  case 0
  then show ?case by (auto simp: settles_within.simps [of n] list_all_iff)
next
  case (Suc m)
  obtain s1 where s1: "sim_step kind s s1" "(sim_step kind ^^ m) s1 s'"
    using Suc.prems(3) relpowp_Suc_D2 by metis
  from settles_within_step [OF Suc.prems(1,2) s1(1)] obtain k ss1 where
    "n = Suc k" "settles_within k kind P ss1" "s1 \<in> set ss1" by blast
  then show ?case using Suc.IH s1(2) by fastforce
qed

text \<open>What the simulations report (\<open>docs/architecture/messaging-semantics.md\<close>).\<close>

fun reported :: "sim_kind \<Rightarrow> semantics_state" where
  "reported (AtMostOnce True) = \<lparr>sg_deliveryAttempts = 1, sg_handlerInvocations = 0, sg_effectApplications = 0,
     sg_duplicatesSkipped = None, sg_trace = [''delivery-attempted'', ''message-lost'']\<rparr>"
| "reported (AtMostOnce False) = \<lparr>sg_deliveryAttempts = 1, sg_handlerInvocations = 1, sg_effectApplications = 1,
     sg_duplicatesSkipped = None,
     sg_trace = [''delivery-attempted'', ''handler-invoked'', ''effect-applied'', ''acknowledged'']\<rparr>"
| "reported (Redelivery False idempotent) = \<lparr>sg_deliveryAttempts = 1, sg_handlerInvocations = 1, sg_effectApplications = 1,
     sg_duplicatesSkipped = (if idempotent then Some 0 else None),
     sg_trace = [''delivery-attempted'', ''handler-invoked'', ''effect-applied'', ''acknowledged'']\<rparr>"
| "reported (Redelivery True False) = \<lparr>sg_deliveryAttempts = 2, sg_handlerInvocations = 2, sg_effectApplications = 2,
     sg_duplicatesSkipped = None,
     sg_trace = [''delivery-attempted'', ''handler-invoked'', ''effect-applied'', ''acknowledgement-lost'',
       ''delivery-attempted'', ''handler-invoked'', ''effect-applied'', ''acknowledged'']\<rparr>"
| "reported (Redelivery True True) = \<lparr>sg_deliveryAttempts = 2, sg_handlerInvocations = 2, sg_effectApplications = 1,
     sg_duplicatesSkipped = Some 1,
     sg_trace = [''delivery-attempted'', ''handler-invoked'', ''effect-applied'', ''acknowledgement-lost'',
       ''delivery-attempted'', ''handler-invoked'', ''duplicate-skipped'', ''acknowledged'']\<rparr>"

definition ends_well :: "sim_kind \<Rightarrow> simulation \<Rightarrow> bool" where
  "ends_well kind s = (sm_pc s = SimDone None \<and> sm_state s = reported kind)"


definition every_schedule :: "sim_kind \<Rightarrow> bool" where
  "every_schedule kind = (case sim_start kind of
      Inl _ \<Rightarrow> False
    | Inr s \<Rightarrow> settles_within 16 kind (ends_well kind) [s])"

lemma at_most_once_schedules: "every_schedule (AtMostOnce True)" "every_schedule (AtMostOnce False)"
  by code_simp+

lemma redelivery_schedules:
  "every_schedule (Redelivery False False)" "every_schedule (Redelivery False True)"
  "every_schedule (Redelivery True False)" "every_schedule (Redelivery True True)"
  by code_simp+

lemma every_schedule: "every_schedule kind"
proof (cases kind)
  case (AtMostOnce lost)
  then show ?thesis using at_most_once_schedules by (cases lost) simp_all
next
  case (Redelivery lost idempotent)
  then show ?thesis using redelivery_schedules by (cases lost; cases idempotent) simp_all
qed

lemma schedule_outcome:
  assumes "sim_start kind = Inr s0" and "(sim_step kind ^^ n) s0 s"
  shows "n \<le> 16 \<and> (sim_turns kind s = [] \<longrightarrow> ends_well kind s)"
proof -
  have "settles_within 16 kind (ends_well kind) [s0]"
    using every_schedule [of kind] assms(1) by (simp add: every_schedule_def)
  from settles_within_run [OF this _ assms(2)] show ?thesis by simp
qed

lemma simulate_run:
  "\<exists>m\<le>n. (sim_step kind ^^ m) s (simulate n kind s) \<and> (m = n \<or> sim_turns kind (simulate n kind s) = [])"
proof (induction n arbitrary: s)
  case (Suc n)
  show ?case
  proof (cases "sim_turns kind s")
    case Nil
    then show ?thesis by (intro exI [of _ 0]) simp
  next
    case (Cons s' rest)
    obtain m where m: "m \<le> n" "(sim_step kind ^^ m) s' (simulate n kind s')"
      "m = n \<or> sim_turns kind (simulate n kind s') = []" using Suc.IH by blast
    have "sim_step kind s s'" using Cons by (simp add: sim_step_iff)
    with m(2) have "(sim_step kind ^^ Suc m) s (simulate n kind s')" by (rule relpowp_Suc_I2 [rotated])
    then show ?thesis using m(1,3) Cons by (intro exI [of _ "Suc m"]) simp
  qed
qed simp

lemma simulate_ends:
  assumes "sim_start kind = Inr s0"
  obtains m where "(sim_step kind ^^ m) s0 (simulate 30 kind s0)" and "sim_turns kind (simulate 30 kind s0) = []"
proof -
  obtain m where m: "(sim_step kind ^^ m) s0 (simulate 30 kind s0)"
    "m = 30 \<or> sim_turns kind (simulate 30 kind s0) = []" using simulate_run by blast
  have "m \<le> 16" using schedule_outcome [OF assms m(1)] by blast
  with m that show thesis by auto
qed

lemma sim_start_ok: "\<exists>s0. sim_start kind = Inr s0"
  using every_schedule [of kind] by (cases "sim_start kind") (simp_all add: every_schedule_def)

lemma run_simulation_reported: "run_simulation kind = Inr (reported kind)"
proof -
  obtain s0 where s0: "sim_start kind = Inr s0" using sim_start_ok by blast
  obtain m where "(sim_step kind ^^ m) s0 (simulate 30 kind s0)" "sim_turns kind (simulate 30 kind s0) = []"
    using simulate_ends [OF s0] .
  with schedule_outcome [OF s0] have "ends_well kind (simulate 30 kind s0)" by blast
  then show ?thesis by (simp add: run_simulation_def s0 sim_result_def ends_well_def)
qed

section \<open>Properties\<close>

text \<open>
  C38. The delivery semantics hold in every schedule.  Whatever the order in which the caller, the
  consumer and its handler take their turns, a simulation ends after at most sixteen
  turns, it never blocks before its end, and it returns the documented state: a lost
  message of at-most-once delivery has no effect, a lost acknowledgement repeats the
  effect of at-least-once delivery and applies the idempotent effect exactly once.
\<close>

theorem delivery_semantics:
  assumes "sim_start kind = Inr s0" and "(sim_step kind ^^ n) s0 s"
  shows "n \<le> 16 \<and> (sim_turns kind s = [] \<longrightarrow> sm_pc s = SimDone None \<and> sm_state s = reported kind)"
  using schedule_outcome [OF assms] by (simp add: ends_well_def)

theorem delivery_semantics_witness:
  "\<exists>s0 n s. sim_start (Redelivery True True) = Inr s0 \<and> (sim_step (Redelivery True True) ^^ n) s0 s \<and> n \<le> 16
     \<and> sm_pc s = SimDone None \<and> sg_effectApplications (sm_state s) = 1 \<and> sg_duplicatesSkipped (sm_state s) = Some 1"
proof -
  obtain s0 where s0: "sim_start (Redelivery True True) = Inr s0" using sim_start_ok by blast
  obtain n where run: "(sim_step (Redelivery True True) ^^ n) s0 (simulate 30 (Redelivery True True) s0)"
    and stop: "sim_turns (Redelivery True True) (simulate 30 (Redelivery True True) s0) = []"
    using simulate_ends [OF s0] .
  from delivery_semantics [OF s0 run] stop have
    "n \<le> 16 \<and> sm_pc (simulate 30 (Redelivery True True) s0) = SimDone None
      \<and> sm_state (simulate 30 (Redelivery True True) s0) = reported (Redelivery True True)" by simp
  then have "n \<le> 16 \<and> sm_pc (simulate 30 (Redelivery True True) s0) = SimDone None
      \<and> sg_effectApplications (sm_state (simulate 30 (Redelivery True True) s0)) = 1
      \<and> sg_duplicatesSkipped (sm_state (simulate 30 (Redelivery True True) s0)) = Some 1" by simp
  with s0 run show ?thesis by blast
qed

end
