(* ===== verification/Concurrency_Experiments.thy ===== *)
theory Concurrency_Experiments
  imports Inventory Redis_Lock
begin

text \<open>
  The experiments of \<open>packages/experiments/src/concurrency-experiments.js\<close>.  Each one
  builds its own store, runs the package's code on it and reports what it observed.

  What the runtime decides is an argument: \<open>Math.random\<close>, the clocks, and the order in which suspended
  calls continue, for each experiment that has several.  An experiment whose calls are not all over at the end
  of its order is still pending.
\<close>

record runtime =
  rt_random :: "nat \<Rightarrow> rat"
  rt_now :: "nat \<Rightarrow> string"
  rt_monotonic :: "nat \<Rightarrow> rat"
  rt_race_order :: "nat list"
  rt_chain_order :: "nat list"
  rt_worker_order :: "nat list"

definition still_pending :: exn where
  "still_pending = plain_error ''pending''"

record experiment_result =
  xr_observations :: "string list"
  xr_conclusion :: string

text \<open>\<open>name\<close>, \<open>title\<close> and the rest of an entry; \<open>run\<close> takes no argument.\<close>

record experiment_entry =
  xp_title :: string
  xp_demonstrates :: string
  xp_source :: string
  xp_commits :: "string list"
  xp_run :: "experiment_result result"

fun join :: "string \<Rightarrow> string list \<Rightarrow> string" where
  "join sep [] = []"
| "join sep [x] = x"
| "join sep (x # y # xs) = x @ sep @ join sep (y # xs)"

fun show_bool :: "bool \<Rightarrow> string" where
  "show_bool True = ''true''"
| "show_bool False = ''false''"

section \<open>Lost update\<close>

text \<open>
  Both calls read before either continues: \<open>Promise.all\<close> starts them in one turn, and \<open>getStock\<close> reads when it
  is called.
\<close>

definition runRaceCondition :: "runtime \<Rightarrow> experiment_result result" where
  "runRaceCondition rt =
     (let (stock, calls) = unsafe_run ([0, 1] @ filter (\<lambda>i. i < 2) (rt_race_order rt)) (10, [(3, UStart), (3, UStart)]);
          accepted = map (\<lambda>(q, pc). pc = UDone True) calls
      in if \<not> list_all (\<lambda>(q, pc). pc = UDone True \<or> pc = UDone False) calls then Inl still_pending
         else Inr \<lparr>xr_observations =
           [''Accepted reservations: '' @ show_nat (length (filter id accepted)),
            ''Expected stock: 4'',
            ''Actual stock: '' @ show_int stock],
         xr_conclusion = ''A lost update kept only one of two accepted reservations.''\<rparr>)"

section \<open>Optimistic lock\<close>

text \<open>The repository of the experiment: the first reservation meets a concurrent writer.\<close>

type_synonym raced_product = "product \<times> nat"

definition experiment_findById :: "(raced_product, product option) action" where
  "experiment_findById s = (s, Inr (Some (fst s)))"

definition experiment_reserveWithVersion :: "int \<Rightarrow> int \<Rightarrow> (raced_product, product option) action" where
  "experiment_reserveWithVersion quantity expectedVersion s =
     (let product = fst s; attempts = snd s + 1 in
      if attempts = 1 then ((product\<lparr>p_stock := 9, p_version := 2\<rparr>, attempts), Inr None)
      else if expectedVersion \<noteq> p_version product then ((product, attempts), Inr None)
      else (let product' = product\<lparr>p_stock := p_stock product - quantity, p_version := p_version product + 1\<rparr>
            in ((product', attempts), Inr (Some product'))))"

definition experiment_product :: product where
  "experiment_product = \<lparr>p_id = ''keyboard'', p_name = ''Mechanical Keyboard'', p_stock = 10, p_version = 1\<rparr>"

definition runOptimisticLock :: "experiment_result result" where
  "runOptimisticLock = (case createOptimisticInventoryReservation JUndefined of
      Inl e \<Rightarrow> Inl e
    | Inr maxAttempts \<Rightarrow>
        (case optimisticReserve experiment_findById experiment_reserveWithVersion maxAttempts
                (p_id experiment_product) (JInt 3) (experiment_product, 0) of
           (s, Inl e) \<Rightarrow> Inl e
         | ((product, attempts), Inr _) \<Rightarrow> Inr
             \<lparr>xr_observations =
               [''Reservation attempts: '' @ show_nat attempts,
                ''Final stock: '' @ show_int (p_stock product),
                ''Final version: '' @ show_int (p_version product)],
              xr_conclusion = ''The stale version conflicted, then a fresh read allowed a safe retry.''\<rparr>))"

section \<open>Pessimistic lock\<close>

text \<open>
  The lock is a chain of promises: each call of \<open>reserve\<close> awaits the one its predecessor
  resolves in its \<open>finally\<close> block.  \<open>Waiting\<close>: suspended on the predecessor.  \<open>Inside\<close>: holds
  the lock, suspended on \<open>Promise.resolve()\<close>.  \<open>Released\<close>: \<open>release()\<close> was called.
\<close>

datatype chain_pc = Waiting | Inside | Released

record chain =
  ch_stock :: int
  ch_completionOrder :: "nat list"
  ch_calls :: "chain_pc list"

definition predecessor_done :: "nat \<Rightarrow> chain_pc list \<Rightarrow> bool" where
  "predecessor_done i calls = (i = 0 \<or> calls ! (i - 1) = Released)"

text \<open>One turn of the \<open>i\<close>-th call; \<open>None\<close> when its promise is not resolved yet or it is over.\<close>

definition chain_step :: "nat \<Rightarrow> chain \<Rightarrow> chain option" where
  "chain_step i c =
     (if i < length (ch_calls c) then
        (case ch_calls c ! i of
           Waiting \<Rightarrow> if predecessor_done i (ch_calls c)
             then Some (c\<lparr>ch_calls := (ch_calls c)[i := Inside]\<rparr>) else None
         | Inside \<Rightarrow> Some (c\<lparr>ch_stock := ch_stock c - 3, ch_completionOrder := ch_completionOrder c @ [i],
                            ch_calls := (ch_calls c)[i := Released]\<rparr>)
         | Released \<Rightarrow> None)
      else None)"

definition chain_start :: "int \<Rightarrow> nat \<Rightarrow> chain" where
  "chain_start stock n = \<lparr>ch_stock = stock, ch_completionOrder = [], ch_calls = replicate n Waiting\<rparr>"

inductive chain_reachable :: "int \<Rightarrow> nat \<Rightarrow> chain \<Rightarrow> bool" for stock n where
  chain_init: "chain_reachable stock n (chain_start stock n)"
| chain_next: "chain_reachable stock n c \<Longrightarrow> chain_step i c = Some c' \<Longrightarrow> chain_reachable stock n c'"

text \<open>Turns in a given order; a call that cannot continue yet is passed over.\<close>

fun chain_turns :: "nat list \<Rightarrow> chain \<Rightarrow> chain" where
  "chain_turns [] c = c"
| "chain_turns (i # is) c = chain_turns is (case chain_step i c of Some c' \<Rightarrow> c' | None \<Rightarrow> c)"

text \<open>The calls before the \<open>k\<close>-th are over, at most the \<open>k\<close>-th is inside, the rest wait.\<close>

definition chain_inv :: "int \<Rightarrow> nat \<Rightarrow> chain \<Rightarrow> bool" where
  "chain_inv stock n c \<longleftrightarrow> (\<exists>k\<le>n. ch_completionOrder c = [0..<k] \<and> ch_stock c = stock - 3 * int k
     \<and> (ch_calls c = replicate k Released @ replicate (n - k) Waiting
       \<or> k < n \<and> ch_calls c = replicate k Released @ Inside # replicate (n - k - 1) Waiting))"

lemma chain_invE:
  assumes "chain_inv stock n c"
  obtains k where "k \<le> n" "ch_completionOrder c = [0..<k]" "ch_stock c = stock - 3 * int k"
    "ch_calls c = replicate k Released @ replicate (n - k) Waiting
     \<or> k < n \<and> ch_calls c = replicate k Released @ Inside # replicate (n - k - 1) Waiting"
  using assms unfolding chain_inv_def by blast

lemma chain_enter: "k < n \<Longrightarrow>
  (replicate k Released @ replicate (n - k) Waiting)[k := Inside] = replicate k Released @ Inside # replicate (n - k - 1) Waiting"
  by (cases "n - k") (simp_all add: list_update_append)

lemma chain_leave: "k < n \<Longrightarrow>
  (replicate k Released @ Inside # replicate (n - k - 1) Waiting)[k := Released]
    = replicate (Suc k) Released @ replicate (n - Suc k) Waiting"
  by (simp add: list_update_append replicate_append_same)

lemma chain_step_inv:
  assumes "chain_inv stock n c" and step: "chain_step i c = Some c'"
  shows "chain_inv stock n c'"
  using assms(1)
proof (rule chain_invE)
  fix k
  assume k: "k \<le> n" "ch_completionOrder c = [0..<k]" "ch_stock c = stock - 3 * int k"
    and calls: "ch_calls c = replicate k Released @ replicate (n - k) Waiting
     \<or> k < n \<and> ch_calls c = replicate k Released @ Inside # replicate (n - k - 1) Waiting"
  have i: "i < n" using step calls k(1) by (auto simp: chain_step_def split: if_splits)
  show ?thesis
    using calls
  proof
    assume free: "ch_calls c = replicate k Released @ replicate (n - k) Waiting"
    have "\<not> i < k" using step i free by (auto simp: chain_step_def nth_append split: if_splits)
    then have waiting: "ch_calls c ! i = Waiting" using i free by (simp add: nth_append)
    have "i = k"
      using step waiting i free \<open>\<not> i < k\<close>
      by (auto simp: chain_step_def predecessor_done_def nth_append split: if_splits)
    then have "ch_calls c' = replicate k Released @ Inside # replicate (n - k - 1) Waiting"
      and "ch_completionOrder c' = ch_completionOrder c" "ch_stock c' = ch_stock c"
      using step waiting i free chain_enter [of k n] by (auto simp: chain_step_def split: if_splits)
    then show ?thesis using k i \<open>i = k\<close> unfolding chain_inv_def by auto
  next
    assume held: "k < n \<and> ch_calls c = replicate k Released @ Inside # replicate (n - k - 1) Waiting"
    have "\<not> i < k" using step i held by (auto simp: chain_step_def nth_append split: if_splits)
    moreover have "\<not> k < i"
      using step i held
      by (auto simp: chain_step_def predecessor_done_def nth_append nth_Cons' split: if_splits)
    ultimately have "i = k" by simp
    then have "ch_calls c' = replicate (Suc k) Released @ replicate (n - Suc k) Waiting"
      and "ch_completionOrder c' = [0..<Suc k]" "ch_stock c' = stock - 3 * int (Suc k)"
      using step held k chain_leave [of k n] by (auto simp: chain_step_def nth_append)
    then show ?thesis using held unfolding chain_inv_def by (intro exI [of _ "Suc k"]) auto
  qed
qed

lemma chain_reachable_inv: "chain_reachable stock n c \<Longrightarrow> chain_inv stock n c"
proof (induction rule: chain_reachable.induct)
  case chain_init
  show ?case unfolding chain_inv_def chain_start_def by (intro exI [of _ 0]) simp
next
  case (chain_next c i c')
  then show ?case using chain_step_inv by blast
qed

lemma chain_progress:
  assumes "chain_inv stock n c" and "length (ch_completionOrder c) \<noteq> n"
  shows "\<exists>i c'. chain_step i c = Some c'"
  using assms(1)
proof (rule chain_invE)
  fix k
  assume k: "k \<le> n" "ch_completionOrder c = [0..<k]"
    and calls: "ch_calls c = replicate k Released @ replicate (n - k) Waiting
     \<or> k < n \<and> ch_calls c = replicate k Released @ Inside # replicate (n - k - 1) Waiting"
  have "k < n" using k assms(2) by simp
  then have "\<exists>c'. chain_step k c = Some c'"
    using calls by (auto simp: chain_step_def predecessor_done_def nth_append)
  then show ?thesis by blast
qed

definition orderId :: "nat \<Rightarrow> string" where
  "orderId i = ''order-'' @ show_nat (i + 1)"

definition runPessimisticLock :: "runtime \<Rightarrow> experiment_result result" where
  "runPessimisticLock rt =
     (let c = chain_turns (rt_chain_order rt) (chain_start 10 2)
      in if \<not> list_all (\<lambda>pc. pc = Released) (ch_calls c) then Inl still_pending
         else Inr \<lparr>xr_observations =
           [''Completion order: '' @ join '', '' (map orderId (ch_completionOrder c)),
            ''Final stock: '' @ show_int (ch_stock c)],
         xr_conclusion = ''Exclusive access serialized both reservations and preserved every update.''\<rparr>)"

section \<open>Idempotency\<close>

type_synonym memo = "(string \<rightharpoonup> string) \<times> nat"

definition createOrderOnce :: "string \<Rightarrow> memo \<Rightarrow> memo \<times> string" where
  "createOrderOnce idempotencyKey m = (case m of (results, ordersCreated) \<Rightarrow>
     (case results idempotencyKey of
        Some i \<Rightarrow> (m, i)
      | None \<Rightarrow> (let i = ''order-'' @ show_nat (ordersCreated + 1)
                in ((results(idempotencyKey \<mapsto> i), ordersCreated + 1), i))))"

fun create_all :: "string list \<Rightarrow> memo \<Rightarrow> memo \<times> string list" where
  "create_all [] m = (m, [])"
| "create_all (k # ks) m = (case createOrderOnce k m of (m1, i) \<Rightarrow>
     (case create_all ks m1 of (m2, is) \<Rightarrow> (m2, i # is)))"

text \<open>\<open>[...new Set(ids)]\<close> keeps the first occurrence of each value.\<close>

definition unique :: "string list \<Rightarrow> string list" where
  "unique xs = rev (remdups (rev xs))"

definition runIdempotency :: "experiment_result result" where
  "runIdempotency =
     (let (m, orders) = create_all [''checkout-123'', ''checkout-123'', ''checkout-123''] (Map.empty, 0)
      in Inr \<lparr>xr_observations =
           [''Requests: '' @ show_nat (length orders),
            ''Orders created: '' @ show_nat (snd m),
            ''Returned order IDs: '' @ join '', '' (unique orders)],
         xr_conclusion = ''Every retry resolved to the single result stored for its idempotency key.''\<rparr>)"

section \<open>Distributed lock\<close>

definition lock_prefix :: string where
  "lock_prefix = ''order-system:lock:''"

definition runDistributedLock :: "experiment_result result" where
  "runDistributedLock =
     (let (s1, r1) = acquire experiment_client lock_prefix ''worker-1-token'' ''inventory:keyboard'' (JInt 1000) None;
          (s2, r2) = acquire experiment_client lock_prefix ''worker-2-token'' ''inventory:keyboard'' (JInt 1000) s1
      in case r1 of Inl e \<Rightarrow> Inl e
       | Inr lease1 \<Rightarrow> (case r2 of Inl e \<Rightarrow> Inl e
         | Inr lease2 \<Rightarrow>
             (case List.map_filter id [lease1, lease2] of
                [] \<Rightarrow> Inl (type_error ''Cannot read properties of undefined'')
              | l # ls \<Rightarrow> (case release experiment_client lock_prefix l s2 of
                    (s3, Inl e) \<Rightarrow> Inl e
                  | (s3, Inr released) \<Rightarrow> Inr
                      \<lparr>xr_observations =
                        [''Acquired leases: '' @ show_nat (length (l # ls)),
                         ''Second owner acquired: '' @ show_bool (lease2 \<noteq> None),
                         ''Released by owner: '' @ show_bool released],
                       xr_conclusion = ''A token-owned lease admitted one owner and rejected its contender.''\<rparr>))))"

section \<open>The table\<close>

definition createConcurrencyExperiments :: "runtime \<Rightarrow> (string \<times> experiment_entry) list" where
  "createConcurrencyExperiments rt = [
     (''race-condition'',
      \<lparr>xp_title = ''Lost inventory update'',
       xp_demonstrates = ''Concurrent read-modify-write can discard a valid stock reservation.'',
       xp_source = ''packages/concurrency/src/index.js'',
       xp_commits = [''3c03007'', ''be69c50''],
       xp_run = runRaceCondition rt\<rparr>),
     (''optimistic-lock'',
      \<lparr>xp_title = ''Optimistic inventory locking'',
       xp_demonstrates = ''Version conflicts force a bounded retry from fresh state.'',
       xp_source = ''packages/concurrency/src/index.js'',
       xp_commits = [''470ba83'', ''110544d''],
       xp_run = runOptimisticLock\<rparr>),
     (''pessimistic-lock'',
      \<lparr>xp_title = ''Pessimistic inventory locking'',
       xp_demonstrates = ''Exclusive access serializes competing inventory updates.'',
       xp_source = ''packages/experiments/src/concurrency-experiments.js'',
       xp_commits = [''a39afbe'', ''6c95717''],
       xp_run = runPessimisticLock rt\<rparr>),
     (''idempotency'',
      \<lparr>xp_title = ''Retry-safe order creation'',
       xp_demonstrates = ''One idempotency key resolves repeated requests to one order.'',
       xp_source = ''packages/experiments/src/concurrency-experiments.js'',
       xp_commits = [''a39afbe'', ''6c95717''],
       xp_run = runIdempotency\<rparr>),
     (''distributed-lock'',
      \<lparr>xp_title = ''Token-owned distributed lock'',
       xp_demonstrates = ''A shared lease admits one owner and rejects concurrent contenders.'',
       xp_source = ''packages/locks/src/index.js'',
       xp_commits = [''dd3cff3'', ''642cadd''],
       xp_run = runDistributedLock\<rparr>)]"

section \<open>Properties\<close>

text \<open>
  A chain of promises is a lock.  However the turns of any number of concurrent
  reservations are ordered, at most one of them is inside, they complete in the order of
  their calls, every completed one has taken its quantity exactly once, and as long as
  one is not over some call can take its turn.
\<close>

theorem promise_chain_serializes:
  assumes "chain_reachable stock n c"
  shows "ch_completionOrder c = [0..<length (ch_completionOrder c)]
    \<and> ch_stock c = stock - 3 * int (length (ch_completionOrder c))
    \<and> length (filter (\<lambda>pc. pc = Inside) (ch_calls c)) \<le> 1
    \<and> (length (ch_completionOrder c) = n \<or> (\<exists>i c'. chain_step i c = Some c'))"
proof -
  note inv = chain_reachable_inv [OF assms]
  show ?thesis
  proof (rule chain_invE [OF inv])
    fix k
    assume "k \<le> n" "ch_completionOrder c = [0..<k]" "ch_stock c = stock - 3 * int k"
      "ch_calls c = replicate k Released @ replicate (n - k) Waiting
        \<or> k < n \<and> ch_calls c = replicate k Released @ Inside # replicate (n - k - 1) Waiting"
    then show ?thesis using chain_progress [OF inv] by (cases "k = n") auto
  qed
qed

lemma chain_turns_reachable: "chain_reachable stock n c \<Longrightarrow> chain_reachable stock n (chain_turns is c)"
  by (induction "is" arbitrary: c) (auto intro: chain_next split: option.split)

theorem promise_chain_serializes_witness:
  "chain_reachable 10 2 (chain_turns [1, 0, 0, 1] (chain_start 10 2))
   \<and> ch_calls (chain_turns [1, 0, 0, 1] (chain_start 10 2)) = [Released, Inside]
   \<and> ch_stock (chain_turns [1, 0, 0, 1] (chain_start 10 2))
      = 10 - 3 * int (length (ch_completionOrder (chain_turns [1, 0, 0, 1] (chain_start 10 2))))
   \<and> length (filter (\<lambda>pc. pc = Inside) (ch_calls (chain_turns [1, 0, 0, 1] (chain_start 10 2)))) \<le> 1"
proof -
  have r: "chain_reachable 10 2 (chain_turns [1, 0, 0, 1] (chain_start 10 2))" by (intro chain_turns_reachable chain_init)
  have "ch_calls (chain_turns [1, 0, 0, 1] (chain_start 10 2)) = [Released, Inside]" by code_simp
  with r promise_chain_serializes [OF r] show ?thesis by blast
qed

section \<open>What the experiments with several calls report\<close>

definition raced :: "unsafe_pc \<Rightarrow> unsafe_pc \<Rightarrow> int \<times> (int \<times> unsafe_pc) list" where
  "raced p q = (if p = URead 10 \<and> q = URead 10 then 10 else 7, [(3, p), (3, q)])"

lemma race_turns:
  "{p, q} \<subseteq> {URead 10, UDone True} \<Longrightarrow>
   \<exists>p' q'. {p', q'} \<subseteq> {URead 10, UDone True} \<and> unsafe_run (filter (\<lambda>i. i < 2) is) (raced p q) = raced p' q'"
proof (induction "is" arbitrary: p q)
  case (Cons i "is")
  have done_is: "{UDone True, q} \<subseteq> {URead 10, UDone True}" "{p, UDone True} \<subseteq> {URead 10, UDone True}"
    using Cons.prems by auto
  consider "i = 0" | "i = 1" | "2 \<le> i" by linarith
  then show ?case
  proof cases
    case 1
    have "unsafe_run (filter (\<lambda>i. i < 2) (i # is)) (raced p q) = unsafe_run (filter (\<lambda>i. i < 2) is) (raced (UDone True) q)"
      using Cons.prems 1 by (auto simp: raced_def unsafe_step_def)
    then show ?thesis using Cons.IH [OF done_is(1)] by simp
  next
    case 2
    have "unsafe_run (filter (\<lambda>i. i < 2) (i # is)) (raced p q) = unsafe_run (filter (\<lambda>i. i < 2) is) (raced p (UDone True))"
      using Cons.prems 2 by (auto simp: raced_def unsafe_step_def)
    then show ?thesis using Cons.IH [OF done_is(2)] by simp
  next
    case 3
    then show ?thesis using Cons by simp
  qed
qed auto

text \<open>In any order that lets both calls end, one of the two updates is lost.\<close>

lemma race_condition_report:
  "runRaceCondition rt = Inl still_pending \<or> map_sum id xr_observations (runRaceCondition rt)
     = Inr [''Accepted reservations: 2'', ''Expected stock: 4'', ''Actual stock: 7'']"
proof -
  have "unsafe_run ([0, 1] @ filter (\<lambda>i. i < 2) (rt_race_order rt)) (10, [(3, UStart), (3, UStart)])
      = unsafe_run (filter (\<lambda>i. i < 2) (rt_race_order rt)) (raced (URead 10) (URead 10))"
    by (simp add: unsafe_step_def raced_def)
  then obtain p q where pq: "{p, q} \<subseteq> {URead 10, UDone True}"
    and run: "unsafe_run ([0, 1] @ filter (\<lambda>i. i < 2) (rt_race_order rt)) (10, [(3, UStart), (3, UStart)]) = raced p q"
    using race_turns [of "URead 10" "URead 10" "rt_race_order rt"] by auto
  have shown: "show_nat (Suc (Suc 0)) = ''2''" "show_int 7 = ''7''" by code_simp+
  show ?thesis
    using pq unfolding runRaceCondition_def run by (auto simp: raced_def shown)
qed

text \<open>In any order that lets both calls end, both updates are kept.\<close>

lemma pessimistic_lock_report:
  "runPessimisticLock rt = Inl still_pending \<or> map_sum id xr_observations (runPessimisticLock rt)
     = Inr [''Completion order: order-1, order-2'', ''Final stock: 4'']"
proof -
  let ?c = "chain_turns (rt_chain_order rt) (chain_start 10 2)"
  have "chain_inv 10 2 ?c" by (rule chain_reachable_inv [OF chain_turns_reachable [OF chain_init]])
  then obtain k where k: "k \<le> 2" "ch_completionOrder ?c = [0..<k]" "ch_stock ?c = 10 - 3 * int k"
    "ch_calls ?c = replicate k Released @ replicate (2 - k) Waiting
     \<or> k < 2 \<and> ch_calls ?c = replicate k Released @ Inside # replicate (2 - k - 1) Waiting" by (rule chain_invE)
  have shown: "join '', '' (map orderId [0..<2]) = ''order-1, order-2''" "show_int 4 = ''4''" by code_simp+
  show ?thesis
  proof (cases "k = 2")
    case True
    then show ?thesis using k shown by (simp add: runPessimisticLock_def Let_def)
  next
    case False
    then have "k = 0 \<or> k = 1" using k(1) by linarith
    then have "\<not> list_all (\<lambda>pc. pc = Released) (ch_calls ?c)" using k(4) by (auto simp: numeral_2_eq_2)
    then show ?thesis by (simp add: runPessimisticLock_def Let_def)
  qed
qed

end
