(* ===== verification/Messaging_Experiments.thy ===== *)
theory Messaging_Experiments
  imports Concurrency_Experiments Messaging_Semantics Retry_Policy Worker_Pool
begin

text \<open>
  The experiments of \<open>packages/experiments/src/messaging-experiments.js\<close>, on the models of
  the packages they run.
\<close>

section \<open>Retries\<close>

definition default_queue :: "queue result" where
  "default_queue = createInMemoryQueue JUndefined JUndefined"

definition publish_result :: "queue \<Rightarrow> jsval \<Rightarrow> unit result" where
  "publish_result q m = (case publish 0 m q of (_, PubRejected e) \<Rightarrow> Inl e | _ \<Rightarrow> Inr ())"

text \<open>The \<open>finally\<close> block: \<open>shutdown\<close> of a queue without a consumer returns at once.\<close>

definition closing :: "queue \<Rightarrow> 'a result \<Rightarrow> 'a result" where
  "closing q r = (case shutdown 0 q of
      (_, _, True) \<Rightarrow> r | (_, _, False) \<Rightarrow> Inl (still_pending))"

lemma closing_idle [simp]: "mq_active q = None \<Longrightarrow> closing q r = r"
  by (simp add: closing_def shutdown_def Let_def)

definition retries_env :: "runtime \<Rightarrow> queue \<Rightarrow> string retry_env" where
  "retries_env rt deadLetterQueue = \<lparr>
     re_operation = (\<lambda>attempts. if attempts < 3 then Inl (TransientError ''temporary dependency failure'')
        else Inr ''processed''),
     re_delay = (\<lambda>_ milliseconds. Inr ()),
     re_random = (\<lambda>attempt. Inr (Fin (rt_random rt attempt))),
     re_now = (\<lambda>n. Inr (rt_now rt n)),
     re_publish = publish_result deadLetterQueue,
     re_str = js_str\<rparr>"

fun delays_of :: "retry_call list \<Rightarrow> int list" where
  "delays_of [] = []"
| "delays_of (DelayCall d # calls) = d # delays_of calls"
| "delays_of (_ # calls) = delays_of calls"

definition stored_letters :: "retry_call list \<Rightarrow> queue \<Rightarrow> queue" where
  "stored_letters calls q = fold (\<lambda>m q'. fst (publish 0 m q')) (publications calls) q"

definition runRetries :: "runtime \<Rightarrow> experiment_result result" where
  "runRetries rt = (case default_queue of
      Inl e \<Rightarrow> Inl e
    | Inr deadLetterQueue \<Rightarrow>
        (case executeWithRetry (retries_env rt deadLetterQueue)
                \<lparr>ro_maxAttempts = JInt 3, ro_baseDelayMs = JUndefined, ro_jitterRatio = JInt 0\<rparr>
                semantics_message of
           (Inl e, calls) \<Rightarrow> closing (stored_letters calls deadLetterQueue) (Inl e)
         | (Inr r, calls) \<Rightarrow> closing (stored_letters calls deadLetterQueue) (Inr
             \<lparr>xr_observations =
               [''Attempts: '' @ show_nat (length (operations calls)),
                ''Backoff delays: '' @ join '', '' (map (\<lambda>d. show_int d @ ''ms'') (delays_of calls)),
                ''Dead letters: '' @ show_nat (qm_queueDepth (getMetrics (stored_letters calls deadLetterQueue)))],
              xr_conclusion = ''Two transient failures backed off before the third attempt succeeded.''\<rparr>)))"

section \<open>Deduplication\<close>

definition show_count :: "nat option \<Rightarrow> string" where
  "show_count n = (case n of None \<Rightarrow> ''undefined'' | Some k \<Rightarrow> show_nat k)"

definition runDeduplication :: "experiment_result result" where
  "runDeduplication = (case simulateIdempotentEffects True of
      Inl e \<Rightarrow> Inl e
    | Inr state \<Rightarrow> Inr
        \<lparr>xr_observations =
          [''Delivery attempts: '' @ show_nat (sg_deliveryAttempts state),
           ''Effect applications: '' @ show_nat (sg_effectApplications state),
           ''Duplicates skipped: '' @ show_count (sg_duplicatesSkipped state)],
         xr_conclusion = ''Redelivery repeated the handler but the stable message ID protected the effect.''\<rparr>)"

section \<open>Worker pool\<close>

text \<open>
  The handler's two counters beside the pool, and the jobs whose handler is suspended at its \<open>await\<close>.
  A job has two turns: first its handler runs on after the \<open>await\<close> and returns the job, then
  the pool's call of it continues with that result.
\<close>

record worker_run =
  wr_pool :: pool
  wr_activeWorkers :: nat
  wr_maximumActiveWorkers :: nat
  wr_awaiting :: "nat list"

definition handler_started :: "pool_out \<Rightarrow> worker_run \<Rightarrow> worker_run" where
  "handler_started out w = (case out of
      JobStarted i _ \<Rightarrow> w\<lparr>wr_activeWorkers := wr_activeWorkers w + 1,
        wr_maximumActiveWorkers := max (wr_maximumActiveWorkers w) (wr_activeWorkers w + 1),
        wr_awaiting := wr_awaiting w @ [i]\<rparr>
    | _ \<Rightarrow> w)"

definition pool_turn :: "pool_env \<Rightarrow> pool_event \<Rightarrow> worker_run \<Rightarrow> worker_run option" where
  "pool_turn env ev w = (case pool_step env (wr_pool w) ev of
      None \<Rightarrow> None
    | Some (p, outs) \<Rightarrow> Some (fold handler_started outs (w\<lparr>wr_pool := p\<rparr>)))"

definition worker_turn :: "pool_env \<Rightarrow> nat \<Rightarrow> worker_run \<Rightarrow> worker_run option" where
  "worker_turn env i w =
     (if i \<in> set (wr_awaiting w)
      then Some (w\<lparr>wr_activeWorkers := wr_activeWorkers w - 1, wr_awaiting := remove1 i (wr_awaiting w)\<rparr>)
      else (case find_running i (wr_pool w) of
          None \<Rightarrow> None
        | Some ((_, job), _) \<Rightarrow> pool_turn env (HandlerSettles i (Inr job)) w))"

fun worker_turns :: "pool_env \<Rightarrow> nat list \<Rightarrow> worker_run \<Rightarrow> worker_run option" where
  "worker_turns env [] w = Some w"
| "worker_turns env (i # is) w = (case worker_turn env i w of None \<Rightarrow> None | Some w' \<Rightarrow> worker_turns env is w')"

fun submit_jobs :: "pool_env \<Rightarrow> int list \<Rightarrow> worker_run \<Rightarrow> worker_run option" where
  "submit_jobs env [] w = Some w"
| "submit_jobs env (j # js) w = (case pool_turn env (Submit (JInt j)) w of
      None \<Rightarrow> None
    | Some w' \<Rightarrow> submit_jobs env js w')"

definition worker_jobs :: "int list" where
  "worker_jobs = [0, 1, 2, 3, 4, 5]"

definition worker_env :: "runtime \<Rightarrow> pool_env" where
  "worker_env rt = \<lparr>pe_throws = (\<lambda>_. None), pe_now = rt_monotonic rt\<rparr>"

text \<open>The first turn of the experiment creates the pool and submits the jobs.\<close>

definition worker_start :: "runtime \<Rightarrow> worker_run result" where
  "worker_start rt = (case createWorkerPool (worker_env rt) (JInt 2) of
      Inl e \<Rightarrow> Inl e
    | Inr pool \<Rightarrow> (case submit_jobs (worker_env rt) worker_jobs
          \<lparr>wr_pool = pool, wr_activeWorkers = 0, wr_maximumActiveWorkers = 0, wr_awaiting = []\<rparr> of
        None \<Rightarrow> Inl still_pending
      | Some w \<Rightarrow> Inr w))"

definition runWorkerPool :: "runtime \<Rightarrow> experiment_result result" where
  "runWorkerPool rt = (case worker_start rt of
      Inl e \<Rightarrow> Inl e
    | Inr w0 \<Rightarrow> (case worker_turns (worker_env rt) (rt_worker_order rt) w0 of
        None \<Rightarrow> Inl still_pending
      | Some w \<Rightarrow> (if pool_load (wr_pool w) \<noteq> 0 then Inl still_pending
          else let (p, metrics) = getPoolMetrics (worker_env rt) (wr_pool w) in
             if PoolShutdownResolved \<notin> set (snd (shutdownPool p)) then Inl still_pending
             else Inr \<lparr>xr_observations =
               [''Jobs submitted: '' @ show_nat (length worker_jobs),
                ''Maximum active workers: '' @ show_nat (wr_maximumActiveWorkers w),
                ''Successful jobs: '' @ show_nat (pm_successfulJobs metrics)],
              xr_conclusion = ''The pool drained every job without exceeding its configured concurrency.''\<rparr>)))"

section \<open>Backpressure\<close>

text \<open>The \<open>try\<close> block, message by message: a rejection ends it.\<close>

fun publish_each :: "jsval list \<Rightarrow> queue \<Rightarrow> nat \<Rightarrow> queue \<times> nat \<times> publish_outcome" where
  "publish_each [] q acceptedCount = (q, acceptedCount, PubResolved)"
| "publish_each (m # ms) q acceptedCount = (case publish 0 m q of
      (q', PubResolved) \<Rightarrow> publish_each ms q' (acceptedCount + 1)
    | (q', r) \<Rightarrow> (q', acceptedCount, r))"

definition runBackpressure :: "experiment_result result" where
  "runBackpressure = (case createInMemoryQueue (JInt 1) JUndefined of
      Inl e \<Rightarrow> Inl e
    | Inr q \<Rightarrow>
        (let report = (\<lambda>acceptedCount rejectedCount. Inr
             \<lparr>xr_observations =
               [''Queue capacity: 1'',
                ''Accepted messages: '' @ show_nat acceptedCount,
                ''Rejected messages: '' @ show_nat rejectedCount],
              xr_conclusion = ''The bounded queue rejected excess work instead of growing without limit.''\<rparr>)
         in case publish_each [JObj [(''messageId'', JStr ''message-1'')], JObj [(''messageId'', JStr ''message-2'')]] q 0 of
              (q', acceptedCount, PubResolved) \<Rightarrow> closing q' (report acceptedCount 0)
            | (q', acceptedCount, PubRejected e) \<Rightarrow> closing q'
                (if exn_code e \<noteq> Some ''QUEUE_CAPACITY_EXCEEDED'' then Inl e else report acceptedCount 1)
            | (q', acceptedCount, PubWaiting) \<Rightarrow> Inl (still_pending)))"

section \<open>The table\<close>

definition createMessagingExperiments :: "runtime \<Rightarrow> (string \<times> experiment_entry) list" where
  "createMessagingExperiments rt = [
     (''retries'',
      \<lparr>xp_title = ''Bounded transient retries'',
       xp_demonstrates = ''Exponential backoff retries safe transient failures without busy looping.'',
       xp_source = ''packages/retries/src/index.js'',
       xp_commits = [''c861e1c'', ''fc4c983''],
       xp_run = runRetries rt\<rparr>),
     (''deduplication'',
      \<lparr>xp_title = ''Idempotent message effects'',
       xp_demonstrates = ''A stable message ID prevents repeated effects after redelivery.'',
       xp_source = ''packages/queue/src/messaging-semantics.js'',
       xp_commits = [''10b051d'', ''b4a0219''],
       xp_run = runDeduplication\<rparr>),
     (''worker-pool'',
      \<lparr>xp_title = ''Bounded worker concurrency'',
       xp_demonstrates = ''A fixed worker count drains a backlog without unbounded parallelism.'',
       xp_source = ''apps/worker/src/worker-pool.js'',
       xp_commits = [''ebd2980'', ''c69ef04''],
       xp_run = runWorkerPool rt\<rparr>),
     (''backpressure'',
      \<lparr>xp_title = ''Bounded queue backpressure'',
       xp_demonstrates = ''Capacity limits shed excess load when producers outrun consumers.'',
       xp_source = ''packages/queue/src/index.js'',
       xp_commits = [''f8afd73'', ''97c4446''],
       xp_run = runBackpressure\<rparr>)]"

section \<open>What the experiments report\<close>

lemma optimistic_lock_report:
  "map_sum id xr_observations runOptimisticLock
     = Inr [''Reservation attempts: 2'', ''Final stock: 6'', ''Final version: 3'']"
  by code_simp

lemma idempotency_report:
  "map_sum id xr_observations runIdempotency
     = Inr [''Requests: 3'', ''Orders created: 1'', ''Returned order IDs: order-1'']"
  by code_simp

lemma distributed_lock_report:
  "map_sum id xr_observations runDistributedLock
     = Inr [''Acquired leases: 1'', ''Second owner acquired: false'', ''Released by owner: true'']"
  by code_simp

lemma backpressure_report:
  "map_sum id xr_observations runBackpressure
     = Inr [''Queue capacity: 1'', ''Accepted messages: 1'', ''Rejected messages: 1'']"
  by code_simp

lemma deduplication_report:
  "map_sum id xr_observations runDeduplication
     = Inr [''Delivery attempts: 2'', ''Effect applications: 1'', ''Duplicates skipped: 1'']"
proof -
  have "show_nat 1 = ''1''" "show_nat 2 = ''2''" by code_simp+
  then show ?thesis
    by (simp add: runDeduplication_def simulateIdempotentEffects_def run_simulation_reported show_count_def
        numeral_2_eq_2)
qed

lemma retries_env_simps [simp]:
  "re_operation (retries_env rt q) k = (if k < 3 then Inl (TransientError ''temporary dependency failure'')
     else Inr ''processed'')"
  "re_delay (retries_env rt q) k d = Inr ()" "re_random (retries_env rt q) k = Inr (Fin (rt_random rt k))"
  "re_now (retries_env rt q) k = Inr (rt_now rt k)"
  by (simp_all add: retries_env_def)

lemma retries_report:
  assumes "\<And>k. 0 \<le> rt_random rt k \<and> rt_random rt k \<le> 1"
  shows "map_sum id xr_observations (runRetries rt)
     = Inr [''Attempts: 3'', ''Backoff delays: 1000ms, 2000ms'', ''Dead letters: 0'']"
proof -
  obtain q where q: "default_queue = Inr q" and empty: "qm_queueDepth (getMetrics q) = 0" "mq_active q = None"
    by (simp add: default_queue_def createInMemoryQueue_def getMetrics_def)
  let ?opts = "\<lparr>ro_maxAttempts = JInt 3, ro_baseDelayMs = JUndefined, ro_jitterRatio = JInt 0\<rparr>"
  let ?env = "retries_env rt q"
  have range: "\<not> (rt_random rt k < 0 \<or> 1 < rt_random rt k)" for k using assms [of k] by auto
  define cfg where "cfg = retry_config_of ?opts semantics_message (rt_now rt 0)"
  have cfg: "rc_maxAttempts cfg = 3" "rc_baseDelayMs cfg = 1000" "rc_jitterRatio cfg = 0"
    by (simp_all add: cfg_def retry_config_of_def with_default_def rat_of_js_def)
  have "retry_loop ?env cfg 3 = (Inr ''processed'', [OperationCall 3])"
    by (simp add: retry_loop.simps [of ?env cfg 3] cfg)
  then have "retry_loop ?env cfg 2 = (Inr ''processed'', [OperationCall 2, DelayCall 2000, OperationCall 3])"
    by (simp add: retry_loop.simps [of ?env cfg 2] cfg classifyError_def retryDelay_def range)
  then have "retry_loop ?env cfg 1 = (Inr ''processed'',
      [OperationCall 1, DelayCall 1000, OperationCall 2, DelayCall 2000, OperationCall 3])"
    unfolding retry_loop.simps [of ?env cfg 1] one_add_one
    by (simp add: cfg classifyError_def retryDelay_def range del: One_nat_def)
  moreover have "executeWithRetry ?env ?opts semantics_message = retry_loop ?env cfg 1"
    by (simp add: executeWithRetry_def cfg_def with_default_def is_positive_finite_def is_unit_ratio_def
        structuredClone_def semantics_message_def)
  ultimately have run: "executeWithRetry ?env ?opts semantics_message = (Inr ''processed'',
      [OperationCall 1, DelayCall 1000, OperationCall 2, DelayCall 2000, OperationCall 3])" by simp
  have shown: "show_nat (Suc (Suc (Suc 0))) = ''3''" "show_nat 0 = ''0''" "show_int 1000 @ ''ms'' = ''1000ms''"
    "show_int 2000 @ ''ms'' = ''2000ms''" by code_simp+
  show ?thesis
    unfolding runRetries_def q sum.case run prod.case
    by (simp add: empty stored_letters_def shown eval_nat_numeral)
qed

section \<open>The pool experiment in any order\<close>

definition worker_turns_left :: "worker_run \<Rightarrow> nat" where
  "worker_turns_left w = 2 * length (wp_pendingJobs (wr_pool w)) + length (wp_running (wr_pool w)) + length (wr_awaiting w)"

definition worker_inv :: "worker_run \<Rightarrow> bool" where
  "worker_inv w \<longleftrightarrow> pool_inv (wr_pool w) \<and> wp_maximumWorkers (wr_pool w) = 2
     \<and> wr_activeWorkers w = length (wr_awaiting w) \<and> mset (wr_awaiting w) \<subseteq># mset (running_ids (wr_pool w))
     \<and> wr_maximumActiveWorkers w = 2
     \<and> wp_successfulJobs (wr_pool w) + pool_load (wr_pool w) = 6 \<and> wp_acceptingJobs (wr_pool w)"

lemma handlers_started:
  "fold handler_started outs w = w\<lparr>wr_awaiting := wr_awaiting w @ map fst (started outs),
     wr_activeWorkers := wr_activeWorkers w + length (started outs),
     wr_maximumActiveWorkers := (if started outs = [] then wr_maximumActiveWorkers w
       else max (wr_maximumActiveWorkers w) (wr_activeWorkers w + length (started outs)))\<rparr>"
proof (induction outs arbitrary: w)
  case (Cons x outs)
  then show ?case by (cases x) (auto simp: handler_started_def)
qed simp

text \<open>A submission to a pool with a free worker starts its handler, one to a busy pool waits.\<close>

lemma submit_turn:
  assumes "pe_throws env = (\<lambda>_. None)" "wp_acceptingJobs (wr_pool w)" "\<not> wp_dispatching (wr_pool w)"
  shows "wp_activeWorkers (wr_pool w) < wp_maximumWorkers (wr_pool w) \<Longrightarrow> wp_pendingJobs (wr_pool w) = [] \<Longrightarrow>
      pool_turn env (Submit job) w = Some (w\<lparr>wr_pool := (wr_pool w)\<lparr>wp_activeWorkers := wp_activeWorkers (wr_pool w) + 1,
          wp_running := wp_running (wr_pool w) @ [((wp_nextId (wr_pool w), job), pe_now env (wp_ticks (wr_pool w)))],
          wp_nextId := wp_nextId (wr_pool w) + 1, wp_ticks := wp_ticks (wr_pool w) + 1\<rparr>,
        wr_activeWorkers := wr_activeWorkers w + 1,
        wr_maximumActiveWorkers := max (wr_maximumActiveWorkers w) (wr_activeWorkers w + 1),
        wr_awaiting := wr_awaiting w @ [wp_nextId (wr_pool w)]\<rparr>)"
    and "\<not> wp_activeWorkers (wr_pool w) < wp_maximumWorkers (wr_pool w) \<Longrightarrow>
      pool_turn env (Submit job) w = Some (w\<lparr>wr_pool := (wr_pool w)\<lparr>
          wp_pendingJobs := wp_pendingJobs (wr_pool w) @ [(wp_nextId (wr_pool w), job)],
          wp_nextId := wp_nextId (wr_pool w) + 1\<rparr>\<rparr>)"
  using assms
  by (simp_all add: pool_turn_def submit_def dispatch_def dispatch_loop.simps processJob_def handler_started_def Let_def)

lemma worker_start_inv:
  obtains w where "worker_start rt = Inr w" "worker_inv w" "worker_turns_left w = 12" "wr_activeWorkers w = 2"
proof -
  obtain pool where pool: "createWorkerPool (worker_env rt) (JInt 2) = Inr pool" "wp_maximumWorkers pool = 2"
    "wp_pendingJobs pool = []" "wp_acceptingJobs pool" "wp_activeWorkers pool = 0" "\<not> wp_dispatching pool"
    "wp_successfulJobs pool = 0" "wp_running pool = []" "wp_shutdown pool = NoShutdown" "0 \<le> wp_totalProcessingTimeMs pool"
    by (simp add: createWorkerPool_def resolveWorkerConcurrency_def int_of_js_def)
  have env: "pe_throws (worker_env rt) = (\<lambda>_. None)" by (simp add: worker_env_def)
  obtain w where w: "submit_jobs (worker_env rt) worker_jobs
      \<lparr>wr_pool = pool, wr_activeWorkers = 0, wr_maximumActiveWorkers = 0, wr_awaiting = []\<rparr> = Some w"
    "worker_inv w" "worker_turns_left w = 12" "wr_activeWorkers w = 2"
    using pool env
    by (simp add: worker_jobs_def submit_turn worker_inv_def pool_inv_def pool_ok_def running_ids_def pool_load_def worker_turns_left_def)
  then show thesis using pool(1) by (intro that) (simp_all add: worker_start_def)
qed

lemma logs_of_settled:
  "resolved os = concat (map (\<lambda>(i, r). case r of Inr _ \<Rightarrow> [i] | Inl _ \<Rightarrow> []) (settled os))"
  "rejected os = concat (map (\<lambda>(i, r). case r of Inl _ \<Rightarrow> [i] | Inr _ \<Rightarrow> []) (settled os))"
proof (induction os)
  case (Cons x os)
  { case 1 then show ?case using Cons by (cases x) simp_all }
  { case 2 then show ?case using Cons by (cases x) simp_all }
qed simp_all

text \<open>A handler that throws nothing settles one promise, and starts the handlers that now fit.\<close>

lemma settle_effect:
  assumes step: "pool_step env p (HandlerSettles i (Inr job)) = Some (p', os)" and env: "pe_throws env = (\<lambda>_. None)"
  shows "add_mset i (mset (running_ids p')) = mset (running_ids p) + mset (map fst (started os))"
    and "started os @ wp_pendingJobs p' = wp_pendingJobs p" and "wp_successfulJobs p' = Suc (wp_successfulJobs p)"
    and "wp_maximumWorkers p' = wp_maximumWorkers p" and "wp_acceptingJobs p' = wp_acceptingJobs p"
proof -
  have none: "thrown_results env js = []" for js by (induction js) (auto simp: env)
  have "mset (settled os) = {#(i, Inr job)#}" using pool_step_results [OF step] by (simp add: own_results_def none)
  then have "settled os = [(i, Inr job)]" by simp
  then have logs: "resolved os = [i]" "rejected os = []" by (simp_all add: logs_of_settled)
  have account: "pool_account p [] os p'" using pool_step_account [OF step] by (simp add: admitted_job_def)
  show "add_mset i (mset (running_ids p')) = mset (running_ids p) + mset (map fst (started os))"
    and "started os @ wp_pendingJobs p' = wp_pendingJobs p" and "wp_successfulJobs p' = Suc (wp_successfulJobs p)"
    and "wp_maximumWorkers p' = wp_maximumWorkers p"
    using account logs by (simp_all add: pool_account_def)
  have "wp_acceptingJobs (fst (finishJob (dispatch env) env entry t r q)) = wp_acceptingJobs q" for entry t r q
    using finishJob_effect [of "dispatch env" entry q env t r, OF dispatch_effect] by (simp add: pool_effect_def)
  then show "wp_acceptingJobs p' = wp_acceptingJobs p"
    using step by (force split: option.splits simp: prod_eq_iff)
qed

lemma settle_turn:
  assumes inv: "worker_inv w" and i: "i \<notin> set (wr_awaiting w)" and x: "i \<in> set (running_ids (wr_pool w))"
    and env: "pe_throws env = (\<lambda>_. None)" and turn: "pool_turn env (HandlerSettles i (Inr job)) w = Some w'"
  shows "worker_inv w' \<and> Suc (worker_turns_left w') = worker_turns_left w"
proof -
  let ?p = "wr_pool w" and ?s = "started"
  obtain p' os where step: "pool_step env ?p (HandlerSettles i (Inr job)) = Some (p', os)"
    and w': "w' = fold handler_started os (w\<lparr>wr_pool := p'\<rparr>)"
    using turn by (auto simp: pool_turn_def split: option.splits)
  note effect = settle_effect [OF step env]
  have inv': "pool_inv p'" using pool_step_inv [OF step] inv by (simp add: worker_inv_def)
  obtain M where M: "mset (running_ids ?p) = add_mset i M" using x by (metis set_mset_mset mset_add)
  have awaiting: "mset (wr_awaiting w) \<subseteq># M"
    using inv i M unfolding worker_inv_def by (metis add_mset_remove_trivial diff_single_trivial set_mset_mset subset_eq_diff_conv
      union_mset_add_mset_right add.right_neutral diff_subset_eq_self subset_mset.order_trans)
  have ids: "mset (running_ids p') = M + mset (map fst (started os))" using effect(1) M by simp
  have "size (mset (running_ids p')) = size M + size (mset (map fst (started os)))" unfolding ids by simp
  then have running: "length (wp_running p') = size M + length (started os)" by (simp add: running_ids_def)
  have "length (wp_running ?p) = Suc (size M)" using M by (metis length_map running_ids_def size_add_mset size_mset)
  moreover have "length (wp_pendingJobs ?p) = length (started os) + length (wp_pendingJobs p')"
    by (metis effect(2) length_append)
  moreover have "length (wp_running p') \<le> 2" using inv inv' effect(4) by (simp add: pool_inv_def pool_ok_def worker_inv_def)
  moreover have "length (wr_awaiting w) \<le> size M" using size_mset_mono [OF awaiting] by simp
  ultimately show ?thesis
    using inv inv' awaiting ids effect running
    by (auto simp: w' handlers_started worker_inv_def worker_turns_left_def pool_load_def)
qed

lemma handler_turn:
  assumes inv: "worker_inv w" and i: "i \<in> set (wr_awaiting w)"
  shows "worker_inv (w\<lparr>wr_activeWorkers := wr_activeWorkers w - 1, wr_awaiting := remove1 i (wr_awaiting w)\<rparr>)"
    and "Suc (worker_turns_left (w\<lparr>wr_activeWorkers := wr_activeWorkers w - 1, wr_awaiting := remove1 i (wr_awaiting w)\<rparr>)) = worker_turns_left w"
proof -
  have "mset (remove1 i (wr_awaiting w)) \<subseteq># mset (running_ids (wr_pool w))"
    using inv by (simp add: worker_inv_def) (meson diff_subset_eq_self subset_mset.order_trans)
  moreover have "Suc (length (remove1 i (wr_awaiting w))) = length (wr_awaiting w)" using i length_pos_if_in_set [OF i] by (simp add: length_remove1)
  ultimately show "worker_inv (w\<lparr>wr_activeWorkers := wr_activeWorkers w - 1, wr_awaiting := remove1 i (wr_awaiting w)\<rparr>)"
    and "Suc (worker_turns_left (w\<lparr>wr_activeWorkers := wr_activeWorkers w - 1, wr_awaiting := remove1 i (wr_awaiting w)\<rparr>)) = worker_turns_left w"
    using inv by (auto simp: worker_inv_def worker_turns_left_def)
qed

lemma worker_turn_inv:
  assumes inv: "worker_inv w" and turn: "worker_turn (worker_env rt) i w = Some w'"
  shows "worker_inv w' \<and> Suc (worker_turns_left w') = worker_turns_left w"
proof (cases "i \<in> set (wr_awaiting w)")
  case True
  then show ?thesis using handler_turn [OF inv] turn by (auto simp: worker_turn_def)
next
  case False
  then obtain k job t where x: "find_running i (wr_pool w) = Some ((k, job), t)"
    and next_turn: "pool_turn (worker_env rt) (HandlerSettles i (Inr job)) w = Some w'"
    using turn by (auto simp: worker_turn_def split: option.splits)
  have "i \<in> set (running_ids (wr_pool w))" using x by (auto simp: running_ids_def elim!: find_runningE)
  then show ?thesis using settle_turn [OF inv False _ _ next_turn] by (simp add: worker_env_def)
qed

lemma worker_turns_inv:
  "worker_turns (worker_env rt) is w = Some w' \<Longrightarrow> worker_inv w \<Longrightarrow>
   worker_inv w' \<and> worker_turns_left w' + length is = worker_turns_left w"
proof (induction "is" arbitrary: w)
  case (Cons i "is")
  then obtain w1 where turn: "worker_turn (worker_env rt) i w = Some w1" and rest: "worker_turns (worker_env rt) is w1 = Some w'"
    by (auto split: option.splits)
  show ?case using worker_turn_inv [OF Cons.prems(2) turn] Cons.IH [OF rest] by auto
qed simp

lemma worker_progress:
  assumes inv: "worker_inv w" and left: "0 < worker_turns_left w"
  shows "\<exists>i. worker_turn env i w \<noteq> None"
proof (cases "wr_awaiting w")
  case (Cons i "is")
  then show ?thesis by (auto simp: worker_turn_def intro: exI [of _ i])
next
  case Nil
  have "wp_running (wr_pool w) \<noteq> []"
    using inv left Nil by (auto simp: worker_turns_left_def worker_inv_def pool_inv_def pool_ok_def)
  then obtain x xs where "wp_running (wr_pool w) = x # xs" by (meson neq_Nil_conv)
  then have "find_running (fst (fst x)) (wr_pool w) = Some x" by (simp add: find_running_def)
  then have "worker_turn env (fst (fst x)) w \<noteq> None"
    using Nil by (cases x) (auto simp: worker_turn_def pool_turn_def split: prod.split)
  then show ?thesis by blast
qed

lemma worker_report:
  assumes start: "worker_start rt = Inr w0" and run: "worker_turns (worker_env rt) (rt_worker_order rt) w0 = Some w"
    and inv: "worker_inv w"
  shows "map_sum id xr_observations (runWorkerPool rt) = (if worker_turns_left w = 0
      then Inr [''Jobs submitted: 6'', ''Maximum active workers: 2'', ''Successful jobs: 6''] else Inl still_pending)"
proof -
  have shown: "show_nat 2 = ''2''" "show_nat 6 = ''6''" by code_simp+
  have six: "length worker_jobs = 6" by (simp add: worker_jobs_def)
  have load: "pool_load (wr_pool w) = 0 \<longleftrightarrow> worker_turns_left w = 0"
    using inv by (auto simp: pool_load_def worker_turns_left_def worker_inv_def running_ids_def)
  have idle: "PoolShutdownResolved \<in> set (snd (shutdownPool (wr_pool w\<lparr>wp_ticks := t\<rparr>)))" if "pool_load (wr_pool w) = 0" for t
    using that inv pool_inv_shutdown_done [of "wr_pool w"]
    by (cases "wp_shutdown (wr_pool w)")
      (auto simp: shutdownPool_def completeShutdownWhenIdle_def pool_load_def worker_inv_def pool_inv_def pool_ok_def)
  show ?thesis
    using start run load idle inv
    by (auto simp: runWorkerPool_def getPoolMetrics_def Let_def six shown worker_inv_def)
qed

section \<open>Properties\<close>

text \<open>
  C29. The pool experiment in any order.  Whatever the clock reads and in whatever order the continuations of the six
  jobs run, the two of a handler and of the pool's call of it in turn, at most two handlers were ever active and two
  were; there are exactly twelve continuations, one more can always run before the last, and after it the experiment reports
  six successful jobs, never before.
\<close>

theorem worker_experiment_any_order:
  assumes "worker_start rt = Inr w0" and "worker_turns (worker_env rt) (rt_worker_order rt) w0 = Some w"
  shows "wr_maximumActiveWorkers w = 2 \<and> wr_activeWorkers w \<le> 2 \<and> length (rt_worker_order rt) \<le> 12
    \<and> (if length (rt_worker_order rt) = 12
       then map_sum id xr_observations (runWorkerPool rt)
              = Inr [''Jobs submitted: 6'', ''Maximum active workers: 2'', ''Successful jobs: 6'']
       else runWorkerPool rt = Inl still_pending \<and> (\<exists>i. worker_turn (worker_env rt) i w \<noteq> None))"
proof -
  have "worker_inv w0" "worker_turns_left w0 = 12" using worker_start_inv [of rt] assms(1) by auto
  then have inv: "worker_inv w" and left: "worker_turns_left w + length (rt_worker_order rt) = 12"
    using worker_turns_inv [OF assms(2)] by auto
  have active: "wr_activeWorkers w \<le> 2"
    using inv size_mset_mono [of "mset (wr_awaiting w)" "mset (running_ids (wr_pool w))"]
    by (simp add: worker_inv_def pool_inv_def pool_ok_def running_ids_def)
  show ?thesis
    using worker_report [OF assms inv] worker_progress [OF inv, of "worker_env rt"] left active inv
    by (cases "worker_turns_left w = 0"; cases "runWorkerPool rt") (auto simp: worker_inv_def)
qed

definition sample_runtime :: runtime where
  "sample_runtime = \<lparr>rt_random = (\<lambda>_. 0), rt_now = (\<lambda>_. ''2026-01-01T00:00:00.000Z''), rt_monotonic = of_nat,
     rt_race_order = [0, 1, 0, 1],
     rt_chain_order = [0, 0, 1, 1], rt_worker_order = [0, 1, 0, 1, 2, 3, 3, 4, 2, 4, 5, 5]\<rparr>"

theorem worker_experiment_any_order_witness:
  "\<exists>w. wr_maximumActiveWorkers w = 2 \<and> wr_activeWorkers w \<le> 2
    \<and> worker_turns (worker_env sample_runtime) (rt_worker_order sample_runtime) (projr (worker_start sample_runtime)) = Some w
    \<and> map_sum id xr_observations (runWorkerPool sample_runtime)
        = Inr [''Jobs submitted: 6'', ''Maximum active workers: 2'', ''Successful jobs: 6'']"
proof -
  have "worker_turns (worker_env sample_runtime) (rt_worker_order sample_runtime) (projr (worker_start sample_runtime)) \<noteq> None"
    by code_simp
  moreover obtain w0 where start: "worker_start sample_runtime = Inr w0" by (rule worker_start_inv)
  ultimately obtain w where run: "worker_turns (worker_env sample_runtime) (rt_worker_order sample_runtime) w0 = Some w" by auto
  have "length (rt_worker_order sample_runtime) = 12" by (simp add: sample_runtime_def)
  then show ?thesis using worker_experiment_any_order [OF start run] start run by simp
qed

end
