(* ===== verification/Experiments.thy ===== *)
theory Experiments
  imports Messaging_Experiments "HOL-Library.List_Lexorder" "HOL-Library.Char_ord"
begin

text \<open>
  \<open>packages/experiments/src/index.js\<close> and \<open>cli.js\<close>: the table of experiments, the runner
  and the command line.  \<open>write\<close> and \<open>writeError\<close> are actions on the state of the
  console, which may throw.
\<close>

section \<open>The table\<close>

text \<open>\<open>new Map(entries)\<close>: a later entry replaces the value of an earlier one in its place.\<close>

fun map_set :: "string \<Rightarrow> 'a \<Rightarrow> (string \<times> 'a) list \<Rightarrow> (string \<times> 'a) list" where
  "map_set k v [] = [(k, v)]"
| "map_set k v ((k', v') # es) = (if k' = k then (k, v) # es else (k', v') # map_set k v es)"

definition new_map :: "(string \<times> 'a) list \<Rightarrow> (string \<times> 'a) list" where
  "new_map entries = fold (\<lambda>(k, v). map_set k v) entries []"

definition createExperiments :: "runtime \<Rightarrow> (string \<times> experiment_entry) list" where
  "createExperiments rt = new_map (createConcurrencyExperiments rt @ createMessagingExperiments rt)"

section \<open>Runner\<close>

text \<open>The \<open>for\<close> loop over lines, each awaited.\<close>

fun write_all :: "(string \<Rightarrow> ('w, unit) action) \<Rightarrow> string list \<Rightarrow> ('w, unit) action" where
  "write_all write_line [] = finish_with (Inr ())"
| "write_all write_line (l # ls) = then_do (write_line l) (\<lambda>_. write_all write_line ls)"

definition createExperimentRunner ::
  "(string \<Rightarrow> ('w, unit) action) \<Rightarrow> (string \<times> experiment_entry) list \<Rightarrow> string \<Rightarrow> ('w, string \<times> string) action" where
  "createExperimentRunner write_line experiments name = (case map_of experiments name of
      None \<Rightarrow> finish_with (Inl (UnknownExperimentError name (sort (map fst experiments))))
    | Some x \<Rightarrow>
        then_do (write_line (''Experiment: '' @ xp_title x)) (\<lambda>_.
        then_do (write_line (''Demonstrates: '' @ xp_demonstrates x)) (\<lambda>_.
        then_do (finish_with (xp_run x)) (\<lambda>result.
        then_do (write_all write_line (xr_observations result)) (\<lambda>_.
        then_do (write_line (''Result: '' @ xr_conclusion result)) (\<lambda>_.
        then_do (write_line (''Source: '' @ xp_source x)) (\<lambda>_.
        then_do (write_line (''Commits: '' @ join '', '' (xp_commits x))) (\<lambda>_.
        finish_with (Inr (name, ''COMPLETED''))))))))))"

section \<open>Command line\<close>

definition usage_line :: string where
  "usage_line = ''Usage: node packages/experiments/src/cli.js <experiment>''"

definition runExperimentCli ::
  "(string \<Rightarrow> ('w, unit) action) \<Rightarrow> (string \<Rightarrow> ('w, unit) action) \<Rightarrow> (string \<times> experiment_entry) list
     \<Rightarrow> string list \<Rightarrow> ('w, nat) action" where
  "runExperimentCli write_line write_error experiments args s =
     (case args of
        [name] \<Rightarrow> (case createExperimentRunner write_line experiments name s of
            (s', Inr _) \<Rightarrow> (s', Inr 0)
          | (s', Inl e) \<Rightarrow> then_do (write_error (exn_message e)) (\<lambda>_.
              then_do (case e of
                  UnknownExperimentError _ available \<Rightarrow> write_error (''Available: '' @ join '', '' available)
                | _ \<Rightarrow> finish_with (Inr ())) (\<lambda>_.
              finish_with (Inr 1))) s')
      | _ \<Rightarrow> then_do (write_error usage_line) (\<lambda>_. finish_with (Inr 1)) s)"

section \<open>On a console that accepts a number of lines\<close>

type_synonym console = "string list \<times> string list"

definition console_write :: "nat \<Rightarrow> exn \<Rightarrow> string \<Rightarrow> (console, unit) action" where
  "console_write limit e line s =
     (if length (fst s) < limit then ((fst s @ [line], snd s), Inr ()) else (s, Inl e))"

definition console_error :: "string \<Rightarrow> (console, unit) action" where
  "console_error line s = ((fst s, snd s @ [line]), Inr ())"

text \<open>The lines of a run: the title comes before the experiment runs, the rest after it.\<close>

definition report_lines :: "experiment_entry \<Rightarrow> string list" where
  "report_lines x = [''Experiment: '' @ xp_title x, ''Demonstrates: '' @ xp_demonstrates x]
     @ (case xp_run x of
          Inl _ \<Rightarrow> []
        | Inr result \<Rightarrow> xr_observations result
            @ [''Result: '' @ xr_conclusion result, ''Source: '' @ xp_source x,
               ''Commits: '' @ join '', '' (xp_commits x)])"

definition error_lines :: "exn \<Rightarrow> string list" where
  "error_lines e = exn_message e # (case e of
      UnknownExperimentError _ available \<Rightarrow> [''Available: '' @ join '', '' available] | _ \<Rightarrow> [])"

lemma write_all_console:
  "write_all (console_write limit e) ls (out, err) =
     ((out @ take (limit - length out) ls, err),
      if length ls \<le> limit - length out then Inr () else Inl e)"
proof (induction ls arbitrary: out)
  case (Cons l ls)
  show ?case
  proof (cases "length out < limit")
    case True
    then have "limit - length out = Suc (limit - length (out @ [l]))" by simp
    then show ?thesis using Cons [of "out @ [l]"] True by (simp add: console_write_def)
  qed (simp add: console_write_def)
qed simp

lemma write_all_append: "write_all w (ls @ ls') = then_do (write_all w ls) (\<lambda>_. write_all w ls')"
  by (induction ls) (auto simp: then_do_def fun_eq_iff split: prod.split sum.split)

lemma write_all_single: "write_all w [l] = w l"
  by (auto simp: then_do_def fun_eq_iff split: prod.split sum.split)

text \<open>The runner writes the lines of the report, and the experiment runs after the first two.\<close>

lemma runner_lines:
  assumes "map_of experiments name = Some x"
  shows "createExperimentRunner w experiments name =
    then_do (write_all w [''Experiment: '' @ xp_title x, ''Demonstrates: '' @ xp_demonstrates x]) (\<lambda>_.
      case xp_run x of
        Inl e \<Rightarrow> finish_with (Inl e)
      | Inr _ \<Rightarrow> then_do (write_all w (drop 2 (report_lines x))) (\<lambda>_. finish_with (Inr (name, ''COMPLETED''))))"
  using assms
  by (simp add: createExperimentRunner_def report_lines_def write_all_append then_do_def fun_eq_iff
      split: prod.split sum.split)

lemma length_report_lines: "2 \<le> length (report_lines x)" "xp_run x = Inl e \<Longrightarrow> length (report_lines x) = 2"
  by (simp_all add: report_lines_def)

lemma take_report: "2 \<le> k \<Longrightarrow> take k (report_lines x) = take 2 (report_lines x) @ take (k - 2) (drop 2 (report_lines x))"
  by (metis le_add_diff_inverse take_add)

lemma runner_console:
  assumes "map_of experiments name = Some x"
  shows "createExperimentRunner (console_write limit e) experiments name ([], err) =
    ((take limit (report_lines x), err),
     if limit < length (report_lines x) then Inl e
     else (case xp_run x of Inl e' \<Rightarrow> Inl e' | Inr _ \<Rightarrow> Inr (name, ''COMPLETED'')))"
proof -
  have two: "take 2 (report_lines x) = [''Experiment: '' @ xp_title x, ''Demonstrates: '' @ xp_demonstrates x]"
    by (simp add: report_lines_def)
  note first = write_all_console [of limit e "take 2 (report_lines x)" "[]" err]
  show ?thesis
  proof (cases "2 \<le> limit")
    case False
    then have "take limit (take 2 (report_lines x)) = take limit (report_lines x)" "limit < length (report_lines x)"
      using length_report_lines(1) [of x] by simp_all
    then show ?thesis
      using first False length_report_lines(1) [of x]
      unfolding runner_lines [OF assms] two [symmetric] by simp
  next
    case True
    note rest = write_all_console [of limit e "drop 2 (report_lines x)" "take 2 (report_lines x)" err]
    have "length (report_lines x) - 2 \<le> limit - 2 \<longleftrightarrow> \<not> limit < length (report_lines x)"
      using True length_report_lines(1) [of x] by auto
    then show ?thesis
      using first rest True length_report_lines [of x] take_report [OF True, of x]
      unfolding runner_lines [OF assms] two [symmetric]
      by (cases "xp_run x") auto
  qed
qed

section \<open>Properties\<close>

text \<open>
  The command line reports what happened.  On a console that accepts \<open>limit\<close> lines, a call
  with other than one argument prints the usage, an unknown name prints the available
  names in order, and a known one prints its report as far as the console accepts it; the
  exit code is 0 exactly when the experiment ran and its whole report was written, and
  every other outcome writes an error message and exits with 1.
\<close>

theorem cli_outcome:
  "runExperimentCli (console_write limit e) console_error experiments args ([], []) =
    (case args of
       [name] \<Rightarrow> (case map_of experiments name of
           None \<Rightarrow> (([], error_lines (UnknownExperimentError name (sort (map fst experiments)))), Inr 1)
         | Some x \<Rightarrow>
             if limit < length (report_lines x) then ((take limit (report_lines x), error_lines e), Inr 1)
             else (case xp_run x of
                 Inl e' \<Rightarrow> ((report_lines x, error_lines e'), Inr 1)
               | Inr _ \<Rightarrow> ((report_lines x, []), Inr 0)))
     | _ \<Rightarrow> (([], [usage_line]), Inr 1))"
proof (cases "\<exists>name. args = [name]")
  case False
  then show ?thesis
    by (auto simp: runExperimentCli_def console_error_def then_do_def split: list.split)
next
  case True
  then obtain name where args: "args = [name]" by blast
  have failed: "then_do (console_error (exn_message e')) (\<lambda>_.
      then_do (case e' of
          UnknownExperimentError _ available \<Rightarrow> console_error (''Available: '' @ join '', '' available)
        | _ \<Rightarrow> finish_with (Inr ())) (\<lambda>_. finish_with (Inr 1))) (out, []) = ((out, error_lines e'), Inr 1)"
    for e' out
    by (cases e') (simp_all add: error_lines_def console_error_def)
  show ?thesis
  proof (cases "map_of experiments name")
    case None
    then have "createExperimentRunner (console_write limit e) experiments name ([], [])
        = (([], []), Inl (UnknownExperimentError name (sort (map fst experiments))))"
      by (simp add: createExperimentRunner_def)
    then show ?thesis
      unfolding runExperimentCli_def args list.case None option.case by (simp only: prod.case sum.case failed)
  next
    case (Some x)
    show ?thesis
      unfolding runExperimentCli_def args list.case Some option.case runner_console [OF Some] prod.case
      by (cases "limit < length (report_lines x)"; cases "xp_run x") (simp_all only: if_True if_False sum.case failed, simp_all)
  qed
qed

text \<open>The table has nine experiments under distinct names, and no one is replaced by another.\<close>

lemma createExperiments_all:
  "createExperiments rt = createConcurrencyExperiments rt @ createMessagingExperiments rt"
  by (simp add: createExperiments_def new_map_def createConcurrencyExperiments_def createMessagingExperiments_def)

end
