(* ===== verification/Order_Schema.thy ===== *)
theory Order_Schema
  imports Order_Http Tables
begin

text \<open>
  The schemas of \<open>apps/api/src/order-schema.js\<close> as values.  The validator that the
  framework compiles from them is not in the repository: it is a parameter, and the locale
  \<open>schema_validator\<close> states the documented meaning of the keywords the file uses, without
  coercion and without removal of properties, as \<open>app.js\<close> configures it.  It is interpreted
  on an executable validator.
\<close>

section \<open>Schemas\<close>

datatype schema = Schema "keyword list"
  and keyword =
    KType string
  | KFormat string
  | KMinimum int
  | KMaximum int
  | KMinLength nat
  | KConst jsval
  | KRequired "string list"
  | KAdditionalProperties bool
  | KProperties "(string \<times> schema) list"

definition errorSchema :: schema where
  "errorSchema = Schema [KType ''object'', KAdditionalProperties False, KRequired [''error''],
     KProperties [(''error'', Schema [KType ''object'', KAdditionalProperties False,
       KRequired [''code'', ''message''],
       KProperties [(''code'', Schema [KType ''string'']), (''message'', Schema [KType ''string''])]])]]"

definition orderSchema :: schema where
  "orderSchema = Schema [KType ''object'', KAdditionalProperties False,
     KRequired [''id'', ''customerId'', ''productId'', ''quantity'', ''amount'', ''status'', ''version'',
       ''idempotencyKey'', ''createdAt'', ''updatedAt''],
     KProperties [
       (''id'', Schema [KType ''string'', KFormat ''uuid'']),
       (''customerId'', Schema [KType ''string'', KFormat ''uuid'']),
       (''productId'', Schema [KType ''string'', KFormat ''uuid'']),
       (''quantity'', Schema [KType ''integer'', KMinimum 1]),
       (''amount'', Schema [KType ''integer'', KMinimum 1]),
       (''status'', Schema [KType ''string'', KConst (JStr ''PENDING'')]),
       (''version'', Schema [KType ''integer'', KConst (JInt 1)]),
       (''idempotencyKey'', Schema [KType ''string'']),
       (''createdAt'', Schema [KType ''string'', KFormat ''date-time'']),
       (''updatedAt'', Schema [KType ''string'', KFormat ''date-time''])]]"

definition body_schema :: schema where
  "body_schema = Schema [KType ''object'', KAdditionalProperties False,
     KRequired [''customerId'', ''productId'', ''quantity'', ''amount''],
     KProperties [
       (''customerId'', Schema [KType ''string'', KFormat ''uuid'']),
       (''productId'', Schema [KType ''string'', KFormat ''uuid'']),
       (''quantity'', Schema [KType ''integer'', KMinimum 1, KMaximum 2147483647]),
       (''amount'', Schema [KType ''integer'', KMinimum 1, KMaximum 2147483647])]]"

definition headers_schema :: schema where
  "headers_schema = Schema [KType ''object'', KRequired [''idempotency-key''],
     KProperties [(''idempotency-key'', Schema [KType ''string'', KMinLength 1])]]"

record route_schema =
  rt_body :: schema
  rt_headers :: schema
  rt_response :: "(nat \<times> schema) list"

definition createOrderSchema :: route_schema where
  "createOrderSchema = \<lparr>rt_body = body_schema, rt_headers = headers_schema,
     rt_response = [(201, orderSchema), (400, errorSchema), (404, errorSchema), (409, errorSchema),
       (500, errorSchema), (503, errorSchema)]\<rparr>"

section \<open>What a validator does\<close>

definition has_type :: "string \<Rightarrow> jsval \<Rightarrow> bool" where
  "has_type t v =
     (if t = ''string'' then typeof_string v
      else if t = ''integer'' then is_integer v
      else if t = ''object'' then is_plain_object v
      else False)"

definition declared :: "keyword list \<Rightarrow> string list" where
  "declared ks = concat (map (\<lambda>k. case k of KProperties ps \<Rightarrow> map fst ps | _ \<Rightarrow> []) ks)"

text \<open>A keyword says nothing about values of the types it is not for.\<close>

fun keyword_holds ::
  "(schema \<Rightarrow> jsval \<Rightarrow> bool) \<Rightarrow> (string \<Rightarrow> string \<Rightarrow> bool) \<Rightarrow> string list \<Rightarrow> keyword \<Rightarrow> jsval \<Rightarrow> bool" where
  "keyword_holds accepts fmt names (KType t) v = has_type t v"
| "keyword_holds accepts fmt names (KFormat f) v = (case v of JStr s \<Rightarrow> fmt f s | _ \<Rightarrow> True)"
| "keyword_holds accepts fmt names (KMinimum m) v = (case v of JNum (Fin r) \<Rightarrow> of_int m \<le> r | _ \<Rightarrow> True)"
| "keyword_holds accepts fmt names (KMaximum m) v = (case v of JNum (Fin r) \<Rightarrow> r \<le> of_int m | _ \<Rightarrow> True)"
| "keyword_holds accepts fmt names (KMinLength n) v = (case v of JStr s \<Rightarrow> n \<le> length s | _ \<Rightarrow> True)"
| "keyword_holds accepts fmt names (KConst c) v = (v = c)"
| "keyword_holds accepts fmt names (KRequired ns) v =
     (case v of JObj fs \<Rightarrow> list_all (\<lambda>n. map_of fs n \<noteq> None) ns | _ \<Rightarrow> True)"
| "keyword_holds accepts fmt names (KAdditionalProperties b) v =
     (case v of JObj fs \<Rightarrow> b \<or> list_all (\<lambda>p. fst p \<in> set names) fs | _ \<Rightarrow> True)"
| "keyword_holds accepts fmt names (KProperties ps) v =
     (case v of
        JObj fs \<Rightarrow> list_all (\<lambda>p. case map_of fs (fst p) of None \<Rightarrow> True | Some x \<Rightarrow> accepts (snd p) x) ps
      | _ \<Rightarrow> True)"

locale schema_validator =
  fixes accepts :: "schema \<Rightarrow> jsval \<Rightarrow> bool" and fmt :: "string \<Rightarrow> string \<Rightarrow> bool"
  assumes accepts_keywords:
    "accepts (Schema ks) v \<longleftrightarrow> list_all (\<lambda>k. keyword_holds accepts fmt (declared ks) k v) ks"
begin

lemma accepts_string [simp]:
  "accepts (Schema [KType ''string'']) v \<longleftrightarrow> typeof_string v"
  "accepts (Schema [KType ''string'', KFormat f]) v \<longleftrightarrow> (\<exists>s. v = JStr s \<and> fmt f s)"
  "accepts (Schema [KType ''string'', KMinLength n]) v \<longleftrightarrow> (\<exists>s. v = JStr s \<and> n \<le> length s)"
  by (auto simp: accepts_keywords has_type_def typeof_string_iff split: jsval.splits)

lemma accepts_integer:
  "accepts (Schema [KType ''integer'', KMinimum m, KMaximum n]) v
     \<longleftrightarrow> (\<exists>i. v = JInt i \<and> m \<le> i \<and> i \<le> n)"
proof
  assume "accepts (Schema [KType ''integer'', KMinimum m, KMaximum n]) v"
  then obtain r where v: "v = JNum (Fin r)" and i: "of_int \<lfloor>r\<rfloor> = r" "of_int m \<le> r" "r \<le> of_int n"
    by (auto simp: accepts_keywords has_type_def is_integer_def num_is_integer_def split: jsval.splits jsnum.splits)
  have "m \<le> \<lfloor>r\<rfloor>" "\<lfloor>r\<rfloor> \<le> n" using i by (simp_all add: le_floor_iff floor_le_iff)
  moreover have "v = JInt \<lfloor>r\<rfloor>" by (simp only: v i(1))
  ultimately show "\<exists>i. v = JInt i \<and> m \<le> i \<and> i \<le> n" by blast
qed (auto simp: accepts_keywords has_type_def is_integer_def num_is_integer_def)

text \<open>What passes the schema of the body.\<close>

lemma body_accepted:
  "accepts body_schema v \<longleftrightarrow> (\<exists>fs c p q a. v = JObj fs
     \<and> (\<forall>x\<in>set fs. fst x \<in> {''customerId'', ''productId'', ''quantity'', ''amount''})
     \<and> map_of fs ''customerId'' = Some (JStr c) \<and> fmt ''uuid'' c
     \<and> map_of fs ''productId'' = Some (JStr p) \<and> fmt ''uuid'' p
     \<and> map_of fs ''quantity'' = Some (JInt q) \<and> 1 \<le> q \<and> q \<le> 2147483647
     \<and> map_of fs ''amount'' = Some (JInt a) \<and> 1 \<le> a \<and> a \<le> 2147483647)"
  unfolding body_schema_def accepts_keywords [of "KType ''object'' # _"]
  by (auto simp: has_type_def is_plain_object_iff declared_def accepts_integer list_all_iff split: option.splits)

lemma headers_accepted:
  "accepts headers_schema v \<longleftrightarrow> (\<exists>fs k. v = JObj fs \<and> map_of fs ''idempotency-key'' = Some (JStr k) \<and> k \<noteq> [])"
  unfolding headers_schema_def accepts_keywords [of "KType ''object'' # _"]
  by (auto simp: has_type_def is_plain_object_iff Suc_le_eq split: option.splits)

end

section \<open>An executable validator\<close>

lemma size_subschema: "KProperties ps \<in> set ks \<Longrightarrow> (n, sch) \<in> set ps \<Longrightarrow> size sch < size (Schema ks)"
proof -
  assume "KProperties ps \<in> set ks" "(n, sch) \<in> set ps"
  then have "size (KProperties ps) \<le> size_list size ks" and "size_prod (\<lambda>_. 0) size (n, sch) \<le> size_list (size_prod (\<lambda>_. 0) size) ps"
    by (simp_all add: size_list_estimation')
  then show ?thesis by simp
qed

function validates :: "(string \<Rightarrow> string \<Rightarrow> bool) \<Rightarrow> schema \<Rightarrow> jsval \<Rightarrow> bool" where
  "validates fmt (Schema ks) v \<longleftrightarrow> list_all (\<lambda>k. case k of
       KProperties ps \<Rightarrow> (case v of
           JObj fs \<Rightarrow> list_all (\<lambda>p. case map_of fs (fst p) of None \<Rightarrow> True | Some x \<Rightarrow> validates fmt (snd p) x) ps
         | _ \<Rightarrow> True)
     | _ \<Rightarrow> keyword_holds (\<lambda>_ _. True) fmt (declared ks) k v) ks"
  by pat_completeness auto

termination
  by (relation "measure (\<lambda>(fmt, sch, v). size sch)") (use size_subschema in \<open>auto simp del: schema.size\<close>)

declare validates.simps [simp del]

lemma validates_keywords:
  "validates fmt (Schema ks) v \<longleftrightarrow> list_all (\<lambda>k. keyword_holds (validates fmt) fmt (declared ks) k v) ks"
  unfolding validates.simps
  by (rule list.pred_cong [OF refl]) (simp split: keyword.split)

interpretation json_schema: schema_validator "validates fmt" fmt for fmt
  by unfold_locales (rule validates_keywords)

section \<open>Requests and replies\<close>

text \<open>The error of a request that does not pass: \<open>None\<close> when body and headers do.\<close>

definition schema_error :: "(schema \<Rightarrow> jsval \<Rightarrow> bool) \<Rightarrow> jsval \<Rightarrow> jsval \<Rightarrow> exn option" where
  "schema_error accepts headers body =
     (if accepts (rt_body createOrderSchema) body \<and> accepts (rt_headers createOrderSchema) headers then None
      else Some (ErrorObj ''Error'' [] (Some ''FST_ERR_VALIDATION'')))"

definition error_json :: "error_reply \<Rightarrow> jsval" where
  "error_json r = JObj [(''error'', JObj [(''code'', JStr (er_code r)), (''message'', JStr (er_message r))])]"

section \<open>Properties\<close>

text \<open>
  C32. The schema guards the service and the database.  For any validator that follows the
  keywords and any format checker, a request that passes has exactly the four fields;
  its input to the service fails validation only by a blank idempotency key, and then its
  ids have the \<open>uuid\<close> format and its quantity and amount are positive 32-bit integers, so
  no statement of an order can be out of the column's range.
\<close>

theorem schema_guards_orders:
  assumes "schema_validator accepts fmt" and "schema_error accepts headers body = None"
  shows "\<exists>key. get_prop headers ''idempotency-key'' = JStr key \<and> key \<noteq> []
    \<and> (let input = order_input body (JStr key) st; rq = request_of input in
       validateOrderInput input = (if trim key = [] then Inl OrderValidationError else Inr ())
       \<and> fmt ''uuid'' (rq_customerId rq) \<and> fmt ''uuid'' (rq_productId rq)
       \<and> 1 \<le> rq_quantity rq \<and> in_int4 (rq_quantity rq) \<and> 1 \<le> rq_amount rq \<and> in_int4 (rq_amount rq)
       \<and> rq_idempotencyKey rq = key
       \<and> map fst (own_fields body) \<in> lists {''customerId'', ''productId'', ''quantity'', ''amount''})"
proof -
  have ok: "accepts body_schema body" "accepts headers_schema headers"
    using assms(2) by (simp_all add: schema_error_def createOrderSchema_def split: if_splits)
  from ok(1) obtain fs c p q a where body: "body = JObj fs"
      "\<forall>x\<in>set fs. fst x \<in> {''customerId'', ''productId'', ''quantity'', ''amount''}"
    and ids: "map_of fs ''customerId'' = Some (JStr c)" "fmt ''uuid'' c"
      "map_of fs ''productId'' = Some (JStr p)" "fmt ''uuid'' p"
    and amounts: "map_of fs ''quantity'' = Some (JInt q)" "1 \<le> q" "q \<le> 2147483647"
      "map_of fs ''amount'' = Some (JInt a)" "1 \<le> a" "a \<le> 2147483647"
    unfolding schema_validator.body_accepted [OF assms(1)] by blast
  from ok(2) obtain hs key where key: "get_prop headers ''idempotency-key'' = JStr key" "key \<noteq> []"
    unfolding schema_validator.headers_accepted [OF assms(1)] by auto
  let ?input = "order_input body (JStr key) st"
  have fields: "truthy ?input" "get_prop ?input ''customerId'' = JStr c" "get_prop ?input ''productId'' = JStr p"
    "get_prop ?input ''quantity'' = JInt q" "get_prop ?input ''amount'' = JInt a"
    "get_prop ?input ''idempotencyKey'' = JStr key"
    using ids amounts body(1)
    by (simp_all add: order_input_def own_fields_def Let_def truthy_def split: option.split)
  have "validateOrderInput ?input = (if trim key = [] then Inl OrderValidationError else Inr ())"
    using amounts by (simp add: validateOrderInput_def fields typeof_string_def)
  moreover have "request_of ?input = \<lparr>rq_customerId = c, rq_productId = p, rq_quantity = q, rq_amount = a,
      rq_idempotencyKey = key, rq_context = get_prop ?input ''requestContext''\<rparr>"
    by (simp add: request_of_def fields)
  moreover have "map fst (own_fields body) \<in> lists {''customerId'', ''productId'', ''quantity'', ''amount''}"
    using body by (auto simp: own_fields_def)
  ultimately show ?thesis
    using key ids amounts by (simp add: in_int4_def Let_def)
qed

definition sample_body :: jsval where
  "sample_body = JObj [(''customerId'', JStr ''c''), (''productId'', JStr ''p''),
     (''quantity'', JInt 2), (''amount'', JInt 900)]"

definition sample_headers :: jsval where
  "sample_headers = JObj [(''idempotency-key'', JStr '' '')]"

text \<open>A key of one space passes the schema and is refused by the service.\<close>

theorem schema_guards_orders_witness:
  "schema_error (validates (\<lambda>_ s. s \<noteq> [])) sample_headers sample_body = None
   \<and> validateOrderInput (order_input sample_body (JStr '' '') None) = Inl OrderValidationError
   \<and> rq_quantity (request_of (order_input sample_body (JStr '' '') None)) = 2"
proof -
  have v: "schema_validator (validates (\<lambda>_ s. s \<noteq> [])) (\<lambda>_ s. s \<noteq> [])" by (rule json_schema.schema_validator_axioms)
  have ok: "schema_error (validates (\<lambda>_ s. s \<noteq> [])) sample_headers sample_body = None" by code_simp
  have key: "get_prop sample_headers ''idempotency-key'' = JStr '' ''" by (simp add: sample_headers_def)
  have "trim '' '' = []" by code_simp
  moreover have "rq_quantity (request_of (order_input sample_body (JStr '' '') None)) = 2" by code_simp
  ultimately show ?thesis
    using schema_guards_orders [OF v ok, of None] ok unfolding key by (simp add: Let_def)
qed

text \<open>
  C40. Every error reply is a declared response: its status is one of the route's response
  schemas other than 201, and its body passes that schema.
\<close>

theorem error_replies_conform:
  assumes "schema_validator accepts fmt"
  shows "\<exists>sch. map_of (rt_response createOrderSchema) (er_status (handleError e validation)) = Some sch
    \<and> er_status (handleError e validation) \<noteq> 201 \<and> accepts sch (error_json (handleError e validation))"
proof -
  have "accepts errorSchema (error_json r)" for r
    unfolding errorSchema_def error_json_def schema_validator.accepts_keywords [OF assms, of "KType ''object'' # _"]
    by (simp add: has_type_def declared_def schema_validator.accepts_keywords [OF assms, of "KType ''object'' # _"]
        schema_validator.accepts_string [OF assms] typeof_string_def)
  moreover have "er_status (handleError e validation) \<in> {400, 404, 409, 500, 503}"
    by (cases e rule: application_status.cases) (simp_all add: handleError_def)
  ultimately show ?thesis by (auto simp: createOrderSchema_def)
qed

theorem error_replies_conform_witness:
  "validates (\<lambda>_ _. True) errorSchema (error_json (handleError ProductNotFoundError False))
   \<and> er_status (handleError ProductNotFoundError False) = 404"
proof -
  have "er_status (handleError ProductNotFoundError False) = 404" by (simp add: handleError_def requestValidationErrorCodes_def)
  then show ?thesis
    using error_replies_conform [OF json_schema.schema_validator_axioms [of "\<lambda>_ _. True"], of ProductNotFoundError False]
    by (auto simp: createOrderSchema_def)
qed

end
