(* ===== verification/Migrations.thy ===== *)
theory Migrations
  imports Tables
begin

text \<open>
  The migrations of \<open>packages/database/migrations\<close> as programs.  \<open>up\<close> and \<open>down\<close> of each file are the
  statements of the text they hand to \<open>pgm.sql\<close>, run on a database of named tables that hold rows: a
  statement is refused, with its SQLSTATE, when what it creates is there already, when what it drops is
  missing or still referenced, and when the rows violate a constraint that it adds.

  \<open>database_ok\<close> reads the constraints of the tables off their declarations.  For the migrated database it
  is the invariant \<open>tables_ok\<close> of \<open>Tables\<close>, and every \<open>down\<close> undoes its \<open>up\<close>, rows included.
\<close>

section \<open>Tables with rows\<close>

datatype sql_type = SqlUuid | SqlText | SqlInteger | SqlTimestamptz

datatype sql_value = VNull | VUuid string | VText string | VInt int | VTime int

datatype column_default = NoDefault | DefaultValue sql_value | DefaultNow

record column =
  co_name :: string
  co_type :: sql_type
  co_not_null :: bool
  co_default :: column_default

datatype check_expr =
    AtLeast string int
  | Above string int
  | OneOf string "string list"
  | NullOrSha256 string

datatype delete_rule = OnDeleteRestrict | OnDeleteCascade

datatype sql_constraint =
    Check string check_expr
  | Unique string string
  | PrimaryKey string string
  | ForeignKey string string string string delete_rule

type_synonym sql_cells = "(string \<times> sql_value) list"

record sql_table =
  td_columns :: "column list"
  td_constraints :: "sql_constraint list"
  td_rows :: "sql_cells list"

type_synonym database = "(string \<times> sql_table) list"

definition cell :: "string \<Rightarrow> sql_cells \<Rightarrow> sql_value" where
  "cell c row = (case map_of row c of Some v \<Rightarrow> v | None \<Rightarrow> VNull)"

fun value_fits :: "sql_type \<Rightarrow> sql_value \<Rightarrow> bool" where
  "value_fits ty VNull = True"
| "value_fits SqlUuid (VUuid u) = True"
| "value_fits SqlText (VText s) = True"
| "value_fits SqlInteger (VInt i) = in_int4 i"
| "value_fits SqlTimestamptz (VTime t) = True"
| "value_fits _ _ = False"

definition row_ok :: "column list \<Rightarrow> sql_cells \<Rightarrow> bool" where
  "row_ok cols row = list_all2 (\<lambda>col (n, v). n = co_name col \<and> value_fits (co_type col) v
     \<and> (co_not_null col \<longrightarrow> v \<noteq> VNull)) cols row"

text \<open>A check passes unless it is false: an unknown result of a \<open>NULL\<close> passes.\<close>

fun check_passes :: "check_expr \<Rightarrow> sql_cells \<Rightarrow> bool" where
  "check_passes (AtLeast c n) row = (case cell c row of VInt i \<Rightarrow> n \<le> i | _ \<Rightarrow> True)"
| "check_passes (Above c n) row = (case cell c row of VInt i \<Rightarrow> n < i | _ \<Rightarrow> True)"
| "check_passes (OneOf c vs) row = (case cell c row of VText s \<Rightarrow> s \<in> set vs | _ \<Rightarrow> True)"
| "check_passes (NullOrSha256 c) row = (case cell c row of VText s \<Rightarrow> sha256_text s | _ \<Rightarrow> True)"

definition rows_in :: "database \<Rightarrow> string \<Rightarrow> sql_cells list" where
  "rows_in db n = (case map_of db n of None \<Rightarrow> [] | Some tb \<Rightarrow> td_rows tb)"

fun constraint_holds :: "database \<Rightarrow> sql_cells list \<Rightarrow> sql_constraint \<Rightarrow> bool" where
  "constraint_holds db rows (Check n e) = list_all (check_passes e) rows"
| "constraint_holds db rows (Unique n c) = distinct (filter (\<lambda>v. v \<noteq> VNull) (map (cell c) rows))"
| "constraint_holds db rows (PrimaryKey n c) = distinct (map (cell c) rows)"
| "constraint_holds db rows (ForeignKey n c tab k rule) =
     list_all (\<lambda>row. cell c row = VNull \<or> cell c row \<in> cell k ` set (rows_in db tab)) rows"

fun constraint_name :: "sql_constraint \<Rightarrow> string" where
  "constraint_name (Check n e) = n"
| "constraint_name (Unique n c) = n"
| "constraint_name (PrimaryKey n c) = n"
| "constraint_name (ForeignKey n c tab k rule) = n"

fun check_column :: "check_expr \<Rightarrow> string" where
  "check_column (AtLeast c n) = c"
| "check_column (Above c n) = c"
| "check_column (OneOf c vs) = c"
| "check_column (NullOrSha256 c) = c"

fun constraint_column :: "sql_constraint \<Rightarrow> string" where
  "constraint_column (Check n e) = check_column e"
| "constraint_column (Unique n c) = c"
| "constraint_column (PrimaryKey n c) = c"
| "constraint_column (ForeignKey n c tab k rule) = c"

definition refers_to :: "string \<Rightarrow> sql_constraint \<Rightarrow> bool" where
  "refers_to tab k = (case k of ForeignKey n c tab' k' rule \<Rightarrow> tab' = tab | _ \<Rightarrow> False)"

fun constraint_violation :: "sql_constraint \<Rightarrow> exn" where
  "constraint_violation (Check n e) = check_violation n"
| "constraint_violation (Unique n c) = unique_violation n"
| "constraint_violation (PrimaryKey n c) = unique_violation n"
| "constraint_violation (ForeignKey n c tab k rule) = foreign_key_violation"

section \<open>Statements of a migration\<close>

datatype alteration =
    AddColumn column
  | AddConstraint sql_constraint
  | DropConstraint string
  | DropColumn string

datatype ddl =
    CreateTable string "column list" "sql_constraint list"
  | AlterTable string "alteration list"
  | DropTable string

definition column_names :: "sql_table \<Rightarrow> string list" where
  "column_names tb = map co_name (td_columns tb)"

definition default_value :: "int \<Rightarrow> column \<Rightarrow> sql_value" where
  "default_value now col = (case co_default col of NoDefault \<Rightarrow> VNull | DefaultValue v \<Rightarrow> v | DefaultNow \<Rightarrow> VTime now)"

text \<open>No foreign key here refers to a column whose constraint is dropped on its own.\<close>

fun alter_table :: "int \<Rightarrow> database \<Rightarrow> alteration \<Rightarrow> sql_table \<Rightarrow> sql_table result" where
  "alter_table now db (AddColumn col) tb =
     (if co_name col \<in> set (column_names tb) then Inl (sql_error ''column already exists'' ''42701'')
      else if co_not_null col \<and> default_value now col = VNull \<and> td_rows tb \<noteq> []
      then Inl (sql_error ''column contains null values'' ''23502'')
      else Inr (tb\<lparr>td_columns := td_columns tb @ [col],
        td_rows := map (\<lambda>row. row @ [(co_name col, default_value now col)]) (td_rows tb)\<rparr>))"
| "alter_table now db (AddConstraint k) tb =
     (if constraint_name k \<in> constraint_name ` set (td_constraints tb)
      then Inl (sql_error ''constraint already exists'' ''42710'')
      else if constraint_column k \<notin> set (column_names tb) then Inl (sql_error ''column does not exist'' ''42703'')
      else if \<not> constraint_holds db (td_rows tb) k then Inl (constraint_violation k)
      else Inr (tb\<lparr>td_constraints := td_constraints tb @ [k]\<rparr>))"
| "alter_table now db (DropConstraint n) tb =
     (if n \<notin> constraint_name ` set (td_constraints tb) then Inl (sql_error ''constraint does not exist'' ''42704'')
      else Inr (tb\<lparr>td_constraints := filter (\<lambda>k. constraint_name k \<noteq> n) (td_constraints tb)\<rparr>))"
| "alter_table now db (DropColumn c) tb =
     (if c \<notin> set (column_names tb) then Inl (sql_error ''column does not exist'' ''42703'')
      else Inr \<lparr>td_columns = filter (\<lambda>col. co_name col \<noteq> c) (td_columns tb),
        td_constraints = filter (\<lambda>k. constraint_column k \<noteq> c) (td_constraints tb),
        td_rows = map (filter (\<lambda>(n, v). n \<noteq> c)) (td_rows tb)\<rparr>)"

fun alter_all :: "int \<Rightarrow> database \<Rightarrow> alteration list \<Rightarrow> sql_table \<Rightarrow> sql_table result" where
  "alter_all now db [] tb = Inr tb"
| "alter_all now db (a # as) tb = (case alter_table now db a tb of
      Inl e \<Rightarrow> Inl e
    | Inr tb' \<Rightarrow> alter_all now db as tb')"

definition missing_table :: exn where
  "missing_table = sql_error ''relation does not exist'' ''42P01''"

definition referenced_tables_exist :: "string set \<Rightarrow> sql_constraint \<Rightarrow> bool" where
  "referenced_tables_exist names k = (case k of ForeignKey n c tab k' rule \<Rightarrow> tab \<in> names | _ \<Rightarrow> True)"

fun exec_ddl :: "int \<Rightarrow> ddl \<Rightarrow> database \<Rightarrow> database result" where
  "exec_ddl now (CreateTable n cols cs) db =
     (if n \<in> fst ` set db then Inl (sql_error ''relation already exists'' ''42P07'')
      else if \<not> list_all (referenced_tables_exist (insert n (fst ` set db))) cs then Inl missing_table
      else Inr (db @ [(n, \<lparr>td_columns = cols, td_constraints = cs, td_rows = []\<rparr>)]))"
| "exec_ddl now (AlterTable n as) db = (case map_of db n of
      None \<Rightarrow> Inl missing_table
    | Some tb \<Rightarrow> (case alter_all now db as tb of
          Inl e \<Rightarrow> Inl e
        | Inr tb' \<Rightarrow> Inr (map (\<lambda>(n', t). if n' = n then (n', tb') else (n', t)) db)))"
| "exec_ddl now (DropTable n) db =
     (if n \<notin> fst ` set db then Inl missing_table
      else if list_ex (\<lambda>(n', tb). n' \<noteq> n \<and> list_ex (refers_to n) (td_constraints tb)) db
      then Inl (sql_error ''other objects depend on it'' ''2BP01'')
      else Inr (filter (\<lambda>(n', tb). n' \<noteq> n) db))"

text \<open>The statements of one text, in order; the first error ends it.\<close>

fun run_ddl :: "int \<Rightarrow> ddl list \<Rightarrow> database \<Rightarrow> database result" where
  "run_ddl now [] db = Inr db"
| "run_ddl now (d # ds) db = (case exec_ddl now d db of
      Inl e \<Rightarrow> Inl e
    | Inr db' \<Rightarrow> run_ddl now ds db')"

section \<open>The migrations\<close>

definition required :: "string \<Rightarrow> sql_type \<Rightarrow> column_default \<Rightarrow> column" where
  "required n ty d = \<lparr>co_name = n, co_type = ty, co_not_null = True, co_default = d\<rparr>"

definition create_order_tables_up :: "ddl list" where
  "create_order_tables_up =
     [CreateTable ''products''
        [required ''id'' SqlUuid NoDefault,
         required ''name'' SqlText NoDefault,
         required ''stock'' SqlInteger NoDefault,
         required ''version'' SqlInteger (DefaultValue (VInt 1))]
        [PrimaryKey ''products_pkey'' ''id'',
         Check ''products_stock_nonnegative'' (AtLeast ''stock'' 0),
         Check ''products_version_positive'' (AtLeast ''version'' 1)],
      CreateTable ''orders''
        [required ''id'' SqlUuid NoDefault,
         required ''customer_id'' SqlUuid NoDefault,
         required ''product_id'' SqlUuid NoDefault,
         required ''quantity'' SqlInteger NoDefault,
         required ''amount'' SqlInteger NoDefault,
         required ''status'' SqlText (DefaultValue (VText ''PENDING'')),
         required ''version'' SqlInteger (DefaultValue (VInt 1)),
         required ''idempotency_key'' SqlText NoDefault,
         required ''created_at'' SqlTimestamptz DefaultNow,
         required ''updated_at'' SqlTimestamptz DefaultNow]
        [PrimaryKey ''orders_pkey'' ''id'',
         ForeignKey ''orders_product_id_fkey'' ''product_id'' ''products'' ''id'' OnDeleteRestrict,
         Check ''orders_quantity_positive'' (Above ''quantity'' 0),
         Check ''orders_amount_positive'' (Above ''amount'' 0),
         Check ''orders_status_valid'' (OneOf ''status'' [''PENDING'', ''PROCESSING'', ''COMPLETED'', ''FAILED'']),
         Check ''orders_version_positive'' (AtLeast ''version'' 1)]]"

definition create_order_tables_down :: "ddl list" where
  "create_order_tables_down = [DropTable ''orders'', DropTable ''products'']"

definition create_order_processing_up :: "ddl list" where
  "create_order_processing_up =
     [CreateTable ''order_processing''
        [required ''order_id'' SqlUuid NoDefault,
         required ''status'' SqlText (DefaultValue (VText ''PENDING'')),
         required ''created_at'' SqlTimestamptz DefaultNow,
         required ''updated_at'' SqlTimestamptz DefaultNow]
        [PrimaryKey ''order_processing_pkey'' ''order_id'',
         ForeignKey ''order_processing_order_id_fkey'' ''order_id'' ''orders'' ''id'' OnDeleteCascade,
         Check ''order_processing_status_valid''
           (OneOf ''status'' [''PENDING'', ''PROCESSING'', ''COMPLETED'', ''FAILED''])]]"

definition create_order_processing_down :: "ddl list" where
  "create_order_processing_down = [DropTable ''order_processing'']"

definition add_order_idempotency_up :: "ddl list" where
  "add_order_idempotency_up =
     [AlterTable ''orders''
        [AddColumn \<lparr>co_name = ''request_fingerprint'', co_type = SqlText, co_not_null = False, co_default = NoDefault\<rparr>,
         AddConstraint (Check ''orders_request_fingerprint_sha256'' (NullOrSha256 ''request_fingerprint'')),
         AddConstraint (Unique ''orders_idempotency_key_unique'' ''idempotency_key'')]]"

definition add_order_idempotency_down :: "ddl list" where
  "add_order_idempotency_down =
     [AlterTable ''orders''
        [DropConstraint ''orders_idempotency_key_unique'',
         DropConstraint ''orders_request_fingerprint_sha256'',
         DropColumn ''request_fingerprint'']]"

definition create_processed_messages_up :: "ddl list" where
  "create_processed_messages_up =
     [CreateTable ''processed_messages''
        [required ''message_id'' SqlText NoDefault,
         required ''processed_at'' SqlTimestamptz DefaultNow]
        [PrimaryKey ''processed_messages_pkey'' ''message_id'']]"

definition create_processed_messages_down :: "ddl list" where
  "create_processed_messages_down = [DropTable ''processed_messages'']"

text \<open>\<open>up\<close> and \<open>down\<close> of each file, in the order of the file names.\<close>

definition MIGRATIONS :: "(ddl list \<times> ddl list) list" where
  "MIGRATIONS =
     [(create_order_tables_up, create_order_tables_down),
      (create_order_processing_up, create_order_processing_down),
      (add_order_idempotency_up, add_order_idempotency_down),
      (create_processed_messages_up, create_processed_messages_down)]"

definition migrated :: database where
  "migrated = (case run_ddl 0 (concat (map fst MIGRATIONS)) [] of Inr db \<Rightarrow> db | Inl e \<Rightarrow> [])"

lemmas migration_defs = create_order_tables_up_def create_order_tables_down_def create_order_processing_up_def
  create_order_processing_down_def add_order_idempotency_up_def add_order_idempotency_down_def
  create_processed_messages_up_def create_processed_messages_down_def MIGRATIONS_def

section \<open>Databases that satisfy their declarations\<close>

definition table_ok :: "database \<Rightarrow> sql_table \<Rightarrow> bool" where
  "table_ok db tb \<longleftrightarrow> list_all (row_ok (td_columns tb)) (td_rows tb)
     \<and> list_all (constraint_holds db (td_rows tb)) (td_constraints tb)
     \<and> list_all (referenced_tables_exist (fst ` set db)) (td_constraints tb)
     \<and> list_all (\<lambda>k. constraint_column k \<in> set (column_names tb)) (td_constraints tb)"

definition database_ok :: "database \<Rightarrow> bool" where
  "database_ok db \<longleftrightarrow> distinct (map fst db) \<and> list_all (\<lambda>(n, tb). table_ok db tb) db"

lemma migrated_run: "run_ddl now (concat (map fst MIGRATIONS)) [] = Inr migrated"
proof -
  have "run_ddl now (concat (map fst MIGRATIONS)) [] = run_ddl 0 (concat (map fst MIGRATIONS)) []"
    by (simp add: migration_defs required_def default_value_def column_names_def)
  moreover have "\<exists>db. run_ddl 0 (concat (map fst MIGRATIONS)) [] = Inr db"
    by (simp add: migration_defs required_def default_value_def column_names_def referenced_tables_exist_def)
  ultimately show ?thesis by (auto simp: migrated_def)
qed

lemma migrated_undone: "run_ddl now (concat (map snd (rev MIGRATIONS))) migrated = Inr []"
  unfolding migrated_def
  by (simp add: migration_defs required_def default_value_def column_names_def referenced_tables_exist_def refers_to_def)


section \<open>A down undoes its up\<close>

lemma no_reference_to_absent:
  assumes "database_ok db" and "n \<notin> fst ` set db"
  shows "\<not> list_ex (\<lambda>(n', tb). n' \<noteq> n \<and> list_ex (refers_to n) (td_constraints tb)) db"
proof
  assume "list_ex (\<lambda>(n', tb). n' \<noteq> n \<and> list_ex (refers_to n) (td_constraints tb)) db"
  then obtain n' tb k where tb: "(n', tb) \<in> set db" "k \<in> set (td_constraints tb)" "refers_to n k"
    by (auto simp: list_ex_iff)
  then have "referenced_tables_exist (fst ` set db) k"
    using assms(1) by (fastforce simp: database_ok_def table_ok_def list_all_iff)
  then show False using tb(3) assms(2) by (auto simp: refers_to_def referenced_tables_exist_def split: sql_constraint.splits)
qed

lemma created:
  assumes "exec_ddl now (CreateTable n cols cs) db = Inr db'"
  shows "n \<notin> fst ` set db" and "db' = db @ [(n, \<lparr>td_columns = cols, td_constraints = cs, td_rows = []\<rparr>)]"
  using assms by (auto split: if_splits)

lemma drop_created:
  assumes "exec_ddl now (CreateTable n cols cs) db = Inr db'"
    and "\<not> list_ex (\<lambda>(n', tb). n' \<noteq> n \<and> list_ex (refers_to n) (td_constraints tb)) db"
  shows "exec_ddl now' (DropTable n) db' = Inr db"
proof -
  have "filter (\<lambda>(n', tb). n' \<noteq> n) db = db" using created(1) [OF assms(1)] by (intro filter_True) force
  then show ?thesis using assms(2) by (simp add: created(2) [OF assms(1)])
qed

lemma create_undone:
  assumes "database_ok db" and "run_ddl now [CreateTable n cols cs] db = Inr db'"
  shows "run_ddl now' [DropTable n] db' = Inr db"
proof -
  have run: "exec_ddl now (CreateTable n cols cs) db = Inr db'" using assms(2) by (simp del: exec_ddl.simps split: sum.splits)
  show ?thesis using drop_created [OF run no_reference_to_absent [OF assms(1) created(1) [OF run]]]
    by (simp del: exec_ddl.simps)
qed

lemma two_creates_undone:
  assumes ok: "database_ok db" and cs: "\<not> list_ex (refers_to n') cs"
    and run: "run_ddl now [CreateTable n cols cs, CreateTable n' cols' cs'] db = Inr db'"
  shows "run_ddl now' [DropTable n', DropTable n] db' = Inr db"
proof -
  obtain db1 where r: "exec_ddl now (CreateTable n cols cs) db = Inr db1" "exec_ddl now (CreateTable n' cols' cs') db1 = Inr db'"
    using run by (auto simp del: exec_ddl.simps split: sum.splits)
  have "n' \<notin> fst ` set db" using created(1) [OF r(2)] by (simp add: created(2) [OF r(1)])
  then have "\<not> list_ex (\<lambda>(m, tb). m \<noteq> n' \<and> list_ex (refers_to n') (td_constraints tb)) db1"
    using no_reference_to_absent [OF ok] cs by (simp add: created(2) [OF r(1)])
  note second = drop_created [OF r(2) this]
  show ?thesis using second drop_created [OF r(1) no_reference_to_absent [OF ok created(1) [OF r(1)]]]
    by (simp del: exec_ddl.simps)
qed

lemma filter_absent: "n \<notin> f ` set xs \<Longrightarrow> filter (\<lambda>x. f x \<noteq> n) xs = xs"
  by (intro filter_True) auto

lemma row_ok_names: "row_ok cols row \<Longrightarrow> map fst row = map co_name cols"
  unfolding row_ok_def by (induction rule: list_all2_induct) auto

lemma row_without:
  assumes "row_ok (td_columns tb) row" and "c \<notin> set (column_names tb)"
  shows "filter (\<lambda>(n, v). n \<noteq> c) row = row"
proof -
  have "c \<notin> fst ` set row" using row_ok_names [OF assms(1)] assms(2) by (metis column_names_def list.set_map)
  then show ?thesis by (intro filter_True) (auto simp: image_iff)
qed

lemma alterations_undone:
  assumes ok: "table_ok db0 tb" and names: "constraint_name k \<noteq> constraint_name k'"
    and run: "alter_all now db [AddColumn col, AddConstraint k, AddConstraint k'] tb = Inr tb'"
  shows "alter_all now' db' [DropConstraint (constraint_name k'), DropConstraint (constraint_name k), DropColumn (co_name col)] tb'
    = Inr tb"
proof -
  have fresh: "co_name col \<notin> set (column_names tb)" "constraint_name k \<notin> constraint_name ` set (td_constraints tb)"
    "constraint_name k' \<notin> constraint_name ` set (td_constraints tb)"
    and tb': "tb' = \<lparr>td_columns = td_columns tb @ [col], td_constraints = td_constraints tb @ [k, k'],
      td_rows = map (\<lambda>row. row @ [(co_name col, default_value now col)]) (td_rows tb)\<rparr>"
    using run by (auto split: if_splits sum.splits)
  have "filter (\<lambda>c. co_name c \<noteq> co_name col) (td_columns tb) = td_columns tb"
    by (rule filter_absent) (use fresh(1) in \<open>simp add: column_names_def\<close>)
  moreover have "map (\<lambda>row. filter (\<lambda>(n, v). n \<noteq> co_name col) (row @ [(co_name col, x)])) (td_rows tb) = td_rows tb" for x
    using ok fresh(1) row_without by (intro map_idI) (auto simp: table_ok_def list_all_iff)
  moreover have "filter (\<lambda>c. constraint_column c \<noteq> co_name col) (td_constraints tb) = td_constraints tb"
    using ok fresh(1) by (intro filter_absent) (auto simp: table_ok_def list_all_iff)
  ultimately show ?thesis
    using names fresh(2,3) by (simp add: tb' filter_absent column_names_def comp_def)
qed

lemma alter_undone:
  assumes "database_ok db" and "constraint_name k \<noteq> constraint_name k'"
    and run: "run_ddl now [AlterTable n [AddColumn col, AddConstraint k, AddConstraint k']] db = Inr db'"
  shows "run_ddl now' [AlterTable n [DropConstraint (constraint_name k'), DropConstraint (constraint_name k),
    DropColumn (co_name col)]] db' = Inr db"
proof -
  obtain tb tb' where tb: "map_of db n = Some tb" "alter_all now db [AddColumn col, AddConstraint k, AddConstraint k'] tb = Inr tb'"
    and db': "db' = map (\<lambda>(m, t). if m = n then (m, tb') else (m, t)) db"
    using run by (auto simp del: alter_all.simps split: sum.splits option.splits)
  have "table_ok db tb" using assms(1) map_of_SomeD [OF tb(1)] by (auto simp: database_ok_def list_all_iff)
  note undone = alterations_undone [OF this assms(2) tb(2)]
  have keys: "distinct (map fst db)" using assms(1) by (simp add: database_ok_def)
  have "t = tb" if "(n, t) \<in> set db" for t using map_of_is_SomeI [OF keys that] tb(1) by simp
  then have "map (\<lambda>(m, t). if m = n then (m, tb) else (m, t)) db' = db"
    unfolding db' by (auto simp: comp_def intro!: map_idI split: prod.splits)
  moreover have "map_of db' n = Some tb'" using tb(1) unfolding db' by (induction db) (auto split: if_splits)
  ultimately show ?thesis using undone by (simp del: alter_all.simps)
qed

section \<open>The declared constraints\<close>

definition product_cells :: "product_row \<Rightarrow> sql_cells" where
  "product_cells r = [(''id'', VUuid (pr_id r)), (''name'', VText (pr_name r)), (''stock'', VInt (pr_stock r)),
     (''version'', VInt (pr_version r))]"

definition order_cells :: "order_row \<Rightarrow> sql_cells" where
  "order_cells r = [(''id'', VUuid (or_id r)), (''customer_id'', VUuid (or_customer_id r)),
     (''product_id'', VUuid (or_product_id r)), (''quantity'', VInt (or_quantity r)), (''amount'', VInt (or_amount r)),
     (''status'', VText (or_status r)), (''version'', VInt (or_version r)),
     (''idempotency_key'', VText (or_idempotency_key r)), (''created_at'', VTime (or_created_at r)),
     (''updated_at'', VTime (or_updated_at r)),
     (''request_fingerprint'', case or_request_fingerprint r of None \<Rightarrow> VNull | Some f \<Rightarrow> VText f)]"

definition processing_cells :: "processing_row \<Rightarrow> sql_cells" where
  "processing_cells r = [(''order_id'', VUuid (op_order_id r)), (''status'', VText (op_status r)),
     (''created_at'', VTime (op_created_at r)), (''updated_at'', VTime (op_updated_at r))]"

definition processed_cells :: "processed_row \<Rightarrow> sql_cells" where
  "processed_cells r = [(''message_id'', VText (pm_message_id r)), (''processed_at'', VTime (pm_processed_at r))]"

definition with_rows :: "(string \<Rightarrow> sql_cells list) \<Rightarrow> database \<Rightarrow> database" where
  "with_rows rows db = map (\<lambda>(n, tb). (n, tb\<lparr>td_rows := rows n\<rparr>)) db"

text \<open>The rows of the model's tables, listed in any order.\<close>

definition lists_map :: "('r \<Rightarrow> sql_cells) \<Rightarrow> sql_cells list \<Rightarrow> ('k \<rightharpoonup> 'r) \<Rightarrow> bool" where
  "lists_map f rows m \<longleftrightarrow> set rows = f ` ran m \<and> distinct rows"

definition rows_of_tables :: "(string \<Rightarrow> sql_cells list) \<Rightarrow> tables \<Rightarrow> bool" where
  "rows_of_tables rows t \<longleftrightarrow> lists_map product_cells (rows ''products'') (tb_products t)
     \<and> rows ''orders'' = map order_cells (tb_orders t)
     \<and> lists_map processing_cells (rows ''order_processing'') (tb_order_processing t)
     \<and> lists_map processed_cells (rows ''processed_messages'') (tb_processed_messages t)"

definition filed_by_key :: "tables \<Rightarrow> bool" where
  "filed_by_key t \<longleftrightarrow> (\<forall>u r. tb_products t u = Some r \<longrightarrow> pr_id r = u)
     \<and> (\<forall>u r. tb_order_processing t u = Some r \<longrightarrow> op_order_id r = u)
     \<and> (\<forall>m r. tb_processed_messages t m = Some r \<longrightarrow> pm_message_id r = m)"

lemma cells [simp]:
  "cell ''id'' (product_cells p) = VUuid (pr_id p)"
  "cell ''stock'' (product_cells p) = VInt (pr_stock p)"
  "cell ''version'' (product_cells p) = VInt (pr_version p)"
  "cell ''id'' (order_cells r) = VUuid (or_id r)"
  "cell ''product_id'' (order_cells r) = VUuid (or_product_id r)"
  "cell ''quantity'' (order_cells r) = VInt (or_quantity r)"
  "cell ''amount'' (order_cells r) = VInt (or_amount r)"
  "cell ''status'' (order_cells r) = VText (or_status r)"
  "cell ''version'' (order_cells r) = VInt (or_version r)"
  "cell ''idempotency_key'' (order_cells r) = VText (or_idempotency_key r)"
  "cell ''request_fingerprint'' (order_cells r) = (case or_request_fingerprint r of None \<Rightarrow> VNull | Some f \<Rightarrow> VText f)"
  "cell ''order_id'' (processing_cells s) = VUuid (op_order_id s)"
  "cell ''status'' (processing_cells s) = VText (op_status s)"
  "cell ''message_id'' (processed_cells m) = VText (pm_message_id m)"
  by (simp_all add: cell_def product_cells_def order_cells_def processing_cells_def processed_cells_def)

lemma distinct_key_column:
  assumes "lists_map f rows m" and "\<And>u r. m u = Some r \<Longrightarrow> key (f r) = K u" and "inj K"
  shows "distinct (map key rows)"
proof -
  have "inj_on key (set rows)"
  proof (rule inj_onI)
    fix x y
    assume "x \<in> set rows" "y \<in> set rows" and eq: "key x = key y"
    then obtain u r v s where r: "x = f r" "m u = Some r" "y = f s" "m v = Some s"
      using assms(1) by (auto simp: lists_map_def ran_def)
    then have "u = v" using eq assms(2,3) by (metis injD)
    then show "x = y" using r by simp
  qed
  then show ?thesis using assms(1) by (simp add: lists_map_def distinct_map)
qed

text \<open>The four tables after every migration.\<close>

definition products_table :: "sql_cells list \<Rightarrow> sql_table" where
  "products_table rows = \<lparr>
     td_columns = [required ''id'' SqlUuid NoDefault, required ''name'' SqlText NoDefault,
       required ''stock'' SqlInteger NoDefault, required ''version'' SqlInteger (DefaultValue (VInt 1))],
     td_constraints = [PrimaryKey ''products_pkey'' ''id'',
       Check ''products_stock_nonnegative'' (AtLeast ''stock'' 0),
       Check ''products_version_positive'' (AtLeast ''version'' 1)],
     td_rows = rows\<rparr>"

definition orders_table :: "sql_cells list \<Rightarrow> sql_table" where
  "orders_table rows = \<lparr>
     td_columns = [required ''id'' SqlUuid NoDefault, required ''customer_id'' SqlUuid NoDefault,
       required ''product_id'' SqlUuid NoDefault, required ''quantity'' SqlInteger NoDefault,
       required ''amount'' SqlInteger NoDefault, required ''status'' SqlText (DefaultValue (VText ''PENDING'')),
       required ''version'' SqlInteger (DefaultValue (VInt 1)), required ''idempotency_key'' SqlText NoDefault,
       required ''created_at'' SqlTimestamptz DefaultNow, required ''updated_at'' SqlTimestamptz DefaultNow,
       \<lparr>co_name = ''request_fingerprint'', co_type = SqlText, co_not_null = False, co_default = NoDefault\<rparr>],
     td_constraints = [PrimaryKey ''orders_pkey'' ''id'',
       ForeignKey ''orders_product_id_fkey'' ''product_id'' ''products'' ''id'' OnDeleteRestrict,
       Check ''orders_quantity_positive'' (Above ''quantity'' 0),
       Check ''orders_amount_positive'' (Above ''amount'' 0),
       Check ''orders_status_valid'' (OneOf ''status'' STATUSES),
       Check ''orders_version_positive'' (AtLeast ''version'' 1),
       Check ''orders_request_fingerprint_sha256'' (NullOrSha256 ''request_fingerprint''),
       Unique ''orders_idempotency_key_unique'' ''idempotency_key''],
     td_rows = rows\<rparr>"

definition processing_table :: "sql_cells list \<Rightarrow> sql_table" where
  "processing_table rows = \<lparr>
     td_columns = [required ''order_id'' SqlUuid NoDefault, required ''status'' SqlText (DefaultValue (VText ''PENDING'')),
       required ''created_at'' SqlTimestamptz DefaultNow, required ''updated_at'' SqlTimestamptz DefaultNow],
     td_constraints = [PrimaryKey ''order_processing_pkey'' ''order_id'',
       ForeignKey ''order_processing_order_id_fkey'' ''order_id'' ''orders'' ''id'' OnDeleteCascade,
       Check ''order_processing_status_valid'' (OneOf ''status'' STATUSES)],
     td_rows = rows\<rparr>"

definition messages_table :: "sql_cells list \<Rightarrow> sql_table" where
  "messages_table rows = \<lparr>
     td_columns = [required ''message_id'' SqlText NoDefault, required ''processed_at'' SqlTimestamptz DefaultNow],
     td_constraints = [PrimaryKey ''processed_messages_pkey'' ''message_id''],
     td_rows = rows\<rparr>"

definition migrated_with :: "(string \<Rightarrow> sql_cells list) \<Rightarrow> database" where
  "migrated_with rows = [(''products'', products_table (rows ''products'')), (''orders'', orders_table (rows ''orders'')),
     (''order_processing'', processing_table (rows ''order_processing'')),
     (''processed_messages'', messages_table (rows ''processed_messages''))]"

lemma migrated_tables: "with_rows rows migrated = migrated_with rows"
  unfolding migrated_def
  by (simp add: migration_defs required_def default_value_def column_names_def referenced_tables_exist_def with_rows_def
      migrated_with_def products_table_def orders_table_def processing_table_def messages_table_def STATUSES_def)

lemma rows_in_migrated:
  "rows_in (migrated_with rows) ''products'' = rows ''products''"
  "rows_in (migrated_with rows) ''orders'' = rows ''orders''"
  by (simp_all add: rows_in_def migrated_with_def products_table_def orders_table_def)

lemmas declared = table_ok_def required_def referenced_tables_exist_def column_names_def list_all_iff

lemma product_cells_fit:
  "row_ok (td_columns (products_table rows)) (product_cells r) \<longleftrightarrow> in_int4 (pr_stock r) \<and> in_int4 (pr_version r)"
  by (simp add: row_ok_def product_cells_def products_table_def required_def)

lemma order_cells_fit: "row_ok (td_columns (orders_table rows)) (order_cells r)
    \<longleftrightarrow> in_int4 (or_quantity r) \<and> in_int4 (or_amount r) \<and> in_int4 (or_version r)"
  by (simp add: row_ok_def order_cells_def orders_table_def required_def split: option.split)

lemma processing_cells_fit: "row_ok (td_columns (processing_table rows)) (processing_cells r)"
  by (simp add: row_ok_def processing_cells_def processing_table_def required_def)

lemma processed_cells_fit: "row_ok (td_columns (messages_table rows)) (processed_cells r)"
  by (simp add: row_ok_def processed_cells_def messages_table_def required_def)

lemma all_ran: "(\<forall>r\<in>ran m. P r) \<longleftrightarrow> (\<forall>u r. m u = Some r \<longrightarrow> P r)"
  by (auto simp: ran_def)

lemma key_column_values:
  assumes "lists_map f rows m" and "\<And>u r. m u = Some r \<Longrightarrow> key (f r) = K u"
  shows "key ` set rows = K ` dom m"
proof -
  have "key ` set rows = (\<lambda>r. key (f r)) ` ran m" using assms(1) by (simp add: lists_map_def image_image)
  also have "\<dots> = K ` dom m" using assms(2) by (fastforce simp: ran_def dom_def image_iff)
  finally show ?thesis .
qed

lemma products_declared:
  assumes rows: "lists_map product_cells rows m" and key: "\<And>u r. m u = Some r \<Longrightarrow> pr_id r = u"
  shows "table_ok db (products_table rows) \<longleftrightarrow> (\<forall>u r. m u = Some r \<longrightarrow> product_ok r)"
proof -
  have "distinct (map (cell ''id'') rows)"
    by (rule distinct_key_column [OF rows, of _ VUuid]) (use key in \<open>auto simp: inj_def\<close>)
  then have "table_ok db (products_table rows) \<longleftrightarrow> (\<forall>row\<in>set rows. row_ok (td_columns (products_table rows)) row
      \<and> check_passes (AtLeast ''stock'' 0) row \<and> check_passes (AtLeast ''version'' 1) row)"
    unfolding declared products_table_def by (simp add: list_all_iff del: check_passes.simps) blast
  also have "\<dots> \<longleftrightarrow> (\<forall>r\<in>ran m. product_ok r)"
    using rows product_cells_fit by (auto simp: lists_map_def product_ok_def)
  finally show ?thesis by (simp add: all_ran)
qed

lemma orders_declared:
  assumes products: "lists_map product_cells (rows_in db ''products'') m" and key: "\<And>u r. m u = Some r \<Longrightarrow> pr_id r = u"
    and db: "''products'' \<in> fst ` set db"
  shows "table_ok db (orders_table (map order_cells os)) \<longleftrightarrow>
    (\<forall>r\<in>set os. order_ok r \<and> m (or_product_id r) \<noteq> None) \<and> distinct (map or_id os) \<and> distinct (map or_idempotency_key os)"
proof -
  have ref: "cell ''product_id'' (order_cells r) \<in> cell ''id'' ` set (rows_in db ''products'') \<longleftrightarrow> m (or_product_id r) \<noteq> None" for r
    using key_column_values [OF products, of "cell ''id''" VUuid] key by (auto simp: dom_def)
  have keys: "distinct (map (\<lambda>r. VUuid (or_id r)) os) = distinct (map or_id os)"
    "distinct (map (\<lambda>r. VText (or_idempotency_key r)) os) = distinct (map or_idempotency_key os)"
    by (auto simp: distinct_map inj_on_def)
  have "table_ok db (orders_table (map order_cells os)) \<longleftrightarrow>
      (\<forall>r\<in>set os. row_ok (td_columns (orders_table (map order_cells os))) (order_cells r)
        \<and> cell ''product_id'' (order_cells r) \<in> cell ''id'' ` set (rows_in db ''products'')
        \<and> check_passes (Above ''quantity'' 0) (order_cells r) \<and> check_passes (Above ''amount'' 0) (order_cells r)
        \<and> check_passes (OneOf ''status'' STATUSES) (order_cells r) \<and> check_passes (AtLeast ''version'' 1) (order_cells r)
        \<and> check_passes (NullOrSha256 ''request_fingerprint'') (order_cells r))
      \<and> distinct (map (\<lambda>r. VUuid (or_id r)) os) \<and> distinct (map (\<lambda>r. VText (or_idempotency_key r)) os)"
    unfolding declared orders_table_def using db
    by (simp add: list_all_iff comp_def filter_map del: check_passes.simps) blast
  also have "\<dots> \<longleftrightarrow> (\<forall>r\<in>set os. order_ok r \<and> m (or_product_id r) \<noteq> None)
      \<and> distinct (map or_id os) \<and> distinct (map or_idempotency_key os)"
    unfolding ref keys order_cells_fit order_ok_def by (auto split: option.splits)
  finally show ?thesis .
qed

lemma processing_declared:
  assumes rows: "lists_map processing_cells rows m" and key: "\<And>u r. m u = Some r \<Longrightarrow> op_order_id r = u"
    and orders: "rows_in db ''orders'' = map order_cells os" and db: "''orders'' \<in> fst ` set db"
  shows "table_ok db (processing_table rows) \<longleftrightarrow>
    (\<forall>u r. m u = Some r \<longrightarrow> op_status r \<in> set STATUSES \<and> u \<in> set (map or_id os))"
proof -
  have "distinct (map (cell ''order_id'') rows)"
    by (rule distinct_key_column [OF rows, of _ VUuid]) (use key in \<open>auto simp: inj_def\<close>)
  then have "table_ok db (processing_table rows) \<longleftrightarrow> (\<forall>row\<in>set rows. row_ok (td_columns (processing_table rows)) row
      \<and> (cell ''order_id'' row = VNull \<or> cell ''order_id'' row \<in> cell ''id'' ` set (rows_in db ''orders''))
      \<and> check_passes (OneOf ''status'' STATUSES) row)"
    unfolding declared processing_table_def using db by (simp add: list_all_iff del: check_passes.simps) blast
  also have "\<dots> \<longleftrightarrow> (\<forall>r\<in>ran m. op_status r \<in> set STATUSES \<and> op_order_id r \<in> set (map or_id os))"
    using rows processing_cells_fit by (simp add: lists_map_def orders image_image) (auto simp: image_iff)
  finally show ?thesis using key by (auto simp: all_ran)
qed

lemma messages_declared:
  assumes rows: "lists_map processed_cells rows m" and key: "\<And>u r. m u = Some r \<Longrightarrow> pm_message_id r = u"
  shows "table_ok db (messages_table rows)"
proof -
  have "distinct (map (cell ''message_id'') rows)"
    by (rule distinct_key_column [OF rows, of _ VText]) (use key in \<open>auto simp: inj_def\<close>)
  moreover have "\<forall>row\<in>set rows. row_ok (td_columns (messages_table rows)) row"
    using rows processed_cells_fit by (auto simp: lists_map_def)
  ultimately show ?thesis unfolding declared messages_table_def by simp
qed

section \<open>Properties\<close>

text \<open>
  C25. The migrations declare the invariant of the tables.  Let the migrated tables hold the rows of a
  model state whose rows are filed under their keys.  Every row fits its columns and every primary key, unique key,
  check and foreign key that the four migrations declare holds, if and only if \<open>tables_ok\<close> holds of the
  state.
\<close>

theorem migrations_declare_tables:
  assumes "rows_of_tables rows t" and "filed_by_key t"
  shows "database_ok (with_rows rows migrated) \<longleftrightarrow> tables_ok t"
proof -
  let ?db = "migrated_with rows"
  note r = assms(1) [unfolded rows_of_tables_def] and k = assms(2) [unfolded filed_by_key_def]
  have names: "''products'' \<in> fst ` set ?db" "''orders'' \<in> fst ` set ?db" "distinct (map fst ?db)"
    by (simp_all add: migrated_with_def)
  have "database_ok ?db \<longleftrightarrow> table_ok ?db (products_table (rows ''products'')) \<and> table_ok ?db (orders_table (rows ''orders''))
      \<and> table_ok ?db (processing_table (rows ''order_processing'')) \<and> table_ok ?db (messages_table (rows ''processed_messages''))"
    using names(3) by (simp add: database_ok_def) (simp add: migrated_with_def)
  moreover have "table_ok ?db (products_table (rows ''products'')) \<longleftrightarrow> (\<forall>u r. tb_products t u = Some r \<longrightarrow> product_ok r)"
    by (rule products_declared) (use r k in auto)
  moreover have "table_ok ?db (orders_table (rows ''orders'')) \<longleftrightarrow>
      (\<forall>r\<in>set (tb_orders t). order_ok r \<and> tb_products t (or_product_id r) \<noteq> None)
      \<and> distinct (map or_id (tb_orders t)) \<and> distinct (map or_idempotency_key (tb_orders t))"
    using r k orders_declared [of ?db "tb_products t" "tb_orders t"] names(1) by (simp add: rows_in_migrated)
  moreover have "table_ok ?db (processing_table (rows ''order_processing'')) \<longleftrightarrow>
      (\<forall>u r. tb_order_processing t u = Some r \<longrightarrow> op_status r \<in> set STATUSES \<and> u \<in> set (map or_id (tb_orders t)))"
    by (rule processing_declared) (use r k names(2) in \<open>auto simp: rows_in_migrated\<close>)
  moreover have "table_ok ?db (messages_table (rows ''processed_messages''))"
    by (rule messages_declared [of _ "tb_processed_messages t"]) (use r k in auto)
  ultimately show ?thesis unfolding migrated_tables tables_ok_def using k by blast
qed

text \<open>
  C26. Every \<open>down\<close> undoes its \<open>up\<close>.  On any database that satisfies its own declarations, whatever other
  tables and rows it has, when the \<open>up\<close> of a migration succeeds, its \<open>down\<close> at any later time succeeds and gives the
  database back, with its columns, constraints and rows.
\<close>

theorem down_undoes_up:
  assumes "(up, down) \<in> set MIGRATIONS" and ok: "database_ok db" and run: "run_ddl now up db = Inr db'"
  shows "run_ddl now' down db' = Inr db"
proof -
  have kind: "(up, down) = (create_order_tables_up, create_order_tables_down)
      \<or> (up, down) = (create_order_processing_up, create_order_processing_down)
      \<or> (up, down) = (add_order_idempotency_up, add_order_idempotency_down)
      \<or> (up, down) = (create_processed_messages_up, create_processed_messages_down)"
    using assms(1) by (simp add: MIGRATIONS_def)
  show ?thesis
  proof (rule disjE [OF kind]; (elim disjE)?)
    assume "(up, down) = (create_order_tables_up, create_order_tables_down)"
    then have m: "up = create_order_tables_up" "down = create_order_tables_down" by simp_all
    have "\<not> list_ex (refers_to ''orders'') [PrimaryKey ''products_pkey'' ''id'',
        Check ''products_stock_nonnegative'' (AtLeast ''stock'' 0), Check ''products_version_positive'' (AtLeast ''version'' 1)]"
      by (simp add: refers_to_def)
    from two_creates_undone [OF ok this run [unfolded m(1) create_order_tables_up_def]]
    show ?thesis unfolding m(2) create_order_tables_down_def .
  next
    assume "(up, down) = (create_order_processing_up, create_order_processing_down)"
    then show ?thesis
      using run create_undone [OF ok] unfolding create_order_processing_up_def create_order_processing_down_def by blast
  next
    assume "(up, down) = (add_order_idempotency_up, add_order_idempotency_down)"
    then have m: "up = add_order_idempotency_up" "down = add_order_idempotency_down" by simp_all
    from alter_undone [OF ok _ run [unfolded m(1) add_order_idempotency_up_def], of now']
    show ?thesis unfolding m(2) add_order_idempotency_down_def by (simp del: run_ddl.simps)
  next
    assume "(up, down) = (create_processed_messages_up, create_processed_messages_down)"
    then show ?thesis
      using run create_undone [OF ok] unfolding create_processed_messages_up_def create_processed_messages_down_def by blast
  qed
qed

text \<open>Duplicate keys of orders stored before the third migration block it: nothing is changed.\<close>

lemma duplicate_keys_block_migration:
  assumes "map_of db ''orders'' = Some tb" and "''request_fingerprint'' \<notin> set (column_names tb)"
    and "''idempotency_key'' \<in> set (column_names tb)"
    and "{''orders_request_fingerprint_sha256'', ''orders_idempotency_key_unique''} \<inter> constraint_name ` set (td_constraints tb) = {}"
    and rows: "list_all (row_ok (td_columns tb)) (td_rows tb)"
    and dup: "\<not> distinct (filter (\<lambda>v. v \<noteq> VNull) (map (cell ''idempotency_key'') (td_rows tb)))"
  shows "run_ddl now add_order_idempotency_up db = Inl (unique_violation ''orders_idempotency_key_unique'')"
proof -
  have new: "cell ''request_fingerprint'' (row @ [(''request_fingerprint'', VNull)]) = VNull"
    if row: "row \<in> set (td_rows tb)" for row
  proof -
    have names: "map fst row = column_names tb"
      using rows row row_ok_names by (simp add: list_all_iff column_names_def)
    have "''request_fingerprint'' \<notin> set (map fst row)" using assms(2) unfolding names .
    then have "map_of row ''request_fingerprint'' = None" by (simp add: map_of_eq_None_iff)
    then show ?thesis by (simp add: cell_def map_add_def)
  qed
  have "cell ''idempotency_key'' (row @ [(''request_fingerprint'', VNull)]) = cell ''idempotency_key'' row" for row
    by (simp add: cell_def map_add_def split: option.split)
  then show ?thesis
    using assms new by (simp add: add_order_idempotency_up_def default_value_def list_all_iff comp_def column_names_def)
qed

section \<open>Sample databases\<close>

definition sample_order_row :: order_row where
  "sample_order_row = \<lparr>or_id = ''o'', or_customer_id = ''c'', or_product_id = ''p'', or_quantity = 2, or_amount = 5,
     or_status = ''PENDING'', or_version = 1, or_idempotency_key = ''k'', or_request_fingerprint = None,
     or_created_at = 1, or_updated_at = 1\<rparr>"

definition sample_product_row :: product_row where
  "sample_product_row = \<lparr>pr_id = ''p'', pr_name = ''Keyboard'', pr_stock = 8, pr_version = 2\<rparr>"

definition sample_filed :: tables where
  "sample_filed = \<lparr>tb_products = [''p'' \<mapsto> sample_product_row], tb_orders = [sample_order_row],
     tb_order_processing = Map.empty, tb_processed_messages = Map.empty\<rparr>"

definition sample_rows :: "string \<Rightarrow> sql_cells list" where
  "sample_rows n = (if n = ''products'' then [product_cells sample_product_row]
     else if n = ''orders'' then [order_cells sample_order_row] else [])"

lemma sample_filed: "rows_of_tables sample_rows sample_filed" "filed_by_key sample_filed" "tables_ok sample_filed"
  by (simp_all add: rows_of_tables_def sample_rows_def sample_filed_def lists_map_def filed_by_key_def sample_product_row_def
      tables_ok_def product_ok_def order_ok_def sample_order_row_def STATUSES_def in_int4_def)

theorem migrations_declare_tables_witness:
  "rows_of_tables sample_rows sample_filed \<and> database_ok (with_rows sample_rows migrated) \<and> tables_ok sample_filed"
  using migrations_declare_tables [OF sample_filed(1,2)] sample_filed by simp

text \<open>The third migration is run on stored orders, and undone.\<close>

definition sample_before :: database where
  "sample_before = (case run_ddl 0 (create_order_tables_up @ create_order_processing_up) [] of
      Inr db \<Rightarrow> with_rows (\<lambda>n. if n = ''products'' then [product_cells sample_product_row]
        else if n = ''orders'' then [butlast (order_cells sample_order_row)] else []) db
    | Inl e \<Rightarrow> [])"

lemma sample_before_ok: "database_ok sample_before"
  by code_simp

lemma sample_before_migrates: "\<not> isl (run_ddl 0 add_order_idempotency_up sample_before)"
  by code_simp

theorem down_undoes_up_witness:
  "\<exists>db. run_ddl 0 add_order_idempotency_up sample_before = Inr db \<and> db \<noteq> sample_before
    \<and> run_ddl 1 add_order_idempotency_down db = Inr sample_before"
proof -
  obtain db where up: "run_ddl 0 add_order_idempotency_up sample_before = Inr db"
    using sample_before_migrates by (cases "run_ddl 0 add_order_idempotency_up sample_before") auto
  have "(add_order_idempotency_up, add_order_idempotency_down) \<in> set MIGRATIONS" by (simp add: MIGRATIONS_def)
  from down_undoes_up [OF this sample_before_ok up] have "run_ddl 1 add_order_idempotency_down db = Inr sample_before" .
  moreover have "run_ddl 0 add_order_idempotency_up sample_before \<noteq> Inr sample_before" by code_simp
  ultimately show ?thesis using up by auto
qed

end
