(* ===== verification/Spec2Isabelle.thy ===== *)
theory Spec2Isabelle
  imports Message_Queue Retry_Policy Worker_Pool Access_Control Replication Consistency Sharding
    Inventory Order_Service Concurrent_Orders Order_Http Redis_Lock Worker_Messages Messaging_Semantics Experiments Api_Server Database_Setup Migrations
begin

text \<open>
  A verification development of the order system: a JavaScript monorepo in which an HTTP API
  stores orders in PostgreSQL and hands an event for each to a local queue, with the building blocks of
  a reliable worker (retries, dead letters, deduplication, a pool, a distributed lock), and simulations and
  experiments that demonstrate distributed-systems behaviour.  This theory imports the others and is their
  guide.

  \<^bold>\<open>The program and its model.\<close>

  \<^item> The values and errors the code shares.  \<open>Prelude\<close>: JavaScript values (\<open>jsval\<close>), truthiness, property
    access, the number and text helpers.  \<open>Errors\<close>: every error class as a constructor of \<open>exn\<close>, so that a
    throw or a rejection is the left side of \<open>exn + 'a\<close> and every early return is a branch; \<open>serializeError\<close>.
    \<open>Js_Date\<close>: \<open>toISOString\<close> and its reader.  \<open>Number_Parsing\<close>: \<open>Number(text)\<close>.

  \<^item> The API (\<open>apps/api/src\<close>).  \<open>Order_Requests\<close>: \<open>validateOrderInput\<close>, the canonical request and its
    fingerprint, \<open>resolveIdempotentOrder\<close> (\<open>create-order.js\<close>, \<open>order-idempotency.js\<close>).  \<open>Order_Service\<close>:
    \<open>createOrder\<close> of \<open>create-order.js\<close> as a program counter that advances by one awaited call, so that the lists
    of steps are the interleavings of concurrent requests.  \<open>Atomic_Orders\<close>: \<open>create-atomic-order.js\<close>, one
    transaction for stock, order and processing state; \<open>Order_Locks\<close> and \<open>Concurrent_Orders\<close>: concurrent calls of it
    on separate connections, one statement at a time, under the row locks of the database.  \<open>Order_Http\<close>: the error handler of \<open>app.js\<close> and the hooks and
    handler of \<open>orders-route.js\<close>.  \<open>Order_Schema\<close>: \<open>order-schema.js\<close>.  \<open>Api_Server\<close>: \<open>server.js\<close> and \<open>buildApp\<close>, that
    is, the components above composed into one process, with its closing.

  \<^item> The database (\<open>packages/database\<close>).  \<open>Database\<close>: the rows, the mappers, and every repository method over an
    arbitrary \<open>queryable\<close>.  \<open>Tables\<close>: the migrations as constraints, and the effect of each statement the
    repositories issue.  \<open>Transactions\<close>: \<open>withTransaction\<close> over an arbitrary client, and a server with
    committed tables, a working copy and calls that may fail before or after they take effect.
    \<open>Store_Interfaces\<close>, \<open>Repositories\<close>: what clients rely on, proved of the repositories on the tables.
    \<open>Database_Setup\<close>: \<open>pool.js\<close>, \<open>migrate.js\<close> and the migration script.  \<open>Migrations\<close>: \<open>up\<close> and \<open>down\<close> of each
    migration as statements on a database of named tables with rows.

  \<^item> Events and observation.  \<open>Order_Events\<close>: the publisher of \<open>packages/events\<close> and the analytics consumer of the worker.
    \<open>Observability\<close>: the metrics registry, contexts and operations of \<open>packages/observability\<close>.

  \<^item> Messaging.  \<open>Message_Queue\<close>: \<open>packages/queue/src/index.js\<close>; the consumer coroutine is a program counter that
    names the \<open>await\<close> it is suspended at, and \<open>queue_step\<close> is the code between two suspensions.
    \<open>Messaging_Semantics\<close>: the delivery simulations on that queue.  \<open>Retry_Policy\<close>: \<open>packages/retries\<close>, the retry loop
    and the dead-letter publication over an environment whose operation, delay, clock and publication may each fail.

  \<^item> The worker (\<open>apps/worker/src\<close>).  \<open>Worker_Pool\<close>: the bounded pool, a handler call and its settlement being separate
    steps.  \<open>Worker_Messages\<close>: the transactional processor, and the observed handler.  \<open>Redis_Lock\<close>: the token
    lock of \<open>packages/locks\<close> and the processed-message claims, on a server with expiring keys and lost replies.

  \<^item> Reservations and simulations (\<open>packages/concurrency\<close>, \<open>packages/access-control\<close>).  \<open>Inventory\<close>: the unsafe, the
    optimistic and the pessimistic reservation.  \<open>Leader_Election\<close>, \<open>Replication\<close>, \<open>Consistency\<close>, \<open>Sharding\<close>:
    the four simulations, the middle two over \<open>Versioned_Store\<close>.  \<open>Access_Control\<close>: the policy compiler and its decisions.

  \<^item> \<open>packages/experiments\<close>.  \<open>Concurrency_Experiments\<close>, \<open>Messaging_Experiments\<close>: each experiment on the models above.
    \<open>Experiments\<close>: the table of experiments, the runner and the command line.

  \<^bold>\<open>Interfaces.\<close>  A locale states what one component relies on in another, and is interpreted on the model of the
  component that provides it: \<open>message_sink\<close> (publisher, dead letters) on the queue; \<open>versioned_product\<close>
  (reservations) and \<open>idempotent_store\<close> (order services) on the repositories over the tables; \<open>order_calls\<close>, which extends
  the latter, on the dependencies of the API service and again on those of the whole process, whose pool can end;
  \<open>transactional\<close> on the database server; \<open>lease_server\<close> on the Redis server and on the client of the lock experiment;
  \<open>log_follower\<close> on the replicas and on the read model; \<open>schema_validator\<close> on an executable validator.

  \<^bold>\<open>What is shown.\<close>

  \<^item> Orders.  In every interleaving, calls with one idempotency key agree on one stored order, for one request
    (\<open>concurrent_orders_idempotent\<close>); what a call on its own does on each branch, invalid input included
    (\<open>create_order_branches\<close>).  The atomic service changes everything or nothing whatever calls fail
    (\<open>atomic_order_all_or_nothing\<close>), keeps stock plus ordered quantity constant (\<open>atomic_orders_conserve_stock\<close>), and does succeed
    (\<open>atomic_order_succeeds\<close>).  Concurrent calls of it, whatever the interleaving and the failures, leave the tables of a serial run
    (\<open>row_locks_serialize\<close>), and take their locks in one order, so that they cannot deadlock (\<open>row_locks_never_deadlock\<close>).
  \<^item> The process.  No request waits on the queue, which holds exactly the published events (\<open>server_announces_orders\<close>);
    a 201 is repeated for good (\<open>post_order_idempotent\<close>); replies conform to the response schemas
    (\<open>created_reply_conforms\<close>, \<open>error_replies_conform\<close>); requests that pass the schema cannot be out of range in a statement
    (\<open>schema_guards_orders\<close>).
  \<^item> Storage.  The migrations declare exactly the invariant of \<open>Tables\<close> (\<open>migrations_declare_tables\<close>), and each \<open>down\<close> undoes
    its \<open>up\<close> (\<open>down_undoes_up\<close>).  The commands of a transaction in order, release on every path (\<open>transaction_protocol\<close>); atomicity
    (\<open>transaction_atomic\<close>); constraints kept by every statement (\<open>statements_keep_constraints\<close>); no overselling
    (\<open>optimistic_never_oversells\<close>, \<open>pessimistic_all_or_nothing\<close>).
  \<^item> Messaging and work.  The queue refines a first-in first-out queue (\<open>queue_fifo\<close>), stays within its capacity, loses no wake-up and
    its shutdown completes; what each rejection of a retrying run carries (\<open>retry_rejections\<close>), and a message is acknowledged only when it was
    processed or is in the dead-letter queue (\<open>processor_acknowledges_safely\<close>); the pool runs each job once, within its bound, gives each
    promise the result of its own job (\<open>pool_runs_each_job_once\<close>), and after \<open>shutdown\<close> runs the jobs it still holds, losing none
    (\<open>pool_shutdown_drains\<close>); a redelivered message takes effect once; a lease excludes all others until it expires.
  \<^item> Simulations and experiments: the guarantees their documents name.  A leader keeps leading until its heartbeat times out, and
    never leads again after that (\<open>election_no_return\<close>).  The promise chain of an experiment is a lock for any number of calls
    (\<open>promise_chain_serializes\<close>), and the experiments that have several suspended calls report the same in any order of their
    continuations (\<open>race_condition_report\<close>, \<open>pessimistic_lock_report\<close>, \<open>worker_experiment_any_order\<close>); the other six are evaluated.

  \<^bold>\<open>Bounds.\<close>  Loops that end are functions with a measure.  Fuel occurs twice: a delivery simulation is run for 30
  turns, and \<open>delivery_semantics\<close> shows that in any order it is over after at most 16; \<open>createOrderAlone\<close> for 4 steps,
  after which a call is over (\<open>createOrderAlone_over\<close>).  The race, the lock and the pool experiment take the order in which the
  runtime continues their calls as an argument (\<open>runtime\<close>), and are still pending when it ends too early.

  \<^bold>\<open>Simplifications.\<close>  Numbers are exact rationals with the three non-finite values, without the rounding of binary64, and print
  as integers below 10 to the 21.  Strings are lists of code units below 256.  \<open>now()\<close> of the database is one value of a model
  instance.  The server of \<open>Transactions\<close> has one connection; in \<open>Concurrent_Orders\<close> each call has its own, at the default isolation, with the
  documented locks of \<open>FOR UPDATE\<close> and of the writes, an insert taking the locks of both its unique keys in one step.  In \<open>Order_Service\<close> a failed query has no effect, and
  the \<open>INSERT ... ON CONFLICT\<close> of \<open>createIdempotent\<close> and the \<open>SELECT\<close> that follows a conflict are one step, which no interleaving can tell
  from two, because orders are never deleted or changed.  A handler of the worker
  pool does not call the pool from its own synchronous part.  Fastify calls the hooks in its documented order.

  \<^bold>\<open>Not modelled.\<close>  Third-party code appears as parameters: Fastify and its JSON parser, ajv, the \<open>pg\<close> driver (its clients,
  pool and uuid parser), Redis, \<open>node-pg-migrate\<close>, SHA-256, \<open>randomUUID\<close>, the clocks and \<open>Math.random\<close>.  The log
  output, the socket and \<open>process.exitCode\<close> outside the values returned, and files that only re-export are left
  out.
\<close>

end
